(* ===== verification/Prelude.thy ===== *)
theory Prelude
  imports Main
begin

text \<open>
  Shared vocabulary of the development: the fixed-width unsigned arithmetic of
  the Rust sources written over \<^typ>\<open>nat\<close>, the ordered map that stands for
  \<open>std::collections::BTreeMap\<close>, and generic facts on lists and finite sums.

  A \<open>u64\<close> (or a \<open>usize\<close> on a 64-bit target) is a \<^typ>\<open>nat\<close> below \<open>2 ^ 64\<close>.
  Where the source uses plain \<open>+\<close>, \<open>-\<close>, \<open>*\<close> on byte positions the model uses
  the wrapping operations below (release semantics); \<open>saturating_sub\<close> is the
  truncated subtraction of \<^typ>\<open>nat\<close> itself.  Counts of objects held in memory
  (lengths of vectors, numbers of leases) are plain naturals.
\<close>

named_theorems u64_simps \<open>evaluation of the fixed-width operations\<close>
named_theorems bt_simps \<open>lookup laws of the ordered map\<close>

section \<open>Fixed-width unsigned arithmetic\<close>

definition u64_max :: nat where
  "u64_max = 18446744073709551615"

definition u32_max :: nat where
  "u32_max = 4294967295"

definition sat_add_u64 :: "nat \<Rightarrow> nat \<Rightarrow> nat" where
  "sat_add_u64 a b = min (a + b) u64_max"

definition sat_mul_u64 :: "nat \<Rightarrow> nat \<Rightarrow> nat" where
  "sat_mul_u64 a b = min (a * b) u64_max"

definition sat_add_u32 :: "nat \<Rightarrow> nat \<Rightarrow> nat" where
  "sat_add_u32 a b = min (a + b) u32_max"

definition add_u64 :: "nat \<Rightarrow> nat \<Rightarrow> nat" where
  "add_u64 a b = (a + b) mod (u64_max + 1)"

definition mul_u64 :: "nat \<Rightarrow> nat \<Rightarrow> nat" where
  "mul_u64 a b = (a * b) mod (u64_max + 1)"

definition sub_u64 :: "nat \<Rightarrow> nat \<Rightarrow> nat" where
  "sub_u64 a b = (if b \<le> a then a - b else u64_max + 1 + a - b)"

definition checked_add_u64 :: "nat \<Rightarrow> nat \<Rightarrow> nat option" where
  "checked_add_u64 a b = (if a + b \<le> u64_max then Some (a + b) else None)"

definition checked_sub_u64 :: "nat \<Rightarrow> nat \<Rightarrow> nat option" where
  "checked_sub_u64 a b = (if b \<le> a then Some (a - b) else None)"

text \<open>\<open>u64::div_ceil\<close>: the quotient, plus one when there is a remainder.  The
  source panics on a zero divisor; callers that can reach one test it first.\<close>

definition div_ceil :: "nat \<Rightarrow> nat \<Rightarrow> nat" where
  "div_ceil a b = (if a mod b = 0 then a div b else a div b + 1)"

lemmas u64_defs [u64_simps] =
  u64_max_def u32_max_def sat_add_u64_def sat_mul_u64_def sat_add_u32_def
  add_u64_def mul_u64_def sub_u64_def checked_add_u64_def checked_sub_u64_def
  div_ceil_def

lemma add_u64_exact: "a + b \<le> u64_max \<Longrightarrow> add_u64 a b = a + b"
  by (simp add: add_u64_def)

lemma mul_u64_exact: "a * b \<le> u64_max \<Longrightarrow> mul_u64 a b = a * b"
  by (simp add: mul_u64_def)

lemma sub_u64_exact [simp]: "b \<le> a \<Longrightarrow> sub_u64 a b = a - b"
  by (simp add: sub_u64_def)

lemma sat_add_u64_le: "sat_add_u64 a b \<le> u64_max"
  by (simp add: sat_add_u64_def)

lemma sat_add_u64_exact: "a + b \<le> u64_max \<Longrightarrow> sat_add_u64 a b = a + b"
  by (simp add: sat_add_u64_def)

lemma div_ceil_mult_ge: "0 < b \<Longrightarrow> a \<le> div_ceil a b * b"
proof -
  assume b: "0 < b"
  have d: "a div b * b + a mod b = a" by (rule div_mult_mod_eq)
  have m: "a mod b < b" using b by simp
  show ?thesis
  proof (cases "a mod b = 0")
    case True
    then show ?thesis using d by (simp add: div_ceil_def)
  next
    case False
    then have "div_ceil a b * b = a div b * b + b" by (simp add: div_ceil_def)
    then show ?thesis using d m by linarith
  qed
qed

lemma div_ceil_mult_less: "0 < b \<Longrightarrow> div_ceil a b * b < a + b"
proof -
  assume b: "0 < b"
  have d: "a div b * b + a mod b = a" by (rule div_mult_mod_eq)
  show ?thesis
  proof (cases "a mod b = 0")
    case True
    then have "div_ceil a b * b = a" using d by (simp add: div_ceil_def)
    then show ?thesis using b by simp
  next
    case False
    then have "div_ceil a b * b = a div b * b + b" by (simp add: div_ceil_def)
    then show ?thesis using d False by linarith
  qed
qed

lemma div_ceil_less_iff: "0 < b \<Longrightarrow> i < div_ceil a b \<longleftrightarrow> i * b < a"
proof
  assume b: "0 < b" and "i < div_ceil a b"
  then have "Suc i * b \<le> div_ceil a b * b" by (intro mult_le_mono1) simp
  then show "i * b < a" using div_ceil_mult_less [OF b, of a] by simp
next
  assume b: "0 < b" and i: "i * b < a"
  have "i * b < div_ceil a b * b" using div_ceil_mult_ge [OF b, of a] i by linarith
  then show "i < div_ceil a b" by simp
qed

lemma div_ceil_pos: "0 < a \<Longrightarrow> 0 < b \<Longrightarrow> 0 < div_ceil a b"
  by (simp add: div_ceil_less_iff)

lemma div_ceil_0 [simp]: "div_ceil 0 b = 0"
  by (simp add: div_ceil_def)

lemma div_ceil_le_dividend: "0 < b \<Longrightarrow> div_ceil a b \<le> a"
proof -
  assume b: "0 < b"
  have "\<not> a * b < a" using b by simp
  then have "\<not> a < div_ceil a b" by (simp only: div_ceil_less_iff [OF b] simp_thms)
  then show ?thesis by simp
qed

section \<open>Ordered maps\<close>

text \<open>
  A \<open>BTreeMap\<close> is an association list in key order.  Iteration visits it from
  left to right, as the source's iterators visit the tree in key order.
\<close>

type_synonym ('k, 'v) btree = "('k \<times> 'v) list"

fun bt_insert :: "'k::linorder \<Rightarrow> 'v \<Rightarrow> ('k, 'v) btree \<Rightarrow> ('k, 'v) btree" where
  "bt_insert k v [] = [(k, v)]"
| "bt_insert k v ((k', v') # m) =
     (if k < k' then (k, v) # (k', v') # m
      else if k = k' then (k, v) # m
      else (k', v') # bt_insert k v m)"

definition bt_remove :: "'k \<Rightarrow> ('k, 'v) btree \<Rightarrow> ('k, 'v) btree" where
  "bt_remove k m = filter (\<lambda>(k', v). k' \<noteq> k) m"

abbreviation bt_get :: "('k, 'v) btree \<Rightarrow> 'k \<Rightarrow> 'v option" where
  "bt_get \<equiv> map_of"

definition bt_inv :: "('k::linorder, 'v) btree \<Rightarrow> bool" where
  "bt_inv m \<longleftrightarrow> sorted_wrt (<) (map fst m)"

lemma bt_get_insert [bt_simps, simp]:
  "bt_get (bt_insert k v m) = (bt_get m)(k \<mapsto> v)"
  by (induction k v m rule: bt_insert.induct) (auto simp: fun_eq_iff)

lemma bt_get_remove [bt_simps, simp]:
  "bt_get (bt_remove k m) = (bt_get m)(k := None)"
  unfolding bt_remove_def by (induction m) (auto simp: fun_eq_iff)

lemma bt_insert_keys [simp]: "fst ` set (bt_insert k v m) = insert k (fst ` set m)"
  by (induction k v m rule: bt_insert.induct) auto

lemma bt_remove_keys [simp]: "fst ` set (bt_remove k m) = fst ` set m - {k}"
  by (force simp: bt_remove_def)

lemma bt_inv_Nil [simp]: "bt_inv []"
  by (simp add: bt_inv_def)

lemma bt_inv_Cons:
  "bt_inv ((k, v) # m) \<longleftrightarrow> (\<forall>k' \<in> fst ` set m. k < k') \<and> bt_inv m"
  by (simp add: bt_inv_def)

lemma bt_inv_insert [simp]: "bt_inv m \<Longrightarrow> bt_inv (bt_insert k v m)"
proof (induction k v m rule: bt_insert.induct)
  case (2 k v k' v' m)
  then show ?case
    by (cases "k < k'"; cases "k = k'")
      (auto simp: bt_inv_Cons ball_Un)
qed (simp add: bt_inv_def)

lemma bt_inv_remove [simp]: "bt_inv m \<Longrightarrow> bt_inv (bt_remove k m)"
  unfolding bt_remove_def bt_inv_def
  by (induction m) auto

lemma bt_inv_distinct: "bt_inv m \<Longrightarrow> distinct (map fst m)"
  unfolding bt_inv_def using strict_sorted_iff by blast

lemma bt_get_set: "bt_inv m \<Longrightarrow> bt_get m k = Some v \<longleftrightarrow> (k, v) \<in> set m"
  by (simp add: bt_inv_distinct)

lemma bt_get_keys: "k \<in> fst ` set m \<longleftrightarrow> bt_get m k \<noteq> None"
  by (simp add: map_of_eq_None_iff)

lemma bt_insert_not_Nil [simp]: "bt_insert k v m \<noteq> []"
  by (induction k v m rule: bt_insert.induct) auto

lemma bt_length_insert:
  "length (bt_insert k v m) = (if bt_get m k = None then Suc (length m) else length m)"
  if "bt_inv m"
  using that
proof (induction k v m rule: bt_insert.induct)
  case (2 k v k' v' m)
  have "k < k' \<Longrightarrow> bt_get m k = None"
    using 2(2) by (force simp: bt_inv_Cons map_of_eq_None_iff)
  then show ?case using 2 by (auto simp: bt_inv_Cons)
qed simp

lemma bt_length_remove:
  "length (bt_remove k m) = (if bt_get m k = None then length m else length m - 1)"
  if "bt_inv m"
  using that
proof (induction m)
  case (Cons kv m)
  obtain k' v' where kv: "kv = (k', v')" by (cases kv)
  have inv: "bt_inv m" "\<forall>x \<in> fst ` set m. k' < x"
    using Cons.prems by (simp_all add: kv bt_inv_Cons)
  have *: "k \<notin> fst ` set m \<Longrightarrow> bt_remove k m = m"
    unfolding bt_remove_def by (intro filter_True) force
  have "bt_get m k \<noteq> None \<Longrightarrow> m \<noteq> []" by auto
  with inv Cons.IH [OF inv(1)] * show ?case
    by (cases "k = k'") (auto simp: bt_remove_def kv map_of_eq_None_iff)
qed (simp add: bt_remove_def)

lemma bt_get_Nil_iff: "(\<forall>k. bt_get m k = None) \<longleftrightarrow> m = []"
  by (cases m) auto

text \<open>The interface the components rely on, and its provider.\<close>

locale ordered_map =
  fixes get :: "'m \<Rightarrow> 'k::linorder \<Rightarrow> 'v option"
    and put :: "'k \<Rightarrow> 'v \<Rightarrow> 'm \<Rightarrow> 'm"
    and del :: "'k \<Rightarrow> 'm \<Rightarrow> 'm"
    and keys :: "'m \<Rightarrow> 'k list"
    and inv :: "'m \<Rightarrow> bool"
  assumes get_put: "get (put k v m) = (get m)(k \<mapsto> v)"
    and get_del: "get (del k m) = (get m)(k := None)"
    and inv_put: "inv m \<Longrightarrow> inv (put k v m)"
    and inv_del: "inv m \<Longrightarrow> inv (del k m)"
    and keys_sorted: "inv m \<Longrightarrow> sorted_wrt (<) (keys m)"
    and keys_dom: "set (keys m) = dom (get m)"
begin

lemma dom_finite: "finite (dom (get m))"
  using keys_dom [of m] by (metis List.finite_set)

lemma put_del_same: "get (put k v (del k m)) = get (put k v m)"
  by (simp add: get_put get_del)

lemma keys_length: "inv m \<Longrightarrow> length (keys m) = card (dom (get m))"
  using keys_sorted [of m] keys_dom [of m]
  by (metis distinct_card strict_sorted_iff)

end

interpretation bt: ordered_map bt_get bt_insert bt_remove "map fst" bt_inv
proof
  fix m :: "('k::linorder, 'v) btree"
  show "set (map fst m) = dom (bt_get m)"
    by (simp add: dom_map_of_conv_image_fst)
qed (auto simp: bt_inv_def [symmetric])

section \<open>Lists and sums\<close>

lemma sum_update:
  fixes f g :: "nat \<Rightarrow> nat"
  assumes "i < n" and "\<And>j. j < n \<Longrightarrow> j \<noteq> i \<Longrightarrow> g j = f j"
  shows "(\<Sum>j<n. g j) = (\<Sum>j<n. f j) - f i + g i"
proof -
  have fin: "finite {..<n}" "i \<in> {..<n}" using assms(1) by auto
  have "(\<Sum>j<n. f j) = f i + (\<Sum>j\<in>{..<n} - {i}. f j)"
    using fin by (rule sum.remove)
  moreover have "(\<Sum>j<n. g j) = g i + (\<Sum>j\<in>{..<n} - {i}. g j)"
    using fin by (rule sum.remove)
  moreover have "(\<Sum>j\<in>{..<n} - {i}. g j) = (\<Sum>j\<in>{..<n} - {i}. f j)"
    using assms(2) by (intro sum.cong) auto
  ultimately show ?thesis by simp
qed

lemma sum_ge_term:
  fixes f :: "nat \<Rightarrow> nat"
  shows "i < n \<Longrightarrow> f i \<le> (\<Sum>j<n. f j)"
  by (rule member_le_sum) auto

text \<open>\<open>first_one\<close> of a bit slice: the offset of its first set bit.\<close>

fun first_one :: "bool list \<Rightarrow> nat option" where
  "first_one [] = None"
| "first_one (b # bs) = (if b then Some 0 else map_option Suc (first_one bs))"

definition first_zero :: "bool list \<Rightarrow> nat option" where
  "first_zero bs = first_one (map Not bs)"

lemma first_one_Some:
  "first_one bs = Some i \<longleftrightarrow> i < length bs \<and> bs ! i \<and> (\<forall>j<i. \<not> bs ! j)"
proof (induction bs arbitrary: i)
  case (Cons b bs)
  show ?case
  proof (cases i)
    case 0
    then show ?thesis by simp
  next
    case (Suc k)
    then show ?thesis using Cons.IH [of k] by (auto simp: less_Suc_eq_0_disj)
  qed
qed simp

lemma first_one_None: "first_one bs = None \<longleftrightarrow> (\<forall>j<length bs. \<not> bs ! j)"
  by (induction bs) (auto simp: less_Suc_eq_0_disj)

lemma first_zero_Some:
  "first_zero bs = Some i \<longleftrightarrow> i < length bs \<and> \<not> bs ! i \<and> (\<forall>j<i. bs ! j)"
  unfolding first_zero_def first_one_Some by auto

lemma first_zero_None: "first_zero bs = None \<longleftrightarrow> (\<forall>j<length bs. bs ! j)"
  unfolding first_zero_def first_one_None by auto

text \<open>\<open>BitVec::resize(n, false)\<close>.\<close>

definition bits_resize :: "nat \<Rightarrow> bool list \<Rightarrow> bool list" where
  "bits_resize n bs = take n bs @ replicate (n - length bs) False"

lemma length_bits_resize [simp]: "length (bits_resize n bs) = n"
  by (simp add: bits_resize_def)

lemma nth_bits_resize:
  "i < n \<Longrightarrow> bits_resize n bs ! i \<longleftrightarrow> i < length bs \<and> bs ! i"
  by (auto simp: bits_resize_def nth_append)

text \<open>\<open>Iterator::max_by\<close>: the last of several maximal elements wins.\<close>

fun max_by :: "('a \<Rightarrow> 'a \<Rightarrow> bool) \<Rightarrow> 'a list \<Rightarrow> 'a option" where
  "max_by gt [] = None"
| "max_by gt (x # xs) = Some (foldl (\<lambda>best y. if gt best y then best else y) x xs)"

lemma foldl_best_mem:
  "foldl (\<lambda>best y. if gt best y then best else y) x xs \<in> insert x (set xs)"
  by (induction xs arbitrary: x) fastforce+

lemma max_by_mem: "max_by gt xs = Some y \<Longrightarrow> y \<in> set xs"
  using foldl_best_mem [of gt] by (cases xs) auto

lemma max_by_None [simp]: "max_by gt xs = None \<longleftrightarrow> xs = []"
  by (cases xs) auto

text \<open>When the comparison is the strict part of a total preorder given by a
  measure, the chosen element is maximal.\<close>

lemma foldl_best_max:
  assumes "\<And>a b. gt a b \<longleftrightarrow> key b < (key a :: 'b::linorder)"
  shows "z \<in> insert x (set xs) \<Longrightarrow>
    key z \<le> key (foldl (\<lambda>best y. if gt best y then best else y) x xs)"
proof (induction xs arbitrary: x z)
  case (Cons y xs)
  let ?b = "if gt x y then x else y"
  have le: "key x \<le> key ?b" "key y \<le> key ?b"
    using assms by (auto simp: not_less)
  have b: "key ?b \<le> key (foldl (\<lambda>best y. if gt best y then best else y) ?b xs)"
    by (rule Cons.IH) simp
  show ?case
  proof (cases "z \<in> set xs")
    case True
    then have "z \<in> insert ?b (set xs)" by simp
    then show ?thesis using Cons.IH [of z ?b] by simp
  next
    case False
    then have "key z \<le> key ?b" using Cons.prems le by auto
    then show ?thesis using b by simp
  qed
qed simp

end
