(* ===== verification/Piece_Map.thy ===== *)
theory Piece_Map
  imports Prelude
begin

text \<open>
  The completion map of a download, \<open>src/storage/piece_map.rs\<close>.  The file is cut
  into pieces of \<open>piece_size\<close> bytes (the last one may be shorter); the map keeps
  one completion bit per piece together with cached counters and two search
  hints.  This theory models the whole file, proves that every operation keeps
  the counters and hints equal to what the bits say, that the pieces tile the
  file, and that serialising the bits and restoring them gives the same map.

  The bit vector is its sequence of bits.  How bits are laid out in bytes is the
  business of the \<open>bitvec\<close> crate, so \<open>from_slice\<close> and \<open>as_raw_slice\<close> are
  parameters; the law they must satisfy is the locale \<open>bit_storage\<close>.
\<close>

section \<open>Model\<close>

record piece_map =
  piece_size :: nat
  total_size :: nat
  piece_count :: nat
  completed :: "bool list"
  completed_pieces :: nat
  completed_bytes :: nat
  pm_next_candidate :: nat
  highest_completed_piece :: "nat option"

definition piece_len :: "nat \<Rightarrow> nat \<Rightarrow> nat \<Rightarrow> nat" where
  "piece_len tsize psize piece_id =
     (let start = mul_u64 piece_id psize
      in sub_u64 (min (mul_u64 (add_u64 piece_id 1) psize) tsize) start)"

text \<open>\<open>PieceMap::new\<close>; \<open>None\<close> is the division panic on a zero piece size.\<close>

definition pm_new :: "nat \<Rightarrow> nat \<Rightarrow> piece_map option" where
  "pm_new tsize psize =
     (if psize = 0 then None
      else let count = div_ceil tsize psize
           in Some \<lparr>piece_size = psize, total_size = tsize, piece_count = count,
                   completed = replicate count False, completed_pieces = 0,
                   completed_bytes = 0, pm_next_candidate = 0,
                   highest_completed_piece = None\<rparr>)"

definition from_bitset_step ::
  "nat \<Rightarrow> nat \<Rightarrow> nat \<Rightarrow> bool list \<Rightarrow> nat \<Rightarrow>
    nat \<times> nat \<times> nat \<times> nat option \<Rightarrow> nat \<times> nat \<times> nat \<times> nat option" where
  "from_bitset_step tsize psize count bits piece_id acc =
     (case acc of (pieces, bytes, next, highest) \<Rightarrow>
        if bits ! piece_id
        then (pieces + 1, add_u64 bytes (piece_len tsize psize piece_id), next, Some piece_id)
        else if next = count then (pieces, bytes, piece_id, highest)
        else (pieces, bytes, next, highest))"

definition pm_from_bitset ::
  "('byte list \<Rightarrow> bool list) \<Rightarrow> nat \<Rightarrow> nat \<Rightarrow> 'byte list \<Rightarrow> nat \<Rightarrow> piece_map" where
  "pm_from_bitset from_slice tsize psize bitset count =
     (let bits = bits_resize count (from_slice bitset);
          (pieces, bytes, next, highest) =
             fold (from_bitset_step tsize psize count bits) [0..<count] (0, 0, count, None)
      in \<lparr>piece_size = psize, total_size = tsize, piece_count = count, completed = bits,
          completed_pieces = pieces, completed_bytes = bytes, pm_next_candidate = next,
          highest_completed_piece = highest\<rparr>)"

definition piece_range :: "piece_map \<Rightarrow> nat \<Rightarrow> nat \<times> nat" where
  "piece_range m piece_id =
     (let start = mul_u64 piece_id (piece_size m)
      in (start, add_u64 start (piece_len (total_size m) (piece_size m) piece_id)))"

definition is_complete :: "piece_map \<Rightarrow> nat \<Rightarrow> bool" where
  "is_complete m piece_id \<longleftrightarrow> piece_id < piece_count m \<and> completed m ! piece_id"

function advance_from :: "bool list \<Rightarrow> nat \<Rightarrow> nat \<Rightarrow> nat" where
  "advance_from bits count i =
     (if i < count \<and> bits ! i then advance_from bits count (i + 1) else i)"
  by pat_completeness auto
termination
  by (relation "measure (\<lambda>(bits, count, i). count - i)") auto

declare advance_from.simps [simp del]

definition advance_next_candidate :: "piece_map \<Rightarrow> piece_map" where
  "advance_next_candidate m =
     m\<lparr>pm_next_candidate := advance_from (completed m) (piece_count m) (pm_next_candidate m)\<rparr>"

definition mark_complete :: "piece_map \<Rightarrow> nat \<Rightarrow> piece_map" where
  "mark_complete m piece_id =
     (if piece_id < piece_count m \<and> \<not> completed m ! piece_id
      then let m1 = m\<lparr>completed := (completed m)[piece_id := True],
                      completed_pieces := completed_pieces m + 1,
                      completed_bytes :=
                        add_u64 (completed_bytes m)
                          (piece_len (total_size m) (piece_size m) piece_id),
                      highest_completed_piece :=
                        Some (case highest_completed_piece m of
                                None \<Rightarrow> piece_id
                              | Some current \<Rightarrow> max current piece_id)\<rparr>
           in if piece_id = pm_next_candidate m1 then advance_next_candidate m1 else m1
      else m)"

definition first_missing :: "piece_map \<Rightarrow> nat option" where
  "first_missing m =
     (if pm_next_candidate m < piece_count m then Some (pm_next_candidate m) else None)"

definition pm_all_done :: "piece_map \<Rightarrow> bool" where
  "pm_all_done m \<longleftrightarrow> completed_pieces m = piece_count m"

definition remaining_count :: "piece_map \<Rightarrow> nat" where
  "remaining_count m = sub_u64 (piece_count m) (completed_pieces m)"

definition to_bitset_bytes :: "(bool list \<Rightarrow> 'byte list) \<Rightarrow> piece_map \<Rightarrow> 'byte list" where
  "to_bitset_bytes as_raw_slice m = as_raw_slice (completed m)"

definition missing_bitset :: "piece_map \<Rightarrow> bool list" where
  "missing_bitset m = map Not (completed m)"

section \<open>Piece geometry\<close>

text \<open>
  The arithmetic on byte positions does not wrap as soon as one more piece past
  the end of the file is still a \<open>u64\<close> position.
\<close>

definition geometry_ok :: "nat \<Rightarrow> nat \<Rightarrow> bool" where
  "geometry_ok tsize psize \<longleftrightarrow> 0 < psize \<and> tsize + psize \<le> u64_max + 1"

definition plen :: "nat \<Rightarrow> nat \<Rightarrow> nat \<Rightarrow> nat" where
  "plen tsize psize i = min (Suc i * psize) tsize - i * psize"

lemma geometry_bounds:
  assumes "geometry_ok tsize psize" "i < div_ceil tsize psize"
  shows "i * psize < tsize" "Suc i * psize \<le> u64_max" "Suc i \<le> u64_max" "i * psize \<le> u64_max"
proof -
  have p: "0 < psize" and t: "tsize + psize \<le> u64_max + 1"
    using assms(1) by (auto simp: geometry_ok_def)
  show a: "i * psize < tsize"
    using assms(2) div_ceil_less_iff [OF p] by simp
  then show b: "Suc i * psize \<le> u64_max" using t by simp
  show "i * psize \<le> u64_max" using a t by linarith
  have "Suc i * 1 \<le> Suc i * psize" using p by (intro mult_le_mono2) simp
  then show "Suc i \<le> u64_max" using b by simp
qed

lemma piece_len_exact:
  assumes "geometry_ok tsize psize" "i < div_ceil tsize psize"
  shows "piece_len tsize psize i = plen tsize psize i"
proof -
  note b = geometry_bounds [OF assms]
  have "i * psize \<le> min (Suc i * psize) tsize" using b(1) by simp
  then show ?thesis
    using b by (simp add: piece_len_def Let_def plen_def add_u64_exact mul_u64_exact)
qed

lemma plen_pos: "geometry_ok tsize psize \<Longrightarrow> i < div_ceil tsize psize \<Longrightarrow> 0 < plen tsize psize i"
  using geometry_bounds(1) [of tsize psize i]
  by (simp add: plen_def geometry_ok_def)

lemma sum_plen: "(\<Sum>i<n. plen tsize psize i) = min (n * psize) tsize"
  by (induction n) (auto simp: plen_def min_def)

lemma sum_plen_all:
  assumes "geometry_ok tsize psize"
  shows "(\<Sum>i<div_ceil tsize psize. plen tsize psize i) = tsize"
proof -
  have "tsize \<le> div_ceil tsize psize * psize"
    using assms div_ceil_mult_ge by (simp add: geometry_ok_def)
  then show ?thesis by (simp add: sum_plen)
qed

section \<open>Invariant\<close>

definition done_set :: "bool list \<Rightarrow> nat \<Rightarrow> nat set" where
  "done_set bits n = {i. i < n \<and> bits ! i}"

definition next_ok :: "bool list \<Rightarrow> nat \<Rightarrow> nat \<Rightarrow> bool" where
  "next_ok bits count next \<longleftrightarrow>
     next \<le> count \<and> (\<forall>i<next. bits ! i) \<and> (next < count \<longrightarrow> \<not> bits ! next)"

definition highest_ok :: "bool list \<Rightarrow> nat \<Rightarrow> nat option \<Rightarrow> bool" where
  "highest_ok bits count highest \<longleftrightarrow>
     (case highest of
        None \<Rightarrow> done_set bits count = {}
      | Some h \<Rightarrow> h \<in> done_set bits count \<and> (\<forall>i \<in> done_set bits count. i \<le> h))"

definition pm_inv :: "piece_map \<Rightarrow> bool" where
  "pm_inv m \<longleftrightarrow>
     geometry_ok (total_size m) (piece_size m) \<and>
     piece_count m = div_ceil (total_size m) (piece_size m) \<and>
     length (completed m) = piece_count m \<and>
     completed_pieces m = card (done_set (completed m) (piece_count m)) \<and>
     completed_bytes m =
       (\<Sum>i \<in> done_set (completed m) (piece_count m). plen (total_size m) (piece_size m) i) \<and>
     next_ok (completed m) (piece_count m) (pm_next_candidate m) \<and>
     highest_ok (completed m) (piece_count m) (highest_completed_piece m)"

lemma pm_invD:
  assumes "pm_inv m"
  shows pm_inv_geometry: "geometry_ok (total_size m) (piece_size m)"
    and pm_inv_count: "piece_count m = div_ceil (total_size m) (piece_size m)"
    and pm_inv_length: "length (completed m) = piece_count m"
    and pm_inv_pieces: "completed_pieces m = card (done_set (completed m) (piece_count m))"
    and pm_inv_bytes: "completed_bytes m =
      (\<Sum>i \<in> done_set (completed m) (piece_count m). plen (total_size m) (piece_size m) i)"
    and pm_inv_next: "next_ok (completed m) (piece_count m) (pm_next_candidate m)"
    and pm_inv_highest: "highest_ok (completed m) (piece_count m) (highest_completed_piece m)"
  using assms unfolding pm_inv_def by blast+

lemma finite_done_set [simp, intro]: "finite (done_set bits n)"
  by (simp add: done_set_def)

lemma done_set_subset: "done_set bits n \<subseteq> {..<n}"
  by (auto simp: done_set_def)

lemma done_set_Suc:
  "done_set bits (Suc n) = (if bits ! n then insert n (done_set bits n) else done_set bits n)"
  by (auto simp: done_set_def less_Suc_eq)

lemma done_set_update:
  "i < length bits \<Longrightarrow> i < n \<Longrightarrow>
     done_set (bits[i := True]) n = insert i (done_set bits n)"
  by (auto simp: done_set_def nth_list_update)

lemma done_set_cong: "(\<And>i. i < n \<Longrightarrow> bits ! i = bits' ! i) \<Longrightarrow> done_set bits n = done_set bits' n"
  by (auto simp: done_set_def)

lemma sum_done_le:
  "geometry_ok tsize psize \<Longrightarrow>
     (\<Sum>i \<in> done_set bits (div_ceil tsize psize). plen tsize psize i) \<le> tsize"
  using sum_mono2 [of "{..<div_ceil tsize psize}" "done_set bits (div_ceil tsize psize)"
      "plen tsize psize"] sum_plen_all done_set_subset
  by fastforce

lemma next_ok_unique: "next_ok bits count a \<Longrightarrow> next_ok bits count b \<Longrightarrow> a = b"
  unfolding next_ok_def by (metis linorder_neqE_nat order_less_le_trans)

lemma highest_ok_unique: "highest_ok bits count a \<Longrightarrow> highest_ok bits count b \<Longrightarrow> a = b"
  unfolding highest_ok_def by (force split: option.splits intro: le_antisym)

text \<open>The bits and the geometry determine every cached field.\<close>

lemma pm_inv_unique:
  assumes "pm_inv m" "pm_inv m'" "total_size m' = total_size m" "piece_size m' = piece_size m"
    "completed m' = completed m"
  shows "m' = m"
proof -
  note a = pm_invD [OF assms(1)] and b = pm_invD [OF assms(2)]
  have count: "piece_count m' = piece_count m" using a(2) b(2) assms by simp
  then have "pm_next_candidate m' = pm_next_candidate m"
    and "highest_completed_piece m' = highest_completed_piece m"
    using next_ok_unique a(6) b(6) highest_ok_unique a(7) b(7) assms(5) by metis+
  then show ?thesis
    using count a(4,5) b(4,5) assms by (intro piece_map.equality) simp_all
qed

lemma pm_inv_new:
  assumes "geometry_ok tsize psize" "pm_new tsize psize = Some m"
  shows "pm_inv m"
proof -
  let ?n = "div_ceil tsize psize"
  have m: "m = \<lparr>piece_size = psize, total_size = tsize, piece_count = ?n,
      completed = replicate ?n False, completed_pieces = 0, completed_bytes = 0,
      pm_next_candidate = 0, highest_completed_piece = None\<rparr>"
    using assms by (simp add: pm_new_def Let_def geometry_ok_def)
  have "done_set (replicate ?n False) ?n = {}" by (auto simp: done_set_def)
  then show ?thesis
    using assms(1) by (simp add: m pm_inv_def next_ok_def highest_ok_def)
qed

subsection \<open>Restoring a map\<close>

definition scan_ok ::
  "nat \<Rightarrow> nat \<Rightarrow> nat \<Rightarrow> bool list \<Rightarrow> nat \<Rightarrow> nat \<times> nat \<times> nat \<times> nat option \<Rightarrow> bool" where
  "scan_ok tsize psize count bits n acc =
     (case acc of (pieces, bytes, next, highest) \<Rightarrow>
        pieces = card (done_set bits n) \<and>
        bytes = (\<Sum>i \<in> done_set bits n. plen tsize psize i) \<and>
        highest_ok bits n highest \<and>
        (if next = count then \<forall>i<n. bits ! i
         else next < n \<and> \<not> bits ! next \<and> (\<forall>i<next. bits ! i)))"

lemma from_bitset_scan:
  assumes g: "geometry_ok tsize psize" and count: "count = div_ceil tsize psize" and "n \<le> count"
  shows "scan_ok tsize psize count bits n
    (fold (from_bitset_step tsize psize count bits) [0..<n] (0, 0, count, None))"
  using \<open>n \<le> count\<close>
proof (induction n)
  case 0
  show ?case by (simp add: scan_ok_def done_set_def highest_ok_def)
next
  case (Suc n)
  obtain p b nx h where acc:
    "fold (from_bitset_step tsize psize count bits) [0..<n] (0, 0, count, None) = (p, b, nx, h)"
    by (metis surj_pair)
  have IH: "scan_ok tsize psize count bits n (p, b, nx, h)" using Suc acc by simp
  have n: "n < div_ceil tsize psize" using Suc.prems count by simp
  have fresh: "n \<notin> done_set bits n" by (simp add: done_set_def)
  have sum_le: "(\<Sum>i \<in> done_set bits (Suc n). plen tsize psize i) \<le> tsize"
  proof -
    have "done_set bits (Suc n) \<subseteq> done_set bits (div_ceil tsize psize)"
      using n by (auto simp: done_set_def)
    then have "(\<Sum>i \<in> done_set bits (Suc n). plen tsize psize i)
        \<le> (\<Sum>i \<in> done_set bits (div_ceil tsize psize). plen tsize psize i)"
      by (intro sum_mono2) auto
    then show ?thesis using sum_done_le [OF g, of bits] by linarith
  qed
  have tmax: "tsize \<le> u64_max" using g by (simp add: geometry_ok_def)
  have bytes: "bits ! n \<Longrightarrow> add_u64 b (piece_len tsize psize n) = plen tsize psize n + b"
    using IH sum_le tmax fresh
    by (simp add: scan_ok_def done_set_Suc piece_len_exact [OF g n] add_u64_exact)
  have step: "fold (from_bitset_step tsize psize count bits) [0..<Suc n] (0, 0, count, None)
      = from_bitset_step tsize psize count bits n (p, b, nx, h)"
    by (simp add: acc)
  have "scan_ok tsize psize count bits (Suc n)
      (from_bitset_step tsize psize count bits n (p, b, nx, h))"
  proof (cases "bits ! n")
    case True
    have "highest_ok bits (Suc n) (Some n)"
      using True by (auto simp: highest_ok_def done_set_def)
    then show ?thesis
      using IH True bytes fresh Suc.prems
      by (auto simp: from_bitset_step_def scan_ok_def done_set_Suc less_Suc_eq split: if_splits)
  next
    case False
    have ds: "done_set bits (Suc n) = done_set bits n" using False by (simp add: done_set_Suc)
    then have "highest_ok bits (Suc n) h \<longleftrightarrow> highest_ok bits n h"
      unfolding highest_ok_def by (simp only:)
    then show ?thesis
      using IH False Suc.prems ds
      by (auto simp: from_bitset_step_def scan_ok_def less_Suc_eq split: if_splits)
  qed
  then show ?case by (simp only: step)
qed

lemma from_bitset_fields [simp]:
  "total_size (pm_from_bitset fs tsize psize bitset count) = tsize"
  "piece_size (pm_from_bitset fs tsize psize bitset count) = psize"
  "piece_count (pm_from_bitset fs tsize psize bitset count) = count"
  "completed (pm_from_bitset fs tsize psize bitset count) = bits_resize count (fs bitset)"
  by (simp_all add: pm_from_bitset_def Let_def split: prod.split)

lemma pm_inv_from_bitset:
  assumes "geometry_ok tsize psize" "count = div_ceil tsize psize"
  shows "pm_inv (pm_from_bitset fs tsize psize bitset count)"
proof -
  let ?bits = "bits_resize count (fs bitset)"
  obtain p b nx h where acc:
    "fold (from_bitset_step tsize psize count ?bits) [0..<count] (0, 0, count, None) = (p, b, nx, h)"
    by (metis surj_pair)
  have ok: "scan_ok tsize psize count ?bits count (p, b, nx, h)"
    using from_bitset_scan [OF assms order_refl, of ?bits] acc by simp
  have m: "pm_from_bitset fs tsize psize bitset count =
      \<lparr>piece_size = psize, total_size = tsize, piece_count = count, completed = ?bits,
       completed_pieces = p, completed_bytes = b, pm_next_candidate = nx,
       highest_completed_piece = h\<rparr>"
    by (simp add: pm_from_bitset_def acc)
  have "next_ok ?bits count nx" using ok by (auto simp: scan_ok_def next_ok_def split: if_splits)
  then show ?thesis
    unfolding m using assms(1) assms(2) [symmetric] ok by (simp add: pm_inv_def scan_ok_def)
qed

section \<open>Completing a piece\<close>

lemma advance_from_next_ok:
  assumes "i \<le> count" "\<forall>j<i. bits ! j"
  shows "next_ok bits count (advance_from bits count i)"
  using assms
proof (induction bits count i rule: advance_from.induct)
  case (1 bits count i)
  show ?case
  proof (cases "i < count \<and> bits ! i")
    case True
    have "\<forall>j<i + 1. bits ! j" using True "1.prems"(2) by (simp add: less_Suc_eq)
    then have "next_ok bits count (advance_from bits count (i + 1))"
      using True by (intro "1.IH") simp_all
    then show ?thesis using True by (subst advance_from.simps) (simp only: if_True simp_thms)
  next
    case False
    then show ?thesis
      using "1.prems" by (subst advance_from.simps) (simp only: if_False, auto simp: next_ok_def)
  qed
qed

lemma mark_complete_fields [simp]:
  "total_size (mark_complete m i) = total_size m"
  "piece_size (mark_complete m i) = piece_size m"
  "piece_count (mark_complete m i) = piece_count m"
  "length (completed (mark_complete m i)) = length (completed m)"
  by (simp_all add: mark_complete_def advance_next_candidate_def Let_def)

lemma mark_complete_completed:
  "completed (mark_complete m i) =
     (if i < piece_count m then (completed m)[i := True] else completed m)"
  if "length (completed m) = piece_count m"
proof -
  have "i < piece_count m \<Longrightarrow> completed m ! i \<Longrightarrow> (completed m)[i := True] = completed m"
    using that list_update_id [of "completed m" i] by simp
  then show ?thesis
    by (auto simp: mark_complete_def advance_next_candidate_def Let_def)
qed

lemma highest_ok_insert:
  assumes "highest_ok bits count h" "i < count" "i < length bits"
  shows "highest_ok (bits[i := True]) count
    (Some (case h of None \<Rightarrow> i | Some c \<Rightarrow> max c i))"
  using assms by (auto simp: highest_ok_def done_set_update max_def split: option.splits)

lemma pm_inv_mark_complete:
  assumes "pm_inv m"
  shows "pm_inv (mark_complete m i)"
proof (cases "i < piece_count m \<and> \<not> completed m ! i")
  case False
  then show ?thesis using assms by (auto simp: mark_complete_def)
next
  case True
  let ?c = "(completed m)[i := True]" and ?n = "piece_count m"
  note inv = pm_invD [OF assms]
  have i: "i < div_ceil (total_size m) (piece_size m)" using True inv(2) by simp
  have ds: "done_set ?c ?n = insert i (done_set (completed m) ?n)"
    using True inv(3) by (intro done_set_update) simp_all
  have fresh: "i \<notin> done_set (completed m) ?n" using True by (simp add: done_set_def)
  have pieces: "completed_pieces m + 1 = card (done_set ?c ?n)"
    using fresh by (simp add: ds inv(4))
  have sum: "(\<Sum>j \<in> done_set ?c ?n. plen (total_size m) (piece_size m) j)
      = completed_bytes m + plen (total_size m) (piece_size m) i"
    using fresh by (simp add: ds inv(5))
  have "(\<Sum>j \<in> done_set ?c ?n. plen (total_size m) (piece_size m) j) \<le> u64_max"
    using sum_done_le [OF inv(1), of ?c] inv(1,2) by (simp add: geometry_ok_def)
  then have bytes: "add_u64 (completed_bytes m) (piece_len (total_size m) (piece_size m) i) =
      (\<Sum>j \<in> done_set ?c ?n. plen (total_size m) (piece_size m) j)"
    by (simp only: sum piece_len_exact [OF inv(1) i] add_u64_exact)
  have hi: "highest_ok ?c ?n
      (Some (case highest_completed_piece m of None \<Rightarrow> i | Some c \<Rightarrow> max c i))"
    using True inv(3,7) by (intro highest_ok_insert) simp_all
  have next1: "i \<noteq> pm_next_candidate m \<Longrightarrow> next_ok ?c ?n (pm_next_candidate m)"
    using inv(3,6) True by (auto simp: next_ok_def nth_list_update)
  have next2: "next_ok ?c ?n (advance_from ?c ?n i)" if "i = pm_next_candidate m"
    using inv(6) that True inv(3)
    by (intro advance_from_next_ok) (auto simp: next_ok_def nth_list_update)
  define m1 where "m1 = m\<lparr>completed := ?c, completed_pieces := completed_pieces m + 1,
      completed_bytes := add_u64 (completed_bytes m) (piece_len (total_size m) (piece_size m) i),
      highest_completed_piece :=
        Some (case highest_completed_piece m of None \<Rightarrow> i | Some c \<Rightarrow> max c i)\<rparr>"
  have mc: "mark_complete m i =
      m1\<lparr>pm_next_candidate := if i = pm_next_candidate m then advance_from ?c ?n i
                             else pm_next_candidate m\<rparr>"
    using True by (simp add: mark_complete_def m1_def Let_def advance_next_candidate_def)
  show ?thesis
    unfolding pm_inv_def mc
    using inv(1-3) pieces bytes hi next1 next2 by (simp add: m1_def)
qed
section \<open>What the queries return\<close>

lemma pm_inv_first_missing:
  assumes "pm_inv m"
  shows "first_missing m = first_zero (completed m)"
proof -
  note len = pm_inv_length [OF assms] and nx = pm_inv_next [OF assms]
  show ?thesis
  proof (cases "pm_next_candidate m < piece_count m")
    case True
    then show ?thesis
      using nx len first_zero_Some [of "completed m" "pm_next_candidate m"]
      by (simp add: first_missing_def next_ok_def)
  next
    case False
    then show ?thesis
      using nx len first_zero_None [of "completed m"]
      by (simp add: first_missing_def next_ok_def)
  qed
qed

lemma done_set_full:
  assumes "card (done_set bits n) = n" "i < n"
  shows "bits ! i"
proof -
  have "done_set bits n = {..<n}"
    using card_subset_eq [OF _ done_set_subset [of bits n]] assms(1) by simp
  then show ?thesis using assms(2) by (auto simp: done_set_def)
qed

lemma done_set_card_le: "card (done_set bits n) \<le> n"
  using card_mono [OF _ done_set_subset [of bits n]] by simp

lemma pm_all_done_iff:
  assumes "pm_inv m"
  shows "pm_all_done m \<longleftrightarrow> (\<forall>i<piece_count m. completed m ! i)"
proof
  assume "pm_all_done m"
  then have "card (done_set (completed m) (piece_count m)) = piece_count m"
    using pm_inv_pieces [OF assms] by (simp add: pm_all_done_def)
  then show "\<forall>i<piece_count m. completed m ! i"
    using done_set_full by blast
next
  assume "\<forall>i<piece_count m. completed m ! i"
  then have "done_set (completed m) (piece_count m) = {..<piece_count m}"
    by (auto simp: done_set_def)
  then show "pm_all_done m" using pm_inv_pieces [OF assms] by (simp add: pm_all_done_def)
qed

lemma pm_all_done_bytes:
  assumes "pm_inv m" "pm_all_done m"
  shows "completed_bytes m = total_size m"
proof -
  have "done_set (completed m) (piece_count m) = {..<piece_count m}"
    using assms by (auto simp: pm_all_done_iff done_set_def)
  then show ?thesis
    using pm_inv_bytes [OF assms(1)] pm_inv_count [OF assms(1)]
      sum_plen_all [OF pm_inv_geometry [OF assms(1)]] by simp
qed

lemma completed_bytes_le: "pm_inv m \<Longrightarrow> completed_bytes m \<le> total_size m"
  using sum_done_le [OF pm_inv_geometry, of m "completed m"] pm_inv_bytes [of m] pm_inv_count [of m]
  by simp

lemma remaining_count_eq:
  assumes "pm_inv m"
  shows "remaining_count m = card {i. i < piece_count m \<and> \<not> completed m ! i}"
proof -
  have "{i. i < piece_count m \<and> \<not> completed m ! i}
      = {..<piece_count m} - done_set (completed m) (piece_count m)"
    by (auto simp: done_set_def)
  then have "card {i. i < piece_count m \<and> \<not> completed m ! i}
      = piece_count m - card (done_set (completed m) (piece_count m))"
    by (simp add: card_Diff_subset [OF finite_done_set done_set_subset])
  then show ?thesis
    using pm_inv_pieces [OF assms] done_set_card_le [of "completed m" "piece_count m"]
    by (simp add: remaining_count_def)
qed

lemma piece_range_exact:
  assumes "pm_inv m" "i < piece_count m"
  shows "piece_range m i = (i * piece_size m, min (Suc i * piece_size m) (total_size m))"
proof -
  have g: "geometry_ok (total_size m) (piece_size m)"
    and i: "i < div_ceil (total_size m) (piece_size m)"
    using assms by (auto simp: pm_inv_def)
  note b = geometry_bounds [OF g i]
  have "i * piece_size m + plen (total_size m) (piece_size m) i
      = min (Suc i * piece_size m) (total_size m)"
    using b(1) by (simp add: plen_def)
  moreover have "min (Suc i * piece_size m) (total_size m) \<le> u64_max" using b(2) by simp
  ultimately show ?thesis
    using b by (simp add: piece_range_def Let_def mul_u64_exact piece_len_exact [OF g i] add_u64_exact)
qed

lemma piece_range_bounds:
  assumes "pm_inv m" "i < piece_count m"
  shows "fst (piece_range m i) < snd (piece_range m i)" "snd (piece_range m i) \<le> total_size m"
proof -
  have "0 < piece_size m" "i * piece_size m < total_size m"
    using assms geometry_bounds by (auto simp: pm_inv_def geometry_ok_def)
  then show "fst (piece_range m i) < snd (piece_range m i)" "snd (piece_range m i) \<le> total_size m"
    using assms by (simp_all add: piece_range_exact)
qed

text \<open>The pieces tile the file: each byte position lies in exactly one piece.\<close>

definition piece_bytes :: "piece_map \<Rightarrow> nat \<Rightarrow> nat set" where
  "piece_bytes m i = {fst (piece_range m i)..<snd (piece_range m i)}"

lemma piece_bytes_mem:
  assumes "pm_inv m" "i < piece_count m"
  shows "b \<in> piece_bytes m i \<longleftrightarrow> b < total_size m \<and> b div piece_size m = i"
proof -
  have p: "0 < piece_size m" using assms(1) by (simp add: pm_inv_def geometry_ok_def)
  have "i \<le> b div piece_size m \<longleftrightarrow> i * piece_size m \<le> b"
    using p by (rule less_eq_div_iff_mult_less_eq)
  moreover have "b div piece_size m < Suc i \<longleftrightarrow> b < Suc i * piece_size m"
    using p by (rule div_less_iff_less_mult)
  ultimately have "i * piece_size m \<le> b \<and> b < Suc i * piece_size m \<longleftrightarrow> b div piece_size m = i"
    by auto
  then show ?thesis using assms by (auto simp: piece_bytes_def piece_range_exact)
qed

lemma piece_of_byte:
  assumes "pm_inv m" "b < total_size m"
  shows "b div piece_size m < piece_count m"
proof -
  have "0 < piece_size m" using assms(1) by (simp add: pm_inv_def geometry_ok_def)
  moreover have "b div piece_size m * piece_size m < total_size m"
    using assms(2) by (meson div_times_less_eq_dividend le_less_trans)
  ultimately show ?thesis using assms(1) by (simp add: pm_inv_def div_ceil_less_iff)
qed

lemma piece_bytes_disjoint:
  assumes "pm_inv m" "i < piece_count m" "j < piece_count m" "i \<noteq> j"
  shows "piece_bytes m i \<inter> piece_bytes m j = {}"
  using assms by (auto simp: piece_bytes_mem)

section \<open>Serialised bits\<close>

text \<open>What the control file relies on from the bit vector crate: reading back
  the raw storage of a bit vector yields its bits, possibly followed by padding.\<close>

locale bit_storage =
  fixes from_slice :: "'byte list \<Rightarrow> bool list"
    and as_raw_slice :: "bool list \<Rightarrow> 'byte list"
  assumes storage_roundtrip: "take (length bs) (from_slice (as_raw_slice bs)) = bs"
begin

lemma resize_roundtrip: "bits_resize (length bs) (from_slice (as_raw_slice bs)) = bs"
proof -
  have "length (take (length bs) (from_slice (as_raw_slice bs))) = length bs"
    by (simp only: storage_roundtrip)
  then have "length bs \<le> length (from_slice (as_raw_slice bs))" by simp
  then show ?thesis by (simp add: bits_resize_def storage_roundtrip)
qed

lemma bitset_roundtrip:
  assumes "pm_inv m"
  shows "pm_from_bitset from_slice (total_size m) (piece_size m)
    (to_bitset_bytes as_raw_slice m) (piece_count m) = m"
proof (rule pm_inv_unique [OF assms pm_inv_from_bitset])
  have "piece_count m = length (completed m)" using assms by (simp add: pm_inv_def)
  then show "completed (pm_from_bitset from_slice (total_size m) (piece_size m)
      (to_bitset_bytes as_raw_slice m) (piece_count m)) = completed m"
    by (simp add: to_bitset_bytes_def resize_roundtrip)
qed (use assms in \<open>simp_all add: pm_inv_def\<close>)

end

text \<open>The layout the source's type names, \<open>BitVec<u8, Lsb0>\<close>: bit \<open>k\<close> of the
  vector is bit \<open>k mod 8\<close> (counted from the least significant) of byte \<open>k div 8\<close>.\<close>

definition lsb0_from_slice :: "nat list \<Rightarrow> bool list" where
  "lsb0_from_slice bytes = concat (map (\<lambda>b. map (\<lambda>k. odd (b div 2 ^ k)) [0..<8]) bytes)"

fun lsb0_byte :: "bool list \<Rightarrow> nat" where
  "lsb0_byte [] = 0"
| "lsb0_byte (b # bs) = of_bool b + 2 * lsb0_byte bs"

function lsb0_as_raw_slice :: "bool list \<Rightarrow> nat list" where
  "lsb0_as_raw_slice bs =
     (if bs = [] then [] else lsb0_byte (take 8 bs) # lsb0_as_raw_slice (drop 8 bs))"
  by pat_completeness auto
termination
  by (relation "measure length") auto

declare lsb0_as_raw_slice.simps [simp del]

lemma lsb0_byte_bit: "odd (lsb0_byte bs div 2 ^ k) \<longleftrightarrow> k < length bs \<and> bs ! k"
proof (induction bs arbitrary: k)
  case (Cons b bs)
  show ?case
  proof (cases k)
    case (Suc j)
    have "(of_bool b + 2 * lsb0_byte bs) div 2 = lsb0_byte bs" by (cases b) simp_all
    then have "lsb0_byte (b # bs) div 2 ^ k = lsb0_byte bs div 2 ^ j"
      by (simp add: Suc div_mult2_eq)
    then show ?thesis using Cons.IH [of j] by (simp add: Suc)
  qed simp
qed simp

lemma lsb0_head:
  "take (length bs) (map (\<lambda>k. odd (lsb0_byte (take n bs) div 2 ^ k)) [0..<n]) = take n bs"
  by (rule nth_equalityI) (auto simp: lsb0_byte_bit)

lemma lsb0_roundtrip: "take (length bs) (lsb0_from_slice (lsb0_as_raw_slice bs)) = bs"
proof (induction bs rule: lsb0_as_raw_slice.induct)
  case (1 bs)
  show ?case
  proof (cases "bs = []")
    case False
    define hd8 where "hd8 = map (\<lambda>k. odd (lsb0_byte (take 8 bs) div 2 ^ k)) [0..<8]"
    have len: "length hd8 = 8" by (simp add: hd8_def)
    have step: "lsb0_from_slice (lsb0_as_raw_slice bs)
        = hd8 @ lsb0_from_slice (lsb0_as_raw_slice (drop 8 bs))"
      unfolding hd8_def lsb0_from_slice_def
      using False by (subst lsb0_as_raw_slice.simps) simp
    have "take (length bs) hd8 = take 8 bs" unfolding hd8_def by (rule lsb0_head)
    moreover have "take (length bs - 8) (lsb0_from_slice (lsb0_as_raw_slice (drop 8 bs))) = drop 8 bs"
      using 1 [OF False] by simp
    ultimately show ?thesis by (simp only: step take_append len append_take_drop_id)
  qed simp
qed

interpretation lsb0: bit_storage lsb0_from_slice lsb0_as_raw_slice
  by unfold_locales (rule lsb0_roundtrip)

section \<open>Properties\<close>

lemma geometry_small: "0 < psize \<Longrightarrow> tsize + psize \<le> 1000000 \<Longrightarrow> geometry_ok tsize psize"
  by (simp add: geometry_ok_def u64_max_def)

lemma pm_inv_new_the:
  assumes "geometry_ok tsize psize"
  shows "pm_inv (the (pm_new tsize psize))"
  using assms by (intro pm_inv_new [OF assms]) (simp add: pm_new_def Let_def geometry_ok_def)

text \<open>C19. Saving the completion bits of a piece map and restoring them with
  \<open>PieceMap::from_bitset\<close> gives back the very same map: bits, counters and search
  hints.  The bit layout is any that satisfies the storage law.\<close>

theorem piece_map_bitset_roundtrip:
  assumes "bit_storage from_slice as_raw_slice" "pm_inv m"
  shows "pm_from_bitset from_slice (total_size m) (piece_size m)
    (to_bitset_bytes as_raw_slice m) (piece_count m) = m"
  using bit_storage.bitset_roundtrip [OF assms] .

theorem piece_map_bitset_roundtrip_witness:
  "let m = mark_complete (the (pm_new 10 4)) 1
   in pm_from_bitset lsb0_from_slice (total_size m) (piece_size m)
        (to_bitset_bytes lsb0_as_raw_slice m) (piece_count m) = m \<and> completed_bytes m = 4"
proof -
  have inv: "pm_inv (mark_complete (the (pm_new 10 4)) 1)"
    by (intro pm_inv_mark_complete pm_inv_new_the geometry_small) simp_all
  have b: "completed_bytes (mark_complete (the (pm_new 10 4)) 1) = 4"
    by (simp add: mark_complete_def pm_new_def piece_len_def u64_simps Let_def)
  show ?thesis
    unfolding Let_def using piece_map_bitset_roundtrip [OF lsb0.bit_storage_axioms inv] b by simp
qed

text \<open>The pieces tile the file: every byte position below the total size lies
  in exactly one piece, the one \<open>b div piece_size\<close> names, and no piece is empty or
  reaches past the end.\<close>

theorem piece_map_tiling:
  assumes "pm_inv m"
  shows "(b < total_size m \<longleftrightarrow> (\<exists>!i. i < piece_count m \<and> b \<in> piece_bytes m i)) \<and>
    (\<forall>i < piece_count m.
      fst (piece_range m i) < snd (piece_range m i) \<and> snd (piece_range m i) \<le> total_size m)"
  using piece_bytes_mem [OF assms] piece_of_byte [OF assms] piece_range_bounds [OF assms] by auto

theorem piece_map_tiling_witness:
  "let m = the (pm_new 10 4)
   in (9 < total_size m \<longleftrightarrow> (\<exists>!i. i < piece_count m \<and> 9 \<in> piece_bytes m i)) \<and>
      fst (piece_range m 2) < snd (piece_range m 2) \<and> snd (piece_range m 2) \<le> total_size m"
proof -
  have inv: "pm_inv (the (pm_new 10 4))" by (intro pm_inv_new_the geometry_small) simp_all
  have "2 < piece_count (the (pm_new 10 4))" by (simp add: pm_new_def div_ceil_def Let_def)
  then show ?thesis
    unfolding Let_def using piece_map_tiling [OF inv, of 9] by blast
qed

end
