(* ===== verification/Range_Set.thy ===== *)
theory Range_Set
  imports Prelude
begin

text \<open>
  Half-open byte ranges and the ordered range set that records which bytes of a
  piece still have to be assigned: \<open>ByteRange\<close> and \<open>RangeSet\<close> of
  \<open>src/scheduler.rs\<close>.  A range set is a list of disjoint, non-touching ranges in
  ascending order; inserting merges neighbours and removing splits one range.
  The abstraction function \<open>rs_bytes\<close> gives the set of byte positions, and the
  locale \<open>byte_range_set\<close> is the contract the scheduler relies on.
\<close>

section \<open>Model\<close>

record byte_range =
  br_start :: nat
  br_end :: nat

definition byte_range_new :: "nat \<Rightarrow> nat \<Rightarrow> byte_range option" where
  "byte_range_new s e = (if s < e then Some \<lparr>br_start = s, br_end = e\<rparr> else None)"

type_synonym range_set = "byte_range list"

definition rs_new_full :: "nat \<Rightarrow> nat \<Rightarrow> range_set" where
  "rs_new_full s e = (case byte_range_new s e of None \<Rightarrow> [] | Some r \<Rightarrow> [r])"

definition rs_first :: "range_set \<Rightarrow> byte_range option" where
  "rs_first rs = (case rs of [] \<Rightarrow> None | r # _ \<Rightarrow> Some r)"

text \<open>The loop of \<open>RangeSet::insert\<close>: ranges wholly before the new one are kept,
  the first range wholly behind it ends the scan, and any other range is merged
  into the new one and taken out.\<close>

fun rs_insert :: "byte_range \<Rightarrow> range_set \<Rightarrow> range_set" where
  "rs_insert r [] = [r]"
| "rs_insert r (c # cs) =
     (if br_end c < br_start r then c # rs_insert r cs
      else if br_end r < br_start c then r # c # cs
      else rs_insert \<lparr>br_start = min (br_start r) (br_start c),
                      br_end = max (br_end r) (br_end c)\<rparr> cs)"

text \<open>\<open>RangeSet::remove\<close>: the first range that contains the argument is replaced
  by what is left of it on either side.\<close>

fun rs_remove :: "byte_range \<Rightarrow> range_set \<Rightarrow> range_set option" where
  "rs_remove r [] = None"
| "rs_remove r (c # cs) =
     (if br_start c \<le> br_start r \<and> br_end r \<le> br_end c
      then Some ((if br_start c < br_start r
                  then [\<lparr>br_start = br_start c, br_end = br_start r\<rparr>] else []) @
                 (if br_end r < br_end c
                  then [\<lparr>br_start = br_end r, br_end = br_end c\<rparr>] else []) @ cs)
      else map_option ((#) c) (rs_remove r cs))"

section \<open>Byte sets and the invariant\<close>

definition br_bytes :: "byte_range \<Rightarrow> nat set" where
  "br_bytes r = {br_start r..<br_end r}"

definition rs_bytes :: "range_set \<Rightarrow> nat set" where
  "rs_bytes rs = (\<Union>r \<in> set rs. br_bytes r)"

definition br_ok :: "byte_range \<Rightarrow> bool" where
  "br_ok r \<longleftrightarrow> br_start r < br_end r"

definition rs_inv :: "range_set \<Rightarrow> bool" where
  "rs_inv rs \<longleftrightarrow> sorted_wrt (\<lambda>a b. br_end a < br_start b) rs \<and> (\<forall>r \<in> set rs. br_ok r)"

lemma rs_bytes_Nil [simp]: "rs_bytes [] = {}"
  by (simp add: rs_bytes_def)

lemma rs_bytes_Cons [simp]: "rs_bytes (r # rs) = br_bytes r \<union> rs_bytes rs"
  by (simp add: rs_bytes_def)

lemma rs_bytes_append [simp]: "rs_bytes (xs @ ys) = rs_bytes xs \<union> rs_bytes ys"
  by (simp add: rs_bytes_def)

lemma rs_inv_Nil [simp]: "rs_inv []"
  by (simp add: rs_inv_def)

lemma rs_inv_Cons:
  "rs_inv (r # rs) \<longleftrightarrow> br_ok r \<and> (\<forall>c \<in> set rs. br_end r < br_start c) \<and> rs_inv rs"
  by (auto simp: rs_inv_def)

lemma br_bytes_empty: "br_bytes r = {} \<longleftrightarrow> \<not> br_ok r"
  by (auto simp: br_bytes_def br_ok_def)

lemma finite_br_bytes [simp]: "finite (br_bytes r)"
  by (simp add: br_bytes_def)

lemma rs_inv_bytes_empty: "rs_inv rs \<Longrightarrow> rs_bytes rs = {} \<longleftrightarrow> rs = []"
  by (cases rs) (auto simp: rs_inv_Cons br_bytes_empty)

lemma rs_new_full_inv [simp]: "rs_inv (rs_new_full s e)"
  by (simp add: rs_new_full_def byte_range_new_def rs_inv_def br_ok_def)

lemma rs_new_full_bytes [simp]: "rs_bytes (rs_new_full s e) = {s..<e}"
  by (auto simp: rs_new_full_def byte_range_new_def br_bytes_def)

lemma rs_first_mem: "rs_first rs = Some r \<Longrightarrow> r \<in> set rs"
  by (auto simp: rs_first_def split: list.splits)

lemma rs_first_None [simp]: "rs_first rs = None \<longleftrightarrow> rs = []"
  by (simp add: rs_first_def split: list.splits)

section \<open>Insertion\<close>

lemma br_merge_bytes:
  assumes "br_ok r" "br_ok c" "\<not> br_end c < br_start r" "\<not> br_end r < br_start c"
  shows "br_bytes \<lparr>br_start = min (br_start r) (br_start c), br_end = max (br_end r) (br_end c)\<rparr>
    = br_bytes r \<union> br_bytes c"
  using assms by (auto simp: br_bytes_def br_ok_def min_def max_def)

lemma br_merge_ok:
  "br_ok r \<Longrightarrow> br_ok c \<Longrightarrow>
     br_ok \<lparr>br_start = min (br_start r) (br_start c), br_end = max (br_end r) (br_end c)\<rparr>"
  by (auto simp: br_ok_def)

lemma rs_insert_bytes:
  assumes "br_ok r" "rs_inv rs"
  shows "rs_bytes (rs_insert r rs) = br_bytes r \<union> rs_bytes rs"
  using assms
proof (induction r rs rule: rs_insert.induct)
  case (2 r c cs)
  then show ?case
    by (auto simp: rs_inv_Cons br_merge_bytes br_merge_ok)
qed simp

text \<open>Every range of the result starts no earlier than the old ranges and the
  new one, so a common lower bound is kept.\<close>

lemma rs_insert_lower:
  assumes "\<forall>c \<in> set rs. x < br_start c" "x < br_start r"
  shows "\<forall>c \<in> set (rs_insert r rs). x < br_start c"
  using assms by (induction r rs rule: rs_insert.induct) auto

lemma rs_insert_inv:
  assumes "br_ok r" "rs_inv rs"
  shows "rs_inv (rs_insert r rs)"
  using assms
proof (induction r rs rule: rs_insert.induct)
  case (1 r)
  then show ?case by (simp add: rs_inv_Cons)
next
  case (2 r c cs)
  have c: "br_ok c" "\<forall>d \<in> set cs. br_end c < br_start d" "rs_inv cs"
    using 2(4) by (auto simp: rs_inv_Cons)
  show ?case
  proof (cases "br_end c < br_start r")
    case True
    then have "\<forall>d \<in> set (rs_insert r cs). br_end c < br_start d"
      using c by (intro rs_insert_lower) auto
    then show ?thesis using True 2 c by (simp add: rs_inv_Cons)
  next
    case False
    show ?thesis
    proof (cases "br_end r < br_start c")
      case True
      have "\<forall>d \<in> set cs. br_end r < br_start d"
        using True c by (force simp: br_ok_def)
      then show ?thesis using True False 2(3) c by (simp add: rs_inv_Cons)
    next
      case nb: False
      then show ?thesis using False 2 c by (simp add: br_merge_ok)
    qed
  qed
qed

lemma rs_insert_not_Nil [simp]: "rs_insert r rs \<noteq> []"
  by (induction r rs rule: rs_insert.induct) auto

section \<open>Removal\<close>

lemma rs_remove_lower:
  assumes "rs_remove r rs = Some rs'" "\<forall>c \<in> set rs. x < br_start c" "br_ok r"
  shows "\<forall>c \<in> set rs'. x < br_start c"
  using assms
proof (induction r rs arbitrary: rs' rule: rs_remove.induct)
  case (2 r c cs)
  show ?case
  proof (cases "br_start c \<le> br_start r \<and> br_end r \<le> br_end c")
    case True
    then have "rs' = (if br_start c < br_start r
                  then [\<lparr>br_start = br_start c, br_end = br_start r\<rparr>] else []) @
                 (if br_end r < br_end c
                  then [\<lparr>br_start = br_end r, br_end = br_end c\<rparr>] else []) @ cs"
      using 2(2) by simp
    then show ?thesis using True 2(3,4) by (auto simp: br_ok_def)
  next
    case False
    then obtain cs' where "rs_remove r cs = Some cs'" "rs' = c # cs'"
      using 2(2) by auto
    then show ?thesis using 2 False by auto
  qed
qed simp

lemma rs_remove_inv:
  assumes "rs_remove r rs = Some rs'" "br_ok r" "rs_inv rs"
  shows "rs_inv rs'"
  using assms
proof (induction r rs arbitrary: rs' rule: rs_remove.induct)
  case (2 r c cs)
  show ?case
  proof (cases "br_start c \<le> br_start r \<and> br_end r \<le> br_end c")
    case True
    then have "rs' = (if br_start c < br_start r
                  then [\<lparr>br_start = br_start c, br_end = br_start r\<rparr>] else []) @
                 (if br_end r < br_end c
                  then [\<lparr>br_start = br_end r, br_end = br_end c\<rparr>] else []) @ cs"
      using 2(2) by simp
    then show ?thesis using True 2(3,4) by (fastforce simp: rs_inv_Cons br_ok_def)
  next
    case False
    then obtain cs' where cs': "rs_remove r cs = Some cs'" "rs' = c # cs'"
      using 2(2) by auto
    have c: "br_ok c" "\<forall>d \<in> set cs. br_end c < br_start d" "rs_inv cs"
      using 2(4) by (auto simp: rs_inv_Cons)
    have "\<forall>d \<in> set cs'. br_end c < br_start d"
      using cs'(1) c(2) 2(3) by (rule rs_remove_lower)
    then show ?thesis using 2(1) [OF False cs'(1) 2(3) c(3)] c(1) cs'(2) by (simp add: rs_inv_Cons)
  qed
qed simp

lemma rs_bytes_lower:
  "rs_inv rs \<Longrightarrow> \<forall>c \<in> set rs. x < br_start c \<Longrightarrow> b \<in> rs_bytes rs \<Longrightarrow> x < b"
  by (auto simp: rs_bytes_def br_bytes_def intro: less_le_trans)

lemma rs_remove_subset:
  assumes "rs_remove r rs = Some rs'" "br_ok r"
  shows "br_bytes r \<subseteq> rs_bytes rs"
  using assms
  by (induction r rs arbitrary: rs' rule: rs_remove.induct)
    (auto simp: br_bytes_def split: if_splits)

lemma rs_remove_bytes:
  assumes "rs_remove r rs = Some rs'" "br_ok r" "rs_inv rs"
  shows "rs_bytes rs' = rs_bytes rs - br_bytes r"
  using assms
proof (induction r rs arbitrary: rs' rule: rs_remove.induct)
  case (2 r c cs)
  have c: "br_ok c" "\<forall>d \<in> set cs. br_end c < br_start d" "rs_inv cs"
    using 2(4) by (auto simp: rs_inv_Cons)
  have low: "\<And>b. b \<in> rs_bytes cs \<Longrightarrow> br_end c < b"
    using rs_bytes_lower [OF c(3,2)] .
  show ?case
  proof (cases "br_start c \<le> br_start r \<and> br_end r \<le> br_end c")
    case True
    have "br_bytes r \<inter> rs_bytes cs = {}" using True low by (force simp: br_bytes_def)
    moreover have "rs' = (if br_start c < br_start r
                  then [\<lparr>br_start = br_start c, br_end = br_start r\<rparr>] else []) @
                 (if br_end r < br_end c
                  then [\<lparr>br_start = br_end r, br_end = br_end c\<rparr>] else []) @ cs"
      using True 2(2) by simp
    moreover have "br_start r < br_end r" using 2(3) by (simp add: br_ok_def)
    ultimately show ?thesis using True by (auto simp: br_bytes_def)
  next
    case False
    then obtain cs' where cs': "rs_remove r cs = Some cs'" "rs' = c # cs'"
      using 2(2) by auto
    have "br_bytes r \<subseteq> rs_bytes cs" using rs_remove_subset [OF cs'(1) 2(3)] .
    then have "br_bytes r \<inter> br_bytes c = {}" using low by (force simp: br_bytes_def)
    then show ?thesis using 2(1) [OF False cs'(1) 2(3) c(3)] cs'(2) by auto
  qed
qed simp

text \<open>Removal succeeds whenever the whole range is still missing.\<close>

lemma rs_remove_defined:
  assumes "rs_inv rs" "br_ok r" "br_bytes r \<subseteq> rs_bytes rs"
  shows "\<exists>rs'. rs_remove r rs = Some rs'"
  using assms
proof (induction r rs rule: rs_remove.induct)
  case (1 r)
  then show ?case by (simp add: br_bytes_empty)
next
  case (2 r c cs)
  have c: "br_ok c" "\<forall>d \<in> set cs. br_end c < br_start d" "rs_inv cs"
    using 2(2) by (auto simp: rs_inv_Cons)
  have low: "\<And>b. b \<in> rs_bytes cs \<Longrightarrow> br_end c < b"
    using rs_bytes_lower [OF c(3,2)] .
  have r: "br_start r < br_end r" using 2(3) by (simp add: br_ok_def)
  show ?case
  proof (cases "br_start c \<le> br_start r \<and> br_end r \<le> br_end c")
    case True
    then show ?thesis by simp
  next
    case False
    have gap: "br_end c \<notin> br_bytes r"
      using 2(4) low by (force simp: br_bytes_def)
    have "br_start r \<in> br_bytes c \<union> rs_bytes cs" using 2(4) r by (auto simp: br_bytes_def)
    then have "br_bytes r \<subseteq> rs_bytes cs"
    proof
      assume "br_start r \<in> br_bytes c"
      then have "br_end r \<le> br_end c" "br_start c \<le> br_start r"
        using gap by (auto simp: br_bytes_def)
      then show ?thesis using False by simp
    next
      assume "br_start r \<in> rs_bytes cs"
      then have "br_end c < br_start r" by (rule low)
      then have "br_bytes r \<inter> br_bytes c = {}" by (auto simp: br_bytes_def)
      then show ?thesis using 2(4) by auto
    qed
    then show ?thesis using 2(1) [OF False c(3) 2(3)] False by auto
  qed
qed

section \<open>The contract\<close>

locale byte_range_set =
  fixes bytes :: "'s \<Rightarrow> nat set"
    and inv :: "'s \<Rightarrow> bool"
    and ins :: "byte_range \<Rightarrow> 's \<Rightarrow> 's"
    and rem :: "byte_range \<Rightarrow> 's \<Rightarrow> 's option"
  assumes ins_bytes: "br_ok r \<Longrightarrow> inv s \<Longrightarrow> bytes (ins r s) = br_bytes r \<union> bytes s"
    and ins_inv: "br_ok r \<Longrightarrow> inv s \<Longrightarrow> inv (ins r s)"
    and rem_bytes: "br_ok r \<Longrightarrow> inv s \<Longrightarrow> rem r s = Some s' \<Longrightarrow> bytes s' = bytes s - br_bytes r"
    and rem_inv: "br_ok r \<Longrightarrow> inv s \<Longrightarrow> rem r s = Some s' \<Longrightarrow> inv s'"
    and rem_iff: "br_ok r \<Longrightarrow> inv s \<Longrightarrow> rem r s \<noteq> None \<longleftrightarrow> br_bytes r \<subseteq> bytes s"
begin

lemma rem_subset: "br_ok r \<Longrightarrow> inv s \<Longrightarrow> rem r s = Some s' \<Longrightarrow> br_bytes r \<subseteq> bytes s"
  using rem_iff by auto

text \<open>Taking a range out and putting it back restores the byte set.\<close>

lemma rem_ins_bytes:
  assumes "br_ok r" "inv s" "rem r s = Some s'"
  shows "bytes (ins r s') = bytes s"
  using assms rem_subset [OF assms] by (auto simp: ins_bytes rem_bytes rem_inv)

text \<open>A range that was taken out cannot be taken out again.\<close>

lemma rem_twice:
  assumes "br_ok r" "inv s" "rem r s = Some s'"
  shows "rem r s' = None"
proof (rule ccontr)
  assume "rem r s' \<noteq> None"
  then have "br_bytes r \<subseteq> bytes s'" using assms rem_iff rem_inv by blast
  then have "br_bytes r = {}" using rem_bytes [OF assms] by auto
  then show False using assms(1) by (simp add: br_bytes_empty)
qed

end

interpretation rset: byte_range_set rs_bytes rs_inv rs_insert rs_remove
proof
  fix r s
  assume "br_ok r" "rs_inv s"
  then show "(rs_remove r s \<noteq> None) = (br_bytes r \<subseteq> rs_bytes s)"
    using rs_remove_defined [of s r] rs_remove_subset [of r s] by blast
qed (use rs_insert_bytes rs_insert_inv rs_remove_bytes rs_remove_inv in blast)+

end
