(* ===== verification/Piece_Lease.thy ===== *)
theory Piece_Lease
  imports Range_Set
begin

text \<open>
  Leases on parts of one piece: \<open>LeaseKey\<close> and \<open>Segment\<close> of
  \<open>src/storage/segment.rs\<close> and \<open>PieceRuntimeState\<close> of \<open>src/scheduler.rs\<close>.
  The runtime state of a piece keeps the byte ranges that nobody works on and
  the ranges that are leased to a worker.  Every other byte of the piece has been
  acknowledged by the writer; the theory shows how each operation moves bytes
  between these three classes.
\<close>

section \<open>Model\<close>

datatype lease_key = LeaseKey (lk_piece_id: nat) (lk_lease_id: nat)

text \<open>The derived \<open>Ord\<close> of the source: lexicographic on the fields.\<close>

instantiation lease_key :: linorder
begin

definition less_lease_key :: "lease_key \<Rightarrow> lease_key \<Rightarrow> bool" where
  "less_lease_key a b \<longleftrightarrow> lk_piece_id a < lk_piece_id b \<or>
     lk_piece_id a = lk_piece_id b \<and> lk_lease_id a < lk_lease_id b"

definition less_eq_lease_key :: "lease_key \<Rightarrow> lease_key \<Rightarrow> bool" where
  "less_eq_lease_key a b \<longleftrightarrow> lk_piece_id a < lk_piece_id b \<or>
     lk_piece_id a = lk_piece_id b \<and> lk_lease_id a \<le> lk_lease_id b"

instance
  by standard (auto simp: less_lease_key_def less_eq_lease_key_def intro: lease_key.expand)

end

record segment =
  seg_piece_id :: nat
  seg_lease_id :: nat
  seg_start :: nat
  seg_end :: nat
  owner_worker_id :: nat
  attempt :: nat

definition seg_lease_key :: "segment \<Rightarrow> lease_key" where
  "seg_lease_key seg = LeaseKey (seg_piece_id seg) (seg_lease_id seg)"

record active_lease =
  al_range :: byte_range

record piece_state =
  missing_ranges :: range_set
  has_completed_ranges :: bool
  active_leases :: "(nat, active_lease) btree"
  attempt_counter :: nat

definition ps_new :: "byte_range \<Rightarrow> piece_state" where
  "ps_new full_range =
     \<lparr>missing_ranges = rs_new_full (br_start full_range) (br_end full_range),
      has_completed_ranges = False, active_leases = [], attempt_counter = 0\<rparr>"

definition next_assignable_range :: "piece_state \<Rightarrow> byte_range option" where
  "next_assignable_range p = rs_first (missing_ranges p)"

definition missing_range_count :: "piece_state \<Rightarrow> nat" where
  "missing_range_count p = length (missing_ranges p)"

definition ps_issue_lease ::
  "piece_state \<Rightarrow> byte_range \<Rightarrow> nat \<Rightarrow> nat \<Rightarrow> nat \<Rightarrow> (segment \<times> piece_state \<times> nat) option" where
  "ps_issue_lease p rng worker_id next_lease_id piece_id =
     (case rs_remove rng (missing_ranges p) of
        None \<Rightarrow> None
      | Some rest \<Rightarrow>
          let lease_id = next_lease_id;
              att = sat_add_u32 (attempt_counter p) 1
          in Some (\<lparr>seg_piece_id = piece_id, seg_lease_id = lease_id,
                    seg_start = br_start rng, seg_end = br_end rng,
                    owner_worker_id = worker_id, attempt = att\<rparr>,
                   p\<lparr>missing_ranges := rest, attempt_counter := att,
                     active_leases := bt_insert lease_id \<lparr>al_range = rng\<rparr> (active_leases p)\<rparr>,
                   sat_add_u64 next_lease_id 1))"

definition ps_renew ::
  "piece_state \<Rightarrow> lease_key \<Rightarrow> nat \<Rightarrow> nat \<Rightarrow> nat \<Rightarrow> (segment \<times> piece_state \<times> nat) option" where
  "ps_renew p key worker_id next_lease_id piece_id =
     (case bt_get (active_leases p) (lk_lease_id key) of
        None \<Rightarrow> None
      | Some previous \<Rightarrow>
          let lease_id = next_lease_id;
              att = sat_add_u32 (attempt_counter p) 1
          in Some (\<lparr>seg_piece_id = piece_id, seg_lease_id = lease_id,
                    seg_start = br_start (al_range previous),
                    seg_end = br_end (al_range previous),
                    owner_worker_id = worker_id, attempt = att\<rparr>,
                   p\<lparr>attempt_counter := att,
                     active_leases := bt_insert lease_id \<lparr>al_range = al_range previous\<rparr>
                                        (bt_remove (lk_lease_id key) (active_leases p))\<rparr>,
                   sat_add_u64 next_lease_id 1))"

definition ps_complete :: "piece_state \<Rightarrow> lease_key \<Rightarrow> (bool \<times> piece_state) option" where
  "ps_complete p key =
     (case bt_get (active_leases p) (lk_lease_id key) of
        None \<Rightarrow> None
      | Some _ \<Rightarrow>
          let p' = p\<lparr>active_leases := bt_remove (lk_lease_id key) (active_leases p),
                     has_completed_ranges := True\<rparr>
          in Some (missing_ranges p' = [] \<and> active_leases p' = [], p'))"

definition ps_reclaim :: "piece_state \<Rightarrow> lease_key \<Rightarrow> piece_state option" where
  "ps_reclaim p key =
     (case bt_get (active_leases p) (lk_lease_id key) of
        None \<Rightarrow> None
      | Some lease \<Rightarrow>
          Some (p\<lparr>active_leases := bt_remove (lk_lease_id key) (active_leases p),
                  missing_ranges := rs_insert (al_range lease) (missing_ranges p)\<rparr>))"

text \<open>The piece-level part of \<open>SchedulerState::retain_prefix\<close>: the lease keeps its
  identity and its range loses the confirmed prefix.\<close>

definition ps_retain_prefix :: "piece_state \<Rightarrow> lease_key \<Rightarrow> nat \<Rightarrow> piece_state option" where
  "ps_retain_prefix p key confirmed_end =
     (case bt_get (active_leases p) (lk_lease_id key) of
        None \<Rightarrow> None
      | Some active \<Rightarrow>
          if confirmed_end \<le> br_start (al_range active) \<or> br_end (al_range active) \<le> confirmed_end
          then None
          else Some (p\<lparr>active_leases :=
                         bt_insert (lk_lease_id key)
                           (active\<lparr>al_range := (al_range active)\<lparr>br_start := confirmed_end\<rparr>\<rparr>)
                           (active_leases p),
                       has_completed_ranges := True\<rparr>))"

section \<open>Invariant\<close>

definition lease_of :: "piece_state \<Rightarrow> nat \<Rightarrow> byte_range option" where
  "lease_of p lid = map_option al_range (bt_get (active_leases p) lid)"

definition free_bytes :: "piece_state \<Rightarrow> nat set" where
  "free_bytes p = rs_bytes (missing_ranges p)"

definition leased_bytes :: "piece_state \<Rightarrow> nat set" where
  "leased_bytes p = (\<Union>lid. case lease_of p lid of None \<Rightarrow> {} | Some r \<Rightarrow> br_bytes r)"

definition ps_wf :: "piece_state \<Rightarrow> bool" where
  "ps_wf p \<longleftrightarrow> rs_inv (missing_ranges p) \<and> bt_inv (active_leases p)"

text \<open>\<open>region\<close> is the byte set of the piece and \<open>bound\<close> the next lease id of the
  scheduler.\<close>

definition leases_ok :: "nat set \<Rightarrow> nat \<Rightarrow> nat set \<Rightarrow> (nat \<Rightarrow> byte_range option) \<Rightarrow> bool" where
  "leases_ok region bound free leases \<longleftrightarrow>
     free \<subseteq> region \<and>
     (\<forall>lid r. leases lid = Some r \<longrightarrow>
        br_ok r \<and> br_bytes r \<subseteq> region \<and> lid < bound \<and> br_bytes r \<inter> free = {}) \<and>
     (\<forall>l1 l2 r1 r2. leases l1 = Some r1 \<longrightarrow> leases l2 = Some r2 \<longrightarrow> l1 \<noteq> l2 \<longrightarrow>
        br_bytes r1 \<inter> br_bytes r2 = {})"

definition ps_inv :: "nat set \<Rightarrow> nat \<Rightarrow> piece_state \<Rightarrow> bool" where
  "ps_inv region bound p \<longleftrightarrow>
     ps_wf p \<and> leases_ok region bound (free_bytes p) (lease_of p) \<and>
     (\<not> has_completed_ranges p \<longrightarrow> free_bytes p \<union> leased_bytes p = region)"

lemma ps_invD:
  assumes "ps_inv region bound p"
  shows ps_inv_missing: "rs_inv (missing_ranges p)"
    and ps_inv_active: "bt_inv (active_leases p)"
    and ps_inv_leases: "leases_ok region bound (free_bytes p) (lease_of p)"
    and ps_inv_fresh: "\<not> has_completed_ranges p \<Longrightarrow> free_bytes p \<union> leased_bytes p = region"
  using assms unfolding ps_inv_def ps_wf_def by blast+

lemma leases_okD:
  assumes "leases_ok region bound free leases"
  shows "free \<subseteq> region"
    and "leases lid = Some r \<Longrightarrow> br_ok r"
    and "leases lid = Some r \<Longrightarrow> br_bytes r \<subseteq> region"
    and "leases lid = Some r \<Longrightarrow> lid < bound"
    and "leases lid = Some r \<Longrightarrow> br_bytes r \<inter> free = {}"
    and "leases l1 = Some r1 \<Longrightarrow> leases l2 = Some r2 \<Longrightarrow> l1 \<noteq> l2 \<Longrightarrow> br_bytes r1 \<inter> br_bytes r2 = {}"
  using assms unfolding leases_ok_def by blast+

lemma leases_ok_mono: "leases_ok region b free leases \<Longrightarrow> b \<le> b' \<Longrightarrow> leases_ok region b' free leases"
  unfolding leases_ok_def by (meson less_le_trans)

lemma ps_inv_mono: "ps_inv region b p \<Longrightarrow> b \<le> b' \<Longrightarrow> ps_inv region b' p"
  unfolding ps_inv_def using leases_ok_mono by blast

lemma leases_ok_issue:
  assumes "leases_ok region bound free leases" "br_ok r" "br_bytes r \<subseteq> free" "bound < b'"
  shows "leases_ok region b' (free - br_bytes r) (leases(bound \<mapsto> r))"
  unfolding leases_ok_def
proof (intro conjI allI impI)
  note D = leases_okD [OF assms(1)]
  show "free - br_bytes r \<subseteq> region" using D(1) by blast
  fix l1 r1 assume l1: "(leases(bound \<mapsto> r)) l1 = Some r1"
  show "br_ok r1" "br_bytes r1 \<subseteq> region" "br_bytes r1 \<inter> (free - br_bytes r) = {}"
    using l1 D(1) D(2,3,5) [of l1 r1] assms(2,3) by (auto split: if_splits)
  show "l1 < b'" using l1 D(4) [of l1 r1] assms(4) by (auto split: if_splits)
  fix l2 r2 assume "(leases(bound \<mapsto> r)) l2 = Some r2" "l1 \<noteq> l2"
  then show "br_bytes r1 \<inter> br_bytes r2 = {}"
    using l1 assms(3) D(5) [of l1 r1] D(5) [of l2 r2] D(6) [of l1 r1 l2 r2]
    by (auto split: if_splits)
qed

lemma leases_ok_drop:
  assumes "leases_ok region bound free leases" "leases lid = Some r"
    "free' \<subseteq> free \<union> br_bytes r"
  shows "leases_ok region bound free' (leases(lid := None))"
  unfolding leases_ok_def
proof (intro conjI allI impI)
  note D = leases_okD [OF assms(1)]
  show "free' \<subseteq> region" using D(1) D(3) [OF assms(2)] assms(3) by blast
  fix l1 r1 assume l1: "(leases(lid := None)) l1 = Some r1"
  show "br_ok r1" "br_bytes r1 \<subseteq> region" "l1 < bound" "br_bytes r1 \<inter> free' = {}"
    using l1 D(2-5) [of l1 r1] D(6) [of l1 r1 lid r] assms(2,3) by (auto split: if_splits)
  fix l2 r2 assume "(leases(lid := None)) l2 = Some r2" "l1 \<noteq> l2"
  then show "br_bytes r1 \<inter> br_bytes r2 = {}"
    using l1 D(6) [of l1 r1 l2 r2] by (auto split: if_splits)
qed

lemma leases_ok_shrink:
  assumes "leases_ok region bound free leases" "leases lid = Some r" "br_ok r'"
    "br_bytes r' \<subseteq> br_bytes r"
  shows "leases_ok region bound free (leases(lid \<mapsto> r'))"
  unfolding leases_ok_def
proof (intro conjI allI impI)
  note D = leases_okD [OF assms(1)]
  show "free \<subseteq> region" by (rule D(1))
  fix l1 r1 assume l1: "(leases(lid \<mapsto> r')) l1 = Some r1"
  show "br_ok r1" "br_bytes r1 \<subseteq> region" "l1 < bound" "br_bytes r1 \<inter> free = {}"
    using l1 D(2-5) [of l1] D(3-5) [OF assms(2)] assms(3,4) by (auto split: if_splits)
  fix l2 r2 assume "(leases(lid \<mapsto> r')) l2 = Some r2" "l1 \<noteq> l2"
  then show "br_bytes r1 \<inter> br_bytes r2 = {}"
    using l1 D(6) [of l1 r1 l2 r2] D(6) [of lid r l2 r2] D(6) [of l1 r1 lid r] assms(2,4)
    by (auto split: if_splits)
qed

lemma leased_bytes_iff: "b \<in> leased_bytes p \<longleftrightarrow> (\<exists>lid r. lease_of p lid = Some r \<and> b \<in> br_bytes r)"
  unfolding leased_bytes_def by (auto split: option.splits)

lemma free_empty_iff: "ps_inv region bound p \<Longrightarrow> free_bytes p = {} \<longleftrightarrow> missing_ranges p = []"
  unfolding free_bytes_def by (rule rs_inv_bytes_empty) (rule ps_inv_missing)

lemma lease_of_Nil_iff: "(\<forall>lid. lease_of p lid = None) \<longleftrightarrow> active_leases p = []"
  by (simp add: lease_of_def bt_get_Nil_iff)

lemma leased_empty_iff: "ps_inv region bound p \<Longrightarrow> leased_bytes p = {} \<longleftrightarrow> active_leases p = []"
proof -
  assume inv: "ps_inv region bound p"
  have "\<And>lid r. lease_of p lid = Some r \<Longrightarrow> br_bytes r \<noteq> {}"
    using leases_okD(2) [OF ps_inv_leases [OF inv]] by (simp add: br_bytes_empty)
  then have "leased_bytes p = {} \<longleftrightarrow> (\<forall>lid. lease_of p lid = None)"
    using leased_bytes_iff by (metis equals0D equals0I option.exhaust option.distinct(1))
  then show ?thesis by (simp add: lease_of_Nil_iff)
qed

lemma ps_inv_new:
  assumes "s < e"
  shows "ps_inv {s..<e} bound (ps_new \<lparr>br_start = s, br_end = e\<rparr>)"
  by (simp add: ps_inv_def ps_wf_def ps_new_def leases_ok_def lease_of_def free_bytes_def
      leased_bytes_def)

lemma ps_new_simps [simp]:
  "active_leases (ps_new r) = []" "lease_of (ps_new r) lid = None" "leased_bytes (ps_new r) = {}"
  "\<not> has_completed_ranges (ps_new r)" "attempt_counter (ps_new r) = 0"
  "free_bytes (ps_new r) = br_bytes r" "missing_ranges (ps_new r) = rs_new_full (br_start r) (br_end r)"
  by (simp_all add: ps_new_def lease_of_def leased_bytes_def free_bytes_def br_bytes_def)


section \<open>What the operations do\<close>

definition lease_union :: "(nat \<Rightarrow> byte_range option) \<Rightarrow> nat set" where
  "lease_union f = {b. \<exists>lid r. f lid = Some r \<and> b \<in> br_bytes r}"

lemma leased_bytes_union: "leased_bytes p = lease_union (lease_of p)"
  by (simp add: leased_bytes_iff lease_union_def set_eq_iff)

lemma lease_union_del:
  assumes "f lid = Some r"
  shows "lease_union f = lease_union (f(lid := None)) \<union> br_bytes r"
proof (intro set_eqI iffI)
  fix b assume "b \<in> lease_union f"
  then obtain l r' where l: "f l = Some r'" "b \<in> br_bytes r'" by (auto simp: lease_union_def)
  show "b \<in> lease_union (f(lid := None)) \<union> br_bytes r"
  proof (cases "l = lid")
    case False
    then have "(f(lid := None)) l = Some r'" using l by simp
    then show ?thesis using l unfolding lease_union_def by blast
  qed (use l assms in simp)
next
  fix b assume "b \<in> lease_union (f(lid := None)) \<union> br_bytes r"
  then show "b \<in> lease_union f"
    using assms unfolding lease_union_def by (auto split: if_splits)
qed

lemma lease_union_upd: "f lid = None \<Longrightarrow> lease_union (f(lid \<mapsto> r)) = lease_union f \<union> br_bytes r"
  using lease_union_del [of "f(lid \<mapsto> r)" lid r] by (simp add: fun_upd_idem)

lemma lease_of_bound: "ps_inv region bound p \<Longrightarrow> bound \<le> lid \<Longrightarrow> lease_of p lid = None"
  using leases_okD(4) [OF ps_inv_leases, of region bound p lid] by (cases "lease_of p lid") auto

lemma lease_of_Some:
  "lease_of p lid = Some r \<Longrightarrow> \<exists>a. bt_get (active_leases p) lid = Some a \<and> al_range a = r"
  by (auto simp: lease_of_def)

lemma lease_of_None: "lease_of p lid = None \<longleftrightarrow> bt_get (active_leases p) lid = None"
  by (simp add: lease_of_def)

lemma ps_issue_None:
  assumes "ps_inv region nid p" "br_ok r"
  shows "ps_issue_lease p r w nid pid = None \<longleftrightarrow> \<not> br_bytes r \<subseteq> free_bytes p"
  using rset.rem_iff [OF assms(2) ps_inv_missing [OF assms(1)]]
  by (auto simp: ps_issue_lease_def free_bytes_def Let_def split: option.splits)

lemma ps_issue_Some:
  assumes inv: "ps_inv region nid p" and ok: "br_ok r" and room: "nid < u64_max"
    and issue: "ps_issue_lease p r w nid pid = Some (seg, p', nid')"
  shows "nid' = Suc nid"
    and "seg_piece_id seg = pid" "seg_lease_id seg = nid"
      "seg_start seg = br_start r" "seg_end seg = br_end r" "owner_worker_id seg = w"
      "attempt seg = sat_add_u32 (attempt_counter p) 1"
    and "br_bytes r \<subseteq> free_bytes p"
    and "free_bytes p' = free_bytes p - br_bytes r"
    and "lease_of p' = (lease_of p)(nid \<mapsto> r)"
    and "length (active_leases p') = Suc (length (active_leases p))"
    and "ps_inv region nid' p'"
    and "has_completed_ranges p' = has_completed_ranges p"
    and "active_leases p' \<noteq> []"
proof -
  obtain rest where rest: "rs_remove r (missing_ranges p) = Some rest"
    using issue by (auto simp: ps_issue_lease_def split: option.splits)
  have p': "p' = p\<lparr>missing_ranges := rest, attempt_counter := sat_add_u32 (attempt_counter p) 1,
      active_leases := bt_insert nid \<lparr>al_range = r\<rparr> (active_leases p)\<rparr>"
    and nid': "nid' = sat_add_u64 nid 1"
    using issue rest by (simp_all add: ps_issue_lease_def Let_def)
  note mi = ps_inv_missing [OF inv] and ai = ps_inv_active [OF inv]
  have fresh: "lease_of p nid = None" using inv by (rule lease_of_bound) simp
  show n: "nid' = Suc nid" using room by (simp add: nid' sat_add_u64_def)
  show "seg_piece_id seg = pid" "seg_lease_id seg = nid"
      "seg_start seg = br_start r" "seg_end seg = br_end r" "owner_worker_id seg = w"
      "attempt seg = sat_add_u32 (attempt_counter p) 1"
    using issue rest by (auto simp add: ps_issue_lease_def Let_def)
  show sub: "br_bytes r \<subseteq> free_bytes p"
    using rset.rem_subset [OF ok mi rest] by (simp add: free_bytes_def)
  show free: "free_bytes p' = free_bytes p - br_bytes r"
    using rset.rem_bytes [OF ok mi rest] by (simp add: p' free_bytes_def)
  show leases: "lease_of p' = (lease_of p)(nid \<mapsto> r)"
    by (auto simp: p' lease_of_def fun_eq_iff)
  show "length (active_leases p') = Suc (length (active_leases p))"
    using fresh ai by (simp add: p' bt_length_insert lease_of_None)
  have "leases_ok region nid' (free_bytes p') (lease_of p')"
    unfolding free leases using ps_inv_leases [OF inv] ok sub
    by (rule leases_ok_issue) (simp add: n)
  moreover have "free_bytes p' \<union> leased_bytes p' = free_bytes p \<union> leased_bytes p"
    using free sub fresh by (auto simp: leased_bytes_union leases lease_union_upd)
  ultimately show "ps_inv region nid' p'"
    using inv rset.rem_inv [OF ok mi rest] ai by (simp add: ps_inv_def ps_wf_def p')
  show "has_completed_ranges p' = has_completed_ranges p" "active_leases p' \<noteq> []"
    by (simp_all add: p')
qed

lemma ps_renew_Some:
  assumes inv: "ps_inv region nid p" and room: "nid < u64_max"
    and renew: "ps_renew p key w nid pid = Some (seg, p', nid')"
  shows "nid' = Suc nid"
    and "seg_piece_id seg = pid" "seg_lease_id seg = nid" "owner_worker_id seg = w"
    and "\<exists>r. lease_of p (lk_lease_id key) = Some r \<and> seg_start seg = br_start r \<and>
           seg_end seg = br_end r \<and> lease_of p' = (lease_of p)(lk_lease_id key := None, nid \<mapsto> r)"
    and "free_bytes p' = free_bytes p" "missing_ranges p' = missing_ranges p"
    and "length (active_leases p') = length (active_leases p)"
    and "ps_inv region nid' p'"
proof -
  obtain a where a: "bt_get (active_leases p) (lk_lease_id key) = Some a"
    using renew by (auto simp: ps_renew_def split: option.splits)
  let ?r = "al_range a" and ?k = "lk_lease_id key"
  have p': "p' = p\<lparr>attempt_counter := sat_add_u32 (attempt_counter p) 1,
      active_leases := bt_insert nid \<lparr>al_range = ?r\<rparr> (bt_remove ?k (active_leases p))\<rparr>"
    and nid': "nid' = sat_add_u64 nid 1"
    using renew a by (simp_all add: ps_renew_def Let_def)
  note ai = ps_inv_active [OF inv]
  have fresh: "lease_of p nid = None" using inv by (rule lease_of_bound) simp
  have lk: "lease_of p ?k = Some ?r" using a by (simp add: lease_of_def)
  show n: "nid' = Suc nid" using room by (simp add: nid' sat_add_u64_def)
  show "seg_piece_id seg = pid" "seg_lease_id seg = nid" "owner_worker_id seg = w"
    using renew a by (auto simp add: ps_renew_def Let_def)
  have leases: "lease_of p' = (lease_of p)(?k := None, nid \<mapsto> ?r)"
    by (auto simp: p' lease_of_def fun_eq_iff)
  show "\<exists>r. lease_of p ?k = Some r \<and> seg_start seg = br_start r \<and>
           seg_end seg = br_end r \<and> lease_of p' = (lease_of p)(?k := None, nid \<mapsto> r)"
    using renew a lk leases by (auto simp add: ps_renew_def Let_def)
  show free: "free_bytes p' = free_bytes p" "missing_ranges p' = missing_ranges p"
    by (simp_all add: p' free_bytes_def)
  have ne: "active_leases p \<noteq> []" using a by auto
  have "bt_get (bt_remove ?k (active_leases p)) nid = None"
    using fresh by (simp add: lease_of_None)
  then show "length (active_leases p') = length (active_leases p)"
    using a ai ne by (simp add: p' bt_length_insert bt_length_remove)
  have L: "leases_ok region nid (free_bytes p) (lease_of p)" by (rule ps_inv_leases [OF inv])
  have "leases_ok region nid (free_bytes p \<union> br_bytes ?r) ((lease_of p)(?k := None))"
    using L lk by (rule leases_ok_drop) simp
  then have "leases_ok region nid' (free_bytes p \<union> br_bytes ?r - br_bytes ?r)
      (((lease_of p)(?k := None))(nid \<mapsto> ?r))"
    by (rule leases_ok_issue) (use leases_okD(2) [OF L lk] n in auto)
  moreover have "free_bytes p \<union> br_bytes ?r - br_bytes ?r = free_bytes p"
    using leases_okD(5) [OF L lk] by blast
  ultimately have ok: "leases_ok region nid' (free_bytes p') (lease_of p')"
    unfolding free leases by simp
  have kn: "?k \<noteq> nid" using lk fresh by auto
  have "leased_bytes p' = leased_bytes p"
    using lk fresh kn lease_union_del [of "lease_of p" ?k ?r]
    by (simp add: leased_bytes_union leases lease_union_upd)
  then show "ps_inv region nid' p'"
    using inv ai ok free by (simp add: ps_inv_def ps_wf_def p')
qed

lemma ps_renew_None:
  "ps_renew p key w nid pid = None \<longleftrightarrow> lease_of p (lk_lease_id key) = None"
  by (simp add: ps_renew_def lease_of_None Let_def split: option.splits)

lemma ps_complete_None: "ps_complete p key = None \<longleftrightarrow> lease_of p (lk_lease_id key) = None"
  by (simp add: ps_complete_def lease_of_None Let_def split: option.splits)

lemma ps_reclaim_None: "ps_reclaim p key = None \<longleftrightarrow> lease_of p (lk_lease_id key) = None"
  by (simp add: ps_reclaim_def lease_of_None split: option.splits)

lemma ps_complete_Some:
  assumes inv: "ps_inv region nid p" and complete: "ps_complete p key = Some (whole, p')"
  shows "\<exists>r. lease_of p (lk_lease_id key) = Some r"
    and "lease_of p' = (lease_of p)(lk_lease_id key := None)"
    and "missing_ranges p' = missing_ranges p" "free_bytes p' = free_bytes p"
    and "length (active_leases p') = length (active_leases p) - 1" "active_leases p \<noteq> []"
    and "ps_inv region nid p'"
    and "whole \<longleftrightarrow> missing_ranges p' = [] \<and> active_leases p' = []"
proof -
  let ?k = "lk_lease_id key"
  obtain a where a: "bt_get (active_leases p) ?k = Some a"
    using complete by (auto simp: ps_complete_def split: option.splits)
  have p': "p' = p\<lparr>active_leases := bt_remove ?k (active_leases p), has_completed_ranges := True\<rparr>"
    using complete a by (simp add: ps_complete_def Let_def)
  have lk: "lease_of p ?k = Some (al_range a)" using a by (simp add: lease_of_def)
  show "\<exists>r. lease_of p ?k = Some r" using lk by blast
  show leases: "lease_of p' = (lease_of p)(?k := None)" by (auto simp: p' lease_of_def fun_eq_iff)
  show m: "missing_ranges p' = missing_ranges p" and f: "free_bytes p' = free_bytes p"
    by (simp_all add: p' free_bytes_def)
  show "length (active_leases p') = length (active_leases p) - 1"
    using a ps_inv_active [OF inv] by (simp add: p' bt_length_remove)
  show "active_leases p \<noteq> []" using a by auto
  have "leases_ok region nid (free_bytes p') (lease_of p')"
    unfolding f leases using ps_inv_leases [OF inv] lk by (rule leases_ok_drop) simp
  then show "ps_inv region nid p'" using inv by (simp add: ps_inv_def ps_wf_def p')
  show "whole \<longleftrightarrow> missing_ranges p' = [] \<and> active_leases p' = []"
    using complete a by (auto simp: ps_complete_def Let_def)
qed

lemma ps_reclaim_Some:
  assumes inv: "ps_inv region nid p" and reclaim: "ps_reclaim p key = Some p'"
  shows "\<exists>r. lease_of p (lk_lease_id key) = Some r \<and> free_bytes p' = free_bytes p \<union> br_bytes r"
    and "lease_of p' = (lease_of p)(lk_lease_id key := None)"
    and "missing_ranges p' \<noteq> []"
    and "length (active_leases p') = length (active_leases p) - 1" "active_leases p \<noteq> []"
    and "ps_inv region nid p'"
proof -
  let ?k = "lk_lease_id key"
  obtain a where a: "bt_get (active_leases p) ?k = Some a"
    using reclaim by (auto simp: ps_reclaim_def split: option.splits)
  let ?r = "al_range a"
  have p': "p' = p\<lparr>active_leases := bt_remove ?k (active_leases p),
      missing_ranges := rs_insert ?r (missing_ranges p)\<rparr>"
    using reclaim a by (simp add: ps_reclaim_def)
  have lk: "lease_of p ?k = Some ?r" using a by (simp add: lease_of_def)
  note L = ps_inv_leases [OF inv] and mi = ps_inv_missing [OF inv]
  have ok: "br_ok ?r" using leases_okD(2) [OF L lk] .
  have f: "free_bytes p' = free_bytes p \<union> br_bytes ?r"
    using rset.ins_bytes [OF ok mi] by (auto simp: p' free_bytes_def)
  then show "\<exists>r. lease_of p ?k = Some r \<and> free_bytes p' = free_bytes p \<union> br_bytes r"
    using lk by blast
  show leases: "lease_of p' = (lease_of p)(?k := None)" by (auto simp: p' lease_of_def fun_eq_iff)
  show "missing_ranges p' \<noteq> []" by (simp add: p')
  show "length (active_leases p') = length (active_leases p) - 1"
    using a ps_inv_active [OF inv] by (simp add: p' bt_length_remove)
  show "active_leases p \<noteq> []" using a by auto
  have lo: "leases_ok region nid (free_bytes p') (lease_of p')"
    unfolding f leases using L lk by (rule leases_ok_drop) simp
  have "free_bytes p' \<union> leased_bytes p' = free_bytes p \<union> leased_bytes p"
    using lease_union_del [of "lease_of p" ?k ?r] lk f by (auto simp: leased_bytes_union leases)
  then show "ps_inv region nid p'"
    using inv lo rset.ins_inv [OF ok mi] by (simp add: ps_inv_def ps_wf_def p')
qed

lemma ps_retain_Some:
  assumes inv: "ps_inv region nid p" and retain: "ps_retain_prefix p key c = Some p'"
  shows "\<exists>r. lease_of p (lk_lease_id key) = Some r \<and> br_start r < c \<and> c < br_end r \<and>
           lease_of p' = (lease_of p)(lk_lease_id key \<mapsto> r\<lparr>br_start := c\<rparr>)"
    and "missing_ranges p' = missing_ranges p" "free_bytes p' = free_bytes p"
    and "length (active_leases p') = length (active_leases p)" "active_leases p' \<noteq> []"
    and "ps_inv region nid p'"
proof -
  let ?k = "lk_lease_id key"
  obtain a where a: "bt_get (active_leases p) ?k = Some a"
    and c: "br_start (al_range a) < c" "c < br_end (al_range a)"
    using retain by (auto simp: ps_retain_prefix_def split: option.splits if_splits)
  let ?r = "al_range a"
  have p': "p' = p\<lparr>active_leases := bt_insert ?k (a\<lparr>al_range := ?r\<lparr>br_start := c\<rparr>\<rparr>) (active_leases p),
      has_completed_ranges := True\<rparr>"
    using retain a c by (simp add: ps_retain_prefix_def split: if_splits)
  have lk: "lease_of p ?k = Some ?r" using a by (simp add: lease_of_def)
  have leases: "lease_of p' = (lease_of p)(?k \<mapsto> ?r\<lparr>br_start := c\<rparr>)"
    by (auto simp: p' lease_of_def fun_eq_iff)
  then show "\<exists>r. lease_of p ?k = Some r \<and> br_start r < c \<and> c < br_end r \<and>
           lease_of p' = (lease_of p)(?k \<mapsto> r\<lparr>br_start := c\<rparr>)"
    using lk c by blast
  show "missing_ranges p' = missing_ranges p" and f: "free_bytes p' = free_bytes p"
    by (simp_all add: p' free_bytes_def)
  show "length (active_leases p') = length (active_leases p)" "active_leases p' \<noteq> []"
    using a ps_inv_active [OF inv] by (simp_all add: p' bt_length_insert)
  have "leases_ok region nid (free_bytes p') (lease_of p')"
    unfolding f leases using ps_inv_leases [OF inv] lk
    by (rule leases_ok_shrink) (use c in \<open>auto simp: br_ok_def br_bytes_def\<close>)
  then show "ps_inv region nid p'" using inv by (simp add: ps_inv_def ps_wf_def p')
qed

lemma lease_union_rest:
  assumes "leases_ok region bound free leases" "leases lid = Some r"
  shows "lease_union (leases(lid := None)) \<inter> br_bytes r = {}"
proof -
  have "br_bytes r' \<inter> br_bytes r = {}" if "(leases(lid := None)) l = Some r'" for l r'
    using leases_okD(6) [OF assms(1) _ assms(2), of l r'] that by (auto split: if_splits)
  then show ?thesis unfolding lease_union_def by blast
qed

end
