(* ===== verification/Ledger.thy ===== *)
theory Ledger
  imports Piece_Lease
begin

text \<open>
  The abstract specification of the scheduler: a ledger that accounts for every
  byte of the file.  A byte is free (nobody works on it), covered by exactly one
  lease, or acknowledged (the writer confirmed it).  The only moves are issuing,
  renewing and reclaiming a lease, which acknowledge nothing, and retaining a
  confirmed prefix or completing a lease, which acknowledge bytes of that lease.
  The theory proves on this level that no byte is ever acknowledged twice or
  leased twice; the scheduler inherits it through the locale
  \<open>ledger_refinement\<close>.
\<close>

record ledger =
  lg_free :: "nat set"
  lg_leases :: "lease_key \<Rightarrow> byte_range option"
  lg_acked :: "nat set"

inductive ledger_tau :: "ledger \<Rightarrow> ledger \<Rightarrow> bool" where
  tau_issue: "br_ok r \<Longrightarrow> br_bytes r \<subseteq> lg_free l \<Longrightarrow> lg_leases l k = None \<Longrightarrow>
    ledger_tau l (l\<lparr>lg_free := lg_free l - br_bytes r, lg_leases := (lg_leases l)(k \<mapsto> r)\<rparr>)"
| tau_renew: "lg_leases l k = Some r \<Longrightarrow> lg_leases l k' = None \<Longrightarrow>
    ledger_tau l (l\<lparr>lg_leases := (lg_leases l)(k := None, k' \<mapsto> r)\<rparr>)"
| tau_reclaim: "lg_leases l k = Some r \<Longrightarrow>
    ledger_tau l (l\<lparr>lg_free := lg_free l \<union> br_bytes r, lg_leases := (lg_leases l)(k := None)\<rparr>)"

text \<open>The label is the set of bytes the step acknowledges.\<close>

inductive ledger_ack :: "ledger \<Rightarrow> nat set \<Rightarrow> ledger \<Rightarrow> bool" where
  ack_retain: "lg_leases l k = Some r \<Longrightarrow> br_start r < c \<Longrightarrow> c < br_end r \<Longrightarrow>
    ledger_ack l {br_start r..<c}
      (l\<lparr>lg_leases := (lg_leases l)(k \<mapsto> r\<lparr>br_start := c\<rparr>),
         lg_acked := lg_acked l \<union> {br_start r..<c}\<rparr>)"
| ack_complete: "lg_leases l k = Some r \<Longrightarrow>
    ledger_ack l (br_bytes r)
      (l\<lparr>lg_leases := (lg_leases l)(k := None), lg_acked := lg_acked l \<union> br_bytes r\<rparr>)"

inductive ledger_run :: "ledger \<Rightarrow> nat set list \<Rightarrow> ledger \<Rightarrow> bool" where
  run_refl: "ledger_run l [] l"
| run_tau: "ledger_tau l l1 \<Longrightarrow> ledger_run l1 As l2 \<Longrightarrow> ledger_run l As l2"
| run_ack: "ledger_ack l A l1 \<Longrightarrow> ledger_run l1 As l2 \<Longrightarrow> ledger_run l (A # As) l2"

section \<open>The accounting invariant\<close>

definition ledger_inv :: "nat \<Rightarrow> ledger \<Rightarrow> bool" where
  "ledger_inv fsize l \<longleftrightarrow>
     (\<forall>k r. lg_leases l k = Some r \<longrightarrow>
        br_ok r \<and> br_bytes r \<inter> lg_free l = {} \<and> br_bytes r \<inter> lg_acked l = {}) \<and>
     (\<forall>k1 k2 r1 r2. lg_leases l k1 = Some r1 \<longrightarrow> lg_leases l k2 = Some r2 \<longrightarrow> k1 \<noteq> k2 \<longrightarrow>
        br_bytes r1 \<inter> br_bytes r2 = {}) \<and>
     lg_free l \<inter> lg_acked l = {} \<and>
     lg_free l \<union> {b. \<exists>k r. lg_leases l k = Some r \<and> b \<in> br_bytes r} \<union> lg_acked l = {0..<fsize}"

lemma ledger_invD:
  assumes "ledger_inv fsize l"
  shows "lg_leases l k = Some r \<Longrightarrow> br_ok r"
    and "lg_leases l k = Some r \<Longrightarrow> br_bytes r \<inter> lg_free l = {}"
    and "lg_leases l k = Some r \<Longrightarrow> br_bytes r \<inter> lg_acked l = {}"
    and "lg_leases l k1 = Some r1 \<Longrightarrow> lg_leases l k2 = Some r2 \<Longrightarrow> k1 \<noteq> k2 \<Longrightarrow>
      br_bytes r1 \<inter> br_bytes r2 = {}"
    and "lg_free l \<inter> lg_acked l = {}"
    and "lg_free l \<union> {b. \<exists>k r. lg_leases l k = Some r \<and> b \<in> br_bytes r} \<union> lg_acked l = {0..<fsize}"
  using assms unfolding ledger_inv_def by blast+

definition covered :: "(lease_key \<Rightarrow> byte_range option) \<Rightarrow> nat set" where
  "covered f = {b. \<exists>k r. f k = Some r \<and> b \<in> br_bytes r}"

lemma coveredI: "f k = Some r \<Longrightarrow> b \<in> br_bytes r \<Longrightarrow> b \<in> covered f"
  unfolding covered_def by blast

lemma covered_split: "f k = Some r \<Longrightarrow> covered f = covered (f(k := None)) \<union> br_bytes r"
proof (intro set_eqI iffI)
  fix b assume k: "f k = Some r" and "b \<in> covered f"
  then obtain k' r' where k': "f k' = Some r'" "b \<in> br_bytes r'" by (auto simp: covered_def)
  show "b \<in> covered (f(k := None)) \<union> br_bytes r"
  proof (cases "k' = k")
    case False
    then have "(f(k := None)) k' = Some r'" using k' by simp
    then show ?thesis using k' coveredI by blast
  qed (use k k' in simp)
next
  fix b assume "f k = Some r" "b \<in> covered (f(k := None)) \<union> br_bytes r"
  then show "b \<in> covered f" unfolding covered_def by (auto split: if_splits)
qed

lemma covered_upd: "f k = None \<Longrightarrow> covered (f(k \<mapsto> r)) = covered f \<union> br_bytes r"
  using covered_split [of "f(k \<mapsto> r)" k r] by (simp add: fun_upd_idem)

text \<open>A lease table whose ranges are taken from an old range or from free space
  stays disjoint; the four shapes of update share this fact.\<close>

definition table_ok :: "(lease_key \<Rightarrow> byte_range option) \<Rightarrow> bool" where
  "table_ok f \<longleftrightarrow> (\<forall>k r. f k = Some r \<longrightarrow> br_ok r) \<and>
     (\<forall>k1 k2 r1 r2. f k1 = Some r1 \<longrightarrow> f k2 = Some r2 \<longrightarrow> k1 \<noteq> k2 \<longrightarrow> br_bytes r1 \<inter> br_bytes r2 = {})"

lemma ledger_inv_alt:
  "ledger_inv fsize l \<longleftrightarrow>
     table_ok (lg_leases l) \<and> covered (lg_leases l) \<inter> lg_free l = {} \<and>
     covered (lg_leases l) \<inter> lg_acked l = {} \<and> lg_free l \<inter> lg_acked l = {} \<and>
     lg_free l \<union> covered (lg_leases l) \<union> lg_acked l = {0..<fsize}"
  unfolding ledger_inv_def table_ok_def covered_def by blast

lemma table_ok_drop: "table_ok f \<Longrightarrow> table_ok (f(k := None))"
  unfolding table_ok_def by (simp split: if_splits)

lemma table_ok_add:
  assumes "table_ok f" "f k = None" "br_ok r" "br_bytes r \<inter> covered f = {}"
  shows "table_ok (f(k \<mapsto> r))"
proof -
  have "\<And>k' r'. f k' = Some r' \<Longrightarrow> br_bytes r' \<inter> br_bytes r = {}"
    using assms(4) coveredI by blast
  then show ?thesis using assms(1,3) unfolding table_ok_def
    by (simp split: if_splits) (metis Int_commute)
qed

lemma covered_drop_disjoint:
  assumes "table_ok f" "f k = Some r"
  shows "br_bytes r \<inter> covered (f(k := None)) = {}"
proof -
  have "\<And>k' r'. k' \<noteq> k \<Longrightarrow> f k' = Some r' \<Longrightarrow> br_bytes r' \<inter> br_bytes r = {}"
    using assms unfolding table_ok_def by blast
  then show ?thesis unfolding covered_def by (auto split: if_splits)
qed

lemma ledger_invI:
  assumes "table_ok (lg_leases l)" "covered (lg_leases l) = C" "lg_free l = F" "lg_acked l = A"
    "C \<inter> F = {}" "C \<inter> A = {}" "F \<inter> A = {}" "F \<union> C \<union> A = {0..<fsize}"
  shows "ledger_inv fsize l"
  unfolding ledger_inv_alt assms(2-4) using assms(1,5-8) by (intro conjI)

lemma ledger_inv_sets:
  assumes "ledger_inv fsize l"
  shows "table_ok (lg_leases l)" "covered (lg_leases l) \<inter> lg_free l = {}"
    "covered (lg_leases l) \<inter> lg_acked l = {}" "lg_free l \<inter> lg_acked l = {}"
    "lg_free l \<union> covered (lg_leases l) \<union> lg_acked l = {0..<fsize}"
  using assms unfolding ledger_inv_alt by blast+

lemma table_ok_range: "table_ok f \<Longrightarrow> f k = Some r \<Longrightarrow> br_ok r"
  by (simp add: table_ok_def)

lemma ledger_inv_tau:
  assumes "ledger_tau l l'" "ledger_inv fsize l"
  shows "ledger_inv fsize l'"
  using assms(1)
proof cases
  note I = ledger_inv_sets [OF assms(2)]
  case issue: (tau_issue r k)
  have c: "covered (lg_leases l') = covered (lg_leases l) \<union> br_bytes r"
    using covered_upd [of "lg_leases l" k r] issue by simp
  have d: "br_bytes r \<inter> covered (lg_leases l) = {}" using I(2) issue(3) by blast
  have "table_ok (lg_leases l')"
    using table_ok_add [OF I(1) issue(4,2) d] issue(1) by simp
  then show ?thesis
    by (rule ledger_invI [OF _ c refl refl]) (use I(2-5) issue(1,3) d in auto)
next
  note I = ledger_inv_sets [OF assms(2)]
  case renew: (tau_renew k r k')
  let ?f = "(lg_leases l)(k := None)"
  have kk: "?f k' = None" using renew by simp
  have cov: "covered (lg_leases l) = covered ?f \<union> br_bytes r" using renew(2) by (rule covered_split)
  have c: "covered (lg_leases l') = covered (lg_leases l)"
    using covered_upd [of ?f k' r] kk cov renew(1) by simp
  have "table_ok (?f(k' \<mapsto> r))"
    using table_ok_add [OF table_ok_drop [OF I(1)] kk table_ok_range [OF I(1) renew(2)]]
      covered_drop_disjoint [OF I(1) renew(2)] by blast
  then have "table_ok (lg_leases l')" using renew(1) by simp
  then show ?thesis
    by (rule ledger_invI [OF _ c refl refl]) (use I(2-5) renew(1) in simp_all)
next
  note I = ledger_inv_sets [OF assms(2)]
  case reclaim: (tau_reclaim k r)
  let ?f = "(lg_leases l)(k := None)"
  have cov: "covered (lg_leases l) = covered ?f \<union> br_bytes r" using reclaim(2) by (rule covered_split)
  have d: "br_bytes r \<inter> covered ?f = {}" by (rule covered_drop_disjoint [OF I(1) reclaim(2)])
  have t: "table_ok (lg_leases l')" "covered (lg_leases l') = covered ?f"
    "lg_free l' = lg_free l \<union> br_bytes r" "lg_acked l' = lg_acked l"
    using table_ok_drop [OF I(1)] reclaim(1) by simp_all
  show ?thesis
    by (rule ledger_invI [OF t]) (use I(2-5) [unfolded cov] d in auto)
qed

lemma ledger_tau_acked: "ledger_tau l l' \<Longrightarrow> lg_acked l' = lg_acked l"
  by (cases rule: ledger_tau.cases) auto

lemma ledger_ack_range:
  assumes "ledger_ack l A l'" "ledger_inv fsize l"
  shows "lg_acked l' = lg_acked l \<union> A" "A \<noteq> {}" "A \<inter> lg_acked l = {}"
proof -
  note I = ledger_inv_sets [OF assms(2)]
  show "lg_acked l' = lg_acked l \<union> A" using assms(1) by cases auto
  obtain k r where k: "lg_leases l k = Some r" "A \<subseteq> br_bytes r" and ne: "A \<noteq> {}"
    using assms(1)
  proof cases
    case retain: (ack_retain k r c)
    then show ?thesis using that [of k r] by (auto simp: br_bytes_def)
  next
    case complete: (ack_complete k r)
    then show ?thesis using that [of k r] table_ok_range [OF I(1)] by (auto simp: br_bytes_empty)
  qed
  show "A \<noteq> {}" by (rule ne)
  have "A \<subseteq> covered (lg_leases l)" using k coveredI by blast
  then show "A \<inter> lg_acked l = {}" using I(3) by blast
qed

lemma ledger_inv_ack:
  assumes "ledger_ack l A l'" "ledger_inv fsize l"
  shows "ledger_inv fsize l'"
  using assms(1)
proof cases
  note I = ledger_inv_sets [OF assms(2)]
  case retain: (ack_retain k r c)
  let ?f = "(lg_leases l)(k := None)" and ?r = "r\<lparr>br_start := c\<rparr>"
  have br: "br_bytes r = A \<union> br_bytes ?r" "A \<inter> br_bytes ?r = {}" "br_ok ?r"
    using retain(1,4,5) by (auto simp: br_bytes_def br_ok_def)
  have cov: "covered (lg_leases l) = covered ?f \<union> br_bytes r" using retain(3) by (rule covered_split)
  have d: "br_bytes r \<inter> covered ?f = {}" by (rule covered_drop_disjoint [OF I(1) retain(3)])
  have "table_ok (?f(k \<mapsto> ?r))"
    using d br by (intro table_ok_add table_ok_drop I(1)) auto
  then have t: "table_ok (lg_leases l')" "covered (lg_leases l') = covered ?f \<union> br_bytes ?r"
    "lg_free l' = lg_free l" "lg_acked l' = lg_acked l \<union> A"
    using covered_upd [of ?f k ?r] retain(1,2) by simp_all
  show ?thesis
    by (rule ledger_invI [OF t]) (use I(2-5) [unfolded cov br(1)] d [unfolded br(1)] br(2) in auto)
next
  note I = ledger_inv_sets [OF assms(2)]
  case complete: (ack_complete k r)
  let ?f = "(lg_leases l)(k := None)"
  have cov: "covered (lg_leases l) = covered ?f \<union> br_bytes r" using complete(3) by (rule covered_split)
  have d: "br_bytes r \<inter> covered ?f = {}" by (rule covered_drop_disjoint [OF I(1) complete(3)])
  have t: "table_ok (lg_leases l')" "covered (lg_leases l') = covered ?f"
    "lg_free l' = lg_free l" "lg_acked l' = lg_acked l \<union> br_bytes r"
    using table_ok_drop [OF I(1)] complete(1,2) by simp_all
  show ?thesis
    by (rule ledger_invI [OF t]) (use I(2-5) [unfolded cov] d in auto)
qed

section \<open>Runs\<close>

lemma ledger_run_trans:
  "ledger_run l As l1 \<Longrightarrow> ledger_run l1 Bs l2 \<Longrightarrow> ledger_run l (As @ Bs) l2"
  by (induction rule: ledger_run.induct) (auto intro: ledger_run.intros)

lemma ledger_run_tau1: "ledger_tau l l' \<Longrightarrow> ledger_run l [] l'"
  by (auto intro: ledger_run.intros)

lemma ledger_run_ack1: "ledger_ack l A l' \<Longrightarrow> ledger_run l [A] l'"
  by (auto intro: ledger_run.intros)

definition pairwise_disjoint :: "nat set list \<Rightarrow> bool" where
  "pairwise_disjoint As \<longleftrightarrow> sorted_wrt (\<lambda>A B. A \<inter> B = {}) As"

text \<open>Acknowledgements of a run never overlap, neither one another nor what was
  acknowledged before, and they account for all newly acknowledged bytes.\<close>

lemma ledger_run_sound:
  assumes "ledger_run l As l'" "ledger_inv fsize l"
  shows "ledger_inv fsize l' \<and> lg_acked l' = lg_acked l \<union> \<Union> (set As) \<and>
    lg_acked l \<inter> \<Union> (set As) = {} \<and> pairwise_disjoint As"
  using assms
proof (induction rule: ledger_run.induct)
  case (run_refl l)
  then show ?case by (simp add: pairwise_disjoint_def)
next
  case tau: (run_tau l l1 As l2)
  then show ?case using ledger_inv_tau [OF tau(1,4)] ledger_tau_acked [OF tau(1)] by simp
next
  case ack: (run_ack l A l1 As l2)
  note S = ledger_inv_ack [OF ack(1,4)] ledger_ack_range [OF ack(1,4)]
  have IH: "ledger_inv fsize l2" "lg_acked l2 = lg_acked l1 \<union> \<Union> (set As)"
    "lg_acked l1 \<inter> \<Union> (set As) = {}" "pairwise_disjoint As"
    using ack(3) [OF S(1)] by blast+
  have "\<forall>B \<in> set As. A \<inter> B = {}" using IH(3) S(2) by blast
  then have "pairwise_disjoint (A # As)" using IH(4) by (simp add: pairwise_disjoint_def)
  then show ?case using IH S by auto
qed

fun trace_acks :: "('op \<Rightarrow> 's \<Rightarrow> 's) \<Rightarrow> ('op \<Rightarrow> 's \<Rightarrow> nat set list) \<Rightarrow> 'op list \<Rightarrow> 's \<Rightarrow> nat set list" where
  "trace_acks exec acks [] s = []"
| "trace_acks exec acks (op # ops) s = acks op s @ trace_acks exec acks ops (exec op s)"

text \<open>A component whose operations simulate the ledger.  Every operation may use
  up to \<open>cost\<close> fresh lease ids, of which there are \<open>limit\<close>.\<close>

locale ledger_refinement =
  fixes exec :: "'op \<Rightarrow> 's \<Rightarrow> 's"
    and acks :: "'op \<Rightarrow> 's \<Rightarrow> nat set list"
    and abs :: "'s \<Rightarrow> ledger"
    and inv :: "'s \<Rightarrow> bool"
    and used :: "'s \<Rightarrow> nat"
    and fsize :: "'s \<Rightarrow> nat"
    and cost limit :: nat
  assumes exec_inv: "inv s \<Longrightarrow> used s + cost \<le> limit \<Longrightarrow> inv (exec op s)"
    and exec_run: "inv s \<Longrightarrow> used s + cost \<le> limit \<Longrightarrow>
      ledger_run (abs s) (acks op s) (abs (exec op s))"
    and exec_used: "inv s \<Longrightarrow> used s + cost \<le> limit \<Longrightarrow> used (exec op s) \<le> used s + cost"
    and exec_size: "inv s \<Longrightarrow> used s + cost \<le> limit \<Longrightarrow> fsize (exec op s) = fsize s"
    and abs_inv: "inv s \<Longrightarrow> ledger_inv (fsize s) (abs s)"
begin

lemma run_refines:
  assumes "inv s" "used s + length ops * cost \<le> limit"
  shows "inv (fold exec ops s) \<and> ledger_run (abs s) (trace_acks exec acks ops s) (abs (fold exec ops s)) \<and>
    fsize (fold exec ops s) = fsize s"
  using assms
proof (induction ops arbitrary: s)
  case (Cons op ops)
  have room: "used s + cost \<le> limit" using Cons.prems(2) by simp
  have "used (exec op s) + length ops * cost \<le> limit"
    using exec_used [OF Cons.prems(1) room, of op] Cons.prems(2) by simp
  then have "inv (fold exec ops (exec op s)) \<and>
      ledger_run (abs (exec op s)) (trace_acks exec acks ops (exec op s)) (abs (fold exec ops (exec op s))) \<and>
      fsize (fold exec ops (exec op s)) = fsize (exec op s)"
    using exec_inv [OF Cons.prems(1) room] by (intro Cons.IH)
  then show ?case
    using ledger_run_trans [OF exec_run [OF Cons.prems(1) room]] exec_size [OF Cons.prems(1) room] by simp
qed (simp add: ledger_run.run_refl)

lemma run_exactly_once:
  assumes "inv s" "used s + length ops * cost \<le> limit"
  shows "pairwise_disjoint (trace_acks exec acks ops s)"
    and "lg_acked (abs s) \<inter> \<Union> (set (trace_acks exec acks ops s)) = {}"
    and "lg_acked (abs (fold exec ops s)) = lg_acked (abs s) \<union> \<Union> (set (trace_acks exec acks ops s))"
  using run_refines [OF assms] ledger_run_sound [OF _ abs_inv [OF assms(1)]] by blast+

end

end
