(* ===== verification/Text_Util.thy ===== *)
theory Text_Util
  imports Prelude
begin

text \<open>
  The string functions of the Rust standard library that the sources call, on
  ASCII text: trimming, prefixes, splitting, decimal parsing and printing, and
  case folding.  The main fact is that parsing a printed \<open>u64\<close> returns it.
\<close>

definition char_code :: "char \<Rightarrow> nat" where
  "char_code c = of_char c"

definition is_ascii_ws :: "char \<Rightarrow> bool" where
  "is_ascii_ws c \<longleftrightarrow> 9 \<le> char_code c \<and> char_code c \<le> 13 \<or> char_code c = 32"

definition is_ascii_digit :: "char \<Rightarrow> bool" where
  "is_ascii_digit c \<longleftrightarrow> 48 \<le> char_code c \<and> char_code c \<le> 57"

definition trim_start :: "string \<Rightarrow> string" where
  "trim_start s = dropWhile is_ascii_ws s"

definition trim_end :: "string \<Rightarrow> string" where
  "trim_end s = rev (dropWhile is_ascii_ws (rev s))"

definition trim :: "string \<Rightarrow> string" where
  "trim s = trim_end (trim_start s)"

fun strip_prefix :: "string \<Rightarrow> string \<Rightarrow> string option" where
  "strip_prefix [] s = Some s"
| "strip_prefix (c # cs) [] = None"
| "strip_prefix (c # cs) (d # ds) = (if c = d then strip_prefix cs ds else None)"

definition starts_with :: "string \<Rightarrow> string \<Rightarrow> bool" where
  "starts_with s p \<longleftrightarrow> strip_prefix p s \<noteq> None"

definition ends_with :: "string \<Rightarrow> string \<Rightarrow> bool" where
  "ends_with s p \<longleftrightarrow> strip_prefix (rev p) (rev s) \<noteq> None"

text \<open>\<open>str::split_once\<close> on a single character.\<close>

fun split_once :: "char \<Rightarrow> string \<Rightarrow> (string \<times> string) option" where
  "split_once d [] = None"
| "split_once d (c # cs) =
     (if c = d then Some ([], cs)
      else map_option (\<lambda>(a, b). (c # a, b)) (split_once d cs))"

definition to_ascii_lower :: "char \<Rightarrow> char" where
  "to_ascii_lower c =
     (if 65 \<le> char_code c \<and> char_code c \<le> 90 then char_of (char_code c + 32) else c)"

definition eq_ignore_ascii_case :: "string \<Rightarrow> string \<Rightarrow> bool" where
  "eq_ignore_ascii_case a b \<longleftrightarrow> map to_ascii_lower a = map to_ascii_lower b"

text \<open>\<open>str::parse::<u64>\<close>: an optional plus sign, then at least one digit, with
  the overflow check after every digit.\<close>

fun parse_digits :: "nat \<Rightarrow> string \<Rightarrow> nat option" where
  "parse_digits acc [] = Some acc"
| "parse_digits acc (c # cs) =
     (if is_ascii_digit c
      then let v = acc * 10 + (char_code c - 48)
           in if v \<le> u64_max then parse_digits v cs else None
      else None)"

definition parse_u64 :: "string \<Rightarrow> nat option" where
  "parse_u64 s =
     (let digits = (case s of c # cs \<Rightarrow> if c = CHR ''+'' then cs else s | [] \<Rightarrow> [])
      in if digits = [] then None else parse_digits 0 digits)"

definition digit_char :: "nat \<Rightarrow> char" where
  "digit_char d = char_of (48 + d)"

fun show_nat :: "nat \<Rightarrow> string" where
  "show_nat n = (if n < 10 then [digit_char n] else show_nat (n div 10) @ [digit_char (n mod 10)])"

declare show_nat.simps [simp del]

section \<open>Facts\<close>

lemma char_code_digit: "d < 10 \<Longrightarrow> char_code (digit_char d) = 48 + d"
  by (simp add: char_code_def digit_char_def of_char_of)

lemma digit_char_digit: "d < 10 \<Longrightarrow> is_ascii_digit (digit_char d)"
  by (simp add: is_ascii_digit_def char_code_digit)

lemma strip_prefix_append [simp]: "strip_prefix p (p @ s) = Some s"
  by (induction p) auto

lemma strip_prefix_Some: "strip_prefix p s = Some r \<longleftrightarrow> s = p @ r"
  by (induction p s rule: strip_prefix.induct) auto

lemma starts_with_iff: "starts_with s p \<longleftrightarrow> (\<exists>r. s = p @ r)"
  by (auto simp: starts_with_def strip_prefix_Some)

lemma split_once_Some:
  "split_once d s = Some (a, b) \<longleftrightarrow> s = a @ d # b \<and> d \<notin> set a"
proof (induction d s arbitrary: a rule: split_once.induct)
  case (2 d c cs)
  show ?case
  proof (cases "c = d")
    case True
    then show ?thesis by (cases a) auto
  next
    case False
    then show ?thesis using 2 by (cases a) auto
  qed
qed simp

lemma split_once_None: "split_once d s = None \<longleftrightarrow> d \<notin> set s"
  by (induction d s rule: split_once.induct) auto

lemma show_nat_digits: "\<forall>c \<in> set (show_nat n). is_ascii_digit c"
  by (induction n rule: show_nat.induct) (subst show_nat.simps, auto simp: digit_char_digit)

lemma show_nat_not_Nil [simp]: "show_nat n \<noteq> []"
  by (subst show_nat.simps) simp

lemma parse_digits_append:
  "parse_digits acc (a @ b) = Option.bind (parse_digits acc a) (\<lambda>v. parse_digits v b)"
  by (induction acc a rule: parse_digits.induct) (auto simp: Let_def)

lemma parse_digits_show: "n \<le> u64_max \<Longrightarrow> parse_digits 0 (show_nat n) = Some n"
proof (induction n rule: show_nat.induct)
  case (1 n)
  show ?case
  proof (cases "n < 10")
    case True
    then show ?thesis using 1(2)
      by (subst show_nat.simps) (simp add: digit_char_digit char_code_digit Let_def)
  next
    case False
    have d: "parse_digits 0 (show_nat (n div 10)) = Some (n div 10)"
      by (rule 1(1) [OF False]) (use 1(2) in \<open>simp add: div_le_dividend order_trans\<close>)
    have m: "n div 10 * 10 + n mod 10 = n" by simp
    have "parse_digits 0 (show_nat n)
        = Option.bind (Some (n div 10)) (\<lambda>v. parse_digits v [digit_char (n mod 10)])"
      using False d by (subst show_nat.simps) (simp add: parse_digits_append)
    also have "\<dots> = Some n"
      using 1(2) m by (simp add: digit_char_digit char_code_digit Let_def)
    finally show ?thesis .
  qed
qed

lemma parse_show_nat: "n \<le> u64_max \<Longrightarrow> parse_u64 (show_nat n) = Some n"
proof -
  assume n: "n \<le> u64_max"
  obtain c cs where c: "show_nat n = c # cs" by (cases "show_nat n") auto
  have "is_ascii_digit c" using show_nat_digits [of n] c by simp
  then have "c \<noteq> CHR ''+''" by (auto simp: is_ascii_digit_def char_code_def)
  then show ?thesis using parse_digits_show [OF n] c by (simp add: parse_u64_def Let_def)
qed

lemma digit_not_ws: "is_ascii_digit c \<Longrightarrow> \<not> is_ascii_ws c"
  by (auto simp: is_ascii_digit_def is_ascii_ws_def)

lemma trim_no_ws: "\<forall>c \<in> set s. \<not> is_ascii_ws c \<Longrightarrow> trim s = s"
proof -
  assume a: "\<forall>c \<in> set s. \<not> is_ascii_ws c"
  have d: "\<And>t. \<forall>c \<in> set t. \<not> is_ascii_ws c \<Longrightarrow> dropWhile is_ascii_ws t = t"
    by (metis dropWhile_eq_self_iff hd_in_set)
  then show ?thesis using a by (simp add: trim_def trim_start_def trim_end_def d)
qed

lemma trim_pad:
  assumes "s \<noteq> []" "\<not> is_ascii_ws (hd s)" "\<not> is_ascii_ws (last s)"
    "\<forall>c \<in> set a. is_ascii_ws c" "\<forall>c \<in> set b. is_ascii_ws c"
  shows "trim (a @ s @ b) = s"
proof -
  have "dropWhile is_ascii_ws (a @ s @ b) = s @ b"
    using assms(1,2,4) by (cases s) (simp_all add: dropWhile_append2)
  moreover have "dropWhile is_ascii_ws (rev b @ rev s) = rev s"
    using assms(1,3,5) dropWhile_append2 [of "rev b" is_ascii_ws "rev s"]
    by (cases s rule: rev_cases) simp_all
  ultimately show ?thesis by (simp add: trim_def trim_start_def trim_end_def)
qed

lemma trim_show_nat [simp]: "trim (show_nat n) = show_nat n"
  using show_nat_digits digit_not_ws by (intro trim_no_ws) blast

lemma parse_digits_le: "parse_digits acc s = Some v \<Longrightarrow> acc \<le> u64_max \<Longrightarrow> v \<le> u64_max"
  by (induction acc s rule: parse_digits.induct) (auto simp: Let_def split: if_splits)

lemma parse_u64_le: "parse_u64 s = Some v \<Longrightarrow> v \<le> u64_max"
  using parse_digits_le [of 0 _ v] by (auto simp: parse_u64_def Let_def split: if_splits)

end
