(* ===== verification/Error_Model.thy ===== *)
theory Error_Model
  imports Text_Util
begin

text \<open>
  The error type of the library, \<open>src/error.rs\<close>: the error values, which of them
  are transient, and the \<open>Retry-After\<close> hint that travels inside the message of an
  HTTP status error.  The hint is written by \<open>make_http_error\<close> of
  \<open>src/http/worker.rs\<close>, which is modelled here too so that the round trip between
  the two can be stated.  The reason phrase of a status comes from the \<open>http\<close>
  crate and is a parameter.
\<close>

datatype transport_error_kind = Connect | Timeout | Request | Body | Other

definition transport_error_kind_label :: "transport_error_kind \<Rightarrow> string" where
  "transport_error_kind_label k =
     (case k of Connect \<Rightarrow> ''connect'' | Timeout \<Rightarrow> ''timeout'' | Request \<Rightarrow> ''request''
      | Body \<Rightarrow> ''body'' | Other \<Rightarrow> ''other'')"

record transport_error =
  te_kind :: transport_error_kind
  te_source :: string

text \<open>\<open>std::io::ErrorKind\<close>, as far as the sources distinguish its values.\<close>

datatype io_error_kind =
  NotFound | ConnectionReset | ConnectionAborted | TimedOut | UnexpectedEof | InvalidInput | IoOther

datatype download_error =
    Transport transport_error
  | Io io_error_kind string
  | Cancelled
  | Paused
  | HttpStatus (he_status: nat) (he_message: string)
  | ChannelClosed
  | InvalidConfig string
  | ResumeMismatch string
  | ControlFileCorrupted string
  | RetryBudgetExceeded (rb_elapsed: nat) (rb_limit: nat)
  | TaskFailed string
  | Internal string
  | ChecksumMismatch (cm_expected: string) (cm_actual: string)

type_synonym 'a dl_result = "download_error + 'a"

definition transport_timeout :: "string \<Rightarrow> transport_error" where
  "transport_timeout message = \<lparr>te_kind = Timeout, te_source = message\<rparr>"

definition dl_timeout :: "string \<Rightarrow> download_error" where
  "dl_timeout message = Transport (transport_timeout message)"

definition is_retryable :: "download_error \<Rightarrow> bool" where
  "is_retryable err =
     (case err of
        Transport e \<Rightarrow> te_kind e \<in> {Connect, Timeout, Request, Body}
      | HttpStatus status _ \<Rightarrow> status \<in> {429, 500, 502, 503, 504}
      | Io k _ \<Rightarrow> k \<in> {ConnectionReset, ConnectionAborted, TimedOut, UnexpectedEof}
      | _ \<Rightarrow> False)"

definition retry_after_secs :: "download_error \<Rightarrow> nat option" where
  "retry_after_secs err =
     (case err of
        HttpStatus status message \<Rightarrow>
          if status = 429 \<or> status = 503
          then Option.bind (strip_prefix ''retry-after:'' message) (\<lambda>s. parse_u64 (trim s))
          else None
      | _ \<Rightarrow> None)"

type_synonym headers = "string \<Rightarrow> string option"

definition make_http_error ::
  "(nat \<Rightarrow> string option) \<Rightarrow> headers \<Rightarrow> nat \<Rightarrow> download_error" where
  "make_http_error canonical_reason hdrs status =
     (let retry_after = Option.bind (hdrs ''retry-after'') (\<lambda>value. parse_u64 (trim value));
          message = (case retry_after of
                       Some seconds \<Rightarrow> ''retry-after:'' @ show_nat seconds
                     | None \<Rightarrow> (case canonical_reason status of Some r \<Rightarrow> r | None \<Rightarrow> ''unknown''))
      in HttpStatus status message)"

text \<open>A 403 or 404 from a cached redirect target makes the client resolve the
  original URL again.\<close>

definition is_stale_redirect_target_error :: "download_error \<Rightarrow> bool" where
  "is_stale_redirect_target_error err =
     (case err of HttpStatus status _ \<Rightarrow> status = 403 \<or> status = 404 | _ \<Rightarrow> False)"

section \<open>Facts\<close>

lemma retry_after_embedded:
  assumes "status = 429 \<or> status = 503" "seconds \<le> u64_max"
  shows "retry_after_secs (HttpStatus status (''retry-after:'' @ show_nat seconds)) = Some seconds"
  using assms unfolding retry_after_secs_def
  by (simp only: download_error.case if_True strip_prefix_append Option.bind.simps trim_show_nat
      parse_show_nat)

text \<open>The hint a caller reads from the error is the number the server sent, for
  the two statuses that carry one, provided no reason phrase looks like a hint.\<close>

lemma make_http_error_retry_after:
  assumes reason: "\<And>r. canonical_reason status = Some r \<Longrightarrow> \<not> starts_with r ''retry-after:''"
  shows "retry_after_secs (make_http_error canonical_reason hdrs status) =
    (if status = 429 \<or> status = 503
     then Option.bind (hdrs ''retry-after'') (\<lambda>v. parse_u64 (trim v)) else None)"
proof (cases "Option.bind (hdrs ''retry-after'') (\<lambda>v. parse_u64 (trim v))")
  case None
  define msg where "msg = (case canonical_reason status of Some r \<Rightarrow> r | None \<Rightarrow> ''unknown'')"
  have "strip_prefix ''retry-after:'' msg = None"
    using reason by (cases "canonical_reason status") (auto simp: msg_def starts_with_def)
  moreover have "make_http_error canonical_reason hdrs status = HttpStatus status msg"
    by (simp add: make_http_error_def None msg_def)
  ultimately show ?thesis by (simp only: retry_after_secs_def download_error.case None
    Option.bind.simps if_cancel)
next
  case (Some n)
  then have n: "n \<le> u64_max" by (auto simp: bind_eq_Some_conv intro: parse_u64_le)
  have e: "make_http_error canonical_reason hdrs status
      = HttpStatus status (''retry-after:'' @ show_nat n)"
    unfolding make_http_error_def Some by simp
  show ?thesis
  proof (cases "status = 429 \<or> status = 503")
    case True
    then show ?thesis using retry_after_embedded [OF True n] by (simp only: e Some if_True)
  next
    case False
    then show ?thesis by (simp only: e retry_after_secs_def download_error.case if_False)
  qed
qed

end
