(* ===== verification/Control_File.thy ===== *)
theory Control_File
  imports Error_Model
begin

text \<open>
  The control file, \<open>src/storage/control.rs\<close>: the snapshot that lets a download
  resume, framed by a 16-byte header (magic, version, payload length, checksum)
  and written to a temporary file that is then renamed over the old one.

  The payload encoding (\<open>bincode\<close>) and the checksum (\<open>crc32fast\<close>) are parameters;
  the laws they must obey are the locale \<open>payload_codec\<close>.  The file system is a
  map from path names to contents.  Every file operation may fail, and a failing
  write may have written part of its data; a crash between two operations leaves
  the same state as a failure of the second one.
\<close>

section \<open>Data\<close>

record control_hints =
  dirty_piece_ids :: "nat list"
  inflight_piece_ids :: "nat list"
  hint_snapshot_seq :: nat

definition default_hints :: control_hints where
  "default_hints = \<lparr>dirty_piece_ids = [], inflight_piece_ids = [], hint_snapshot_seq = 0\<rparr>"

record control_snapshot =
  cs_url :: string
  cs_total_size :: nat
  cs_piece_size :: nat
  cs_piece_count :: nat
  cs_completed_bitset :: "nat list"
  cs_downloaded_bytes :: nat
  cs_etag :: "string option"
  cs_last_modified :: "string option"

record control_snapshot_v2 =
  v2_snapshot :: control_snapshot
  v2_hints :: control_hints

datatype control_payload = V2 control_snapshot_v2

definition MAGIC :: nat where "MAGIC = 0x42594845"
definition VERSION_V1 :: nat where "VERSION_V1 = 1"
definition VERSION_V2 :: nat where "VERSION_V2 = 2"
definition VERSION :: nat where "VERSION = VERSION_V2"
definition HEADER_SIZE :: nat where "HEADER_SIZE = 16"

fun le_bytes :: "nat \<Rightarrow> nat \<Rightarrow> nat list" where
  "le_bytes 0 n = []"
| "le_bytes (Suc k) n = n mod 256 # le_bytes k (n div 256)"

definition to_le_bytes :: "nat \<Rightarrow> nat list" where
  "to_le_bytes n = le_bytes 4 n"

fun from_le_bytes :: "nat list \<Rightarrow> nat" where
  "from_le_bytes [] = 0"
| "from_le_bytes (b # bs) = b + 256 * from_le_bytes bs"

section \<open>Path names\<close>

text \<open>\<open>Path::file_stem\<close> and \<open>Path::with_extension\<close> on the last component of a
  path: the extension starts at the last dot that is not the first character.\<close>

definition file_stem :: "string \<Rightarrow> string" where
  "file_stem name =
     (case split_once (CHR ''.'') (rev name) of
        None \<Rightarrow> name
      | Some (_, before) \<Rightarrow> if before = [] then name else rev before)"

definition split_dir :: "string \<Rightarrow> string \<times> string" where
  "split_dir p =
     (case split_once (CHR ''/'') (rev p) of
        None \<Rightarrow> ([], p)
      | Some (name, dir) \<Rightarrow> (rev dir @ ''/'', rev name))"

definition with_extension :: "string \<Rightarrow> string \<Rightarrow> string" where
  "with_extension p ext = (case split_dir p of (dir, name) \<Rightarrow> dir @ file_stem name @ ''.'' @ ext)"

definition control_path :: "string \<Rightarrow> string" where
  "control_path output_path = output_path @ ''.bytehaul''"

section \<open>File system\<close>

type_synonym fs = "string \<Rightarrow> nat list option"

datatype fs_op = FsCreate string | FsWrite string "nat list" | FsSync string | FsRename string string

fun fs_apply :: "fs_op \<Rightarrow> fs \<Rightarrow> fs" where
  "fs_apply (FsCreate p) fs = fs(p \<mapsto> [])"
| "fs_apply (FsWrite p bs) fs = fs(p := map_option (\<lambda>old. old @ bs) (fs p))"
| "fs_apply (FsSync p) fs = fs"
| "fs_apply (FsRename p q) fs = fs(q := fs p, p := None)"

text \<open>A failing operation has no effect, except that a write may have appended
  the first \<open>k\<close> bytes.\<close>

fun fs_partial :: "nat \<Rightarrow> fs_op \<Rightarrow> fs \<Rightarrow> fs" where
  "fs_partial k (FsWrite p bs) fs = fs_apply (FsWrite p (take k bs)) fs"
| "fs_partial k op fs = fs"

type_synonym fault = "nat \<Rightarrow> (io_error_kind \<times> nat) option"

fun run_fs_ops :: "fault \<Rightarrow> nat \<Rightarrow> fs_op list \<Rightarrow> fs \<Rightarrow> fs \<times> unit dl_result" where
  "run_fs_ops fault i [] fs = (fs, Inr ())"
| "run_fs_ops fault i (op # ops) fs =
     (case fault i of
        Some (kind, k) \<Rightarrow> (fs_partial k op fs, Inl (Io kind ''''))
      | None \<Rightarrow> run_fs_ops fault (i + 1) ops (fs_apply op fs))"

section \<open>Saving and loading\<close>

definition save_ops :: "string \<Rightarrow> nat list \<Rightarrow> nat \<Rightarrow> fs_op list" where
  "save_ops path payload checksum =
     (let tmp_path = with_extension path ''bytehaul.tmp''
      in [FsCreate tmp_path,
          FsWrite tmp_path (to_le_bytes MAGIC),
          FsWrite tmp_path (to_le_bytes VERSION),
          FsWrite tmp_path (to_le_bytes (length payload mod (u32_max + 1))),
          FsWrite tmp_path (to_le_bytes checksum),
          FsWrite tmp_path payload,
          FsSync tmp_path,
          FsSync tmp_path,
          FsRename tmp_path path])"

definition save_sync ::
  "(control_payload \<Rightarrow> string + nat list) \<Rightarrow> (nat list \<Rightarrow> nat) \<Rightarrow> fault \<Rightarrow>
    control_snapshot \<Rightarrow> control_hints \<Rightarrow> string \<Rightarrow> fs \<Rightarrow> fs \<times> unit dl_result" where
  "save_sync serialize crc32 fault snapshot hints path fs =
     (case serialize (V2 \<lparr>v2_snapshot = snapshot, v2_hints = hints\<rparr>) of
        Inl e \<Rightarrow> (fs, Inl (Internal (''control file serialize failed: '' @ e)))
      | Inr payload \<Rightarrow> run_fs_ops fault 0 (save_ops path payload (crc32 payload)) fs)"

text \<open>\<open>save\<close> is \<open>save_with_hints\<close> with empty hints.\<close>

definition save_snapshot ::
  "(control_payload \<Rightarrow> string + nat list) \<Rightarrow> (nat list \<Rightarrow> nat) \<Rightarrow> fault \<Rightarrow>
    control_snapshot \<Rightarrow> string \<Rightarrow> fs \<Rightarrow> fs \<times> unit dl_result" where
  "save_snapshot serialize crc32 fault snapshot path fs =
     save_sync serialize crc32 fault snapshot default_hints path fs"

definition load_bytes ::
  "(nat list \<Rightarrow> string + control_snapshot) \<Rightarrow> (nat list \<Rightarrow> string + control_payload) \<Rightarrow>
    (nat list \<Rightarrow> nat) \<Rightarrow> nat list \<Rightarrow> (control_snapshot \<times> control_hints) dl_result" where
  "load_bytes deserialize1 deserialize2 crc32 data =
     (if length data < HEADER_SIZE then Inl (ControlFileCorrupted ''too short'')
      else
        let magic = from_le_bytes (take 4 data);
            version = from_le_bytes (take 4 (drop 4 data));
            payload_len = from_le_bytes (take 4 (drop 8 data));
            checksum = from_le_bytes (take 4 (drop 12 data))
        in if magic \<noteq> MAGIC then Inl (ControlFileCorrupted ''bad magic'')
           else if version \<noteq> VERSION_V1 \<and> version \<noteq> VERSION_V2
           then Inl (ControlFileCorrupted (''unsupported version: '' @ show_nat version))
           else if length data < HEADER_SIZE + payload_len
           then Inl (ControlFileCorrupted ''truncated payload'')
           else
             let payload = take payload_len (drop HEADER_SIZE data)
             in if crc32 payload \<noteq> checksum then Inl (ControlFileCorrupted ''checksum mismatch'')
                else if version = VERSION_V1
                then (case deserialize1 payload of
                        Inl e \<Rightarrow> Inl (ControlFileCorrupted (''deserialize: '' @ e))
                      | Inr snapshot \<Rightarrow> Inr (snapshot, default_hints))
                else (case deserialize2 payload of
                        Inl e \<Rightarrow> Inl (ControlFileCorrupted (''deserialize: '' @ e))
                      | Inr (V2 p) \<Rightarrow> Inr (v2_snapshot p, v2_hints p)))"

definition load_sync_with_hints ::
  "(nat list \<Rightarrow> string + control_snapshot) \<Rightarrow> (nat list \<Rightarrow> string + control_payload) \<Rightarrow>
    (nat list \<Rightarrow> nat) \<Rightarrow> string \<Rightarrow> fs \<Rightarrow> (control_snapshot \<times> control_hints) dl_result" where
  "load_sync_with_hints deserialize1 deserialize2 crc32 path fs =
     (case fs path of
        None \<Rightarrow> Inl (Io NotFound '''')
      | Some data \<Rightarrow> load_bytes deserialize1 deserialize2 crc32 data)"

definition delete_control :: "io_error_kind option \<Rightarrow> string \<Rightarrow> fs \<Rightarrow> fs \<times> unit dl_result" where
  "delete_control fault path fs =
     (case fault of
        Some kind \<Rightarrow> if kind = NotFound then (fs, Inr ()) else (fs, Inl (Io kind ''''))
      | None \<Rightarrow> if fs path = None then (fs, Inr ()) else (fs(path := None), Inr ()))"

section \<open>Framing\<close>

lemma length_le_bytes [simp]: "length (le_bytes k n) = k"
  by (induction k arbitrary: n) auto

lemma to_le_bytes_length [simp]: "length (to_le_bytes n) = 4"
  by (simp add: to_le_bytes_def)

lemma from_le_bytes_mod: "from_le_bytes (le_bytes k n) = n mod 256 ^ k"
proof (induction k arbitrary: n)
  case (Suc k)
  then show ?case by (simp add: mod_mult2_eq)
qed simp

lemma le_bytes_roundtrip: "n < 256 ^ k \<Longrightarrow> from_le_bytes (le_bytes k n) = n"
  by (simp add: from_le_bytes_mod)

lemma u32_roundtrip: "n \<le> u32_max \<Longrightarrow> from_le_bytes (to_le_bytes n) = n"
  unfolding to_le_bytes_def by (rule le_bytes_roundtrip) (simp add: u32_max_def)

definition frame :: "nat list \<Rightarrow> nat \<Rightarrow> nat list" where
  "frame payload checksum =
     to_le_bytes MAGIC @ to_le_bytes VERSION @
     to_le_bytes (length payload mod (u32_max + 1)) @ to_le_bytes checksum @ payload"

lemma frame_fields:
  shows "length (frame payload c) = HEADER_SIZE + length payload"
    and "take 4 (frame payload c) = to_le_bytes MAGIC"
    and "take 4 (drop 4 (frame payload c)) = to_le_bytes VERSION"
    and "take 4 (drop 8 (frame payload c)) = to_le_bytes (length payload mod (u32_max + 1))"
    and "take 4 (drop 12 (frame payload c)) = to_le_bytes c"
    and "drop HEADER_SIZE (frame payload c) = payload"
  by (simp_all add: frame_def HEADER_SIZE_def)

lemma tmp_path_distinct: "with_extension (control_path p) ''bytehaul.tmp'' \<noteq> control_path p"
proof
  assume eq: "with_extension (control_path p) ''bytehaul.tmp'' = control_path p"
  obtain dir name where d: "split_dir (control_path p) = (dir, name)" by (cases "split_dir (control_path p)")
  then have "last (with_extension (control_path p) ''bytehaul.tmp'') = CHR ''p''"
    by (simp add: with_extension_def)
  moreover have "last (control_path p) = CHR ''l''" by (simp add: control_path_def)
  ultimately show False using eq by simp
qed

text \<open>What loading accepts: a framed payload, possibly followed by other bytes.\<close>

lemma load_frame:
  assumes "length payload \<le> u32_max" "c \<le> u32_max" "data = frame payload c @ rest"
  shows "load_bytes d1 d2 crc data =
    (if crc payload \<noteq> c then Inl (ControlFileCorrupted ''checksum mismatch'')
     else case d2 payload of
            Inl e \<Rightarrow> Inl (ControlFileCorrupted (''deserialize: '' @ e))
          | Inr (V2 p) \<Rightarrow> Inr (v2_snapshot p, v2_hints p))"
proof -
  have r: "from_le_bytes (to_le_bytes MAGIC) = MAGIC" "from_le_bytes (to_le_bytes VERSION) = VERSION"
    "from_le_bytes (to_le_bytes (length payload mod (u32_max + 1))) = length payload"
    "from_le_bytes (to_le_bytes c) = c"
    using assms by (simp_all add: u32_roundtrip MAGIC_def VERSION_def VERSION_V2_def u32_max_def)
  note f = frame_fields [of payload c]
  have t: "take 4 data = to_le_bytes MAGIC" "take 4 (drop 4 data) = to_le_bytes VERSION"
    "take 4 (drop 8 data) = to_le_bytes (length payload mod (u32_max + 1))"
    "take 4 (drop 12 data) = to_le_bytes c"
    using f(1-5) by (simp_all add: assms(3) HEADER_SIZE_def)
  have p: "take (length payload) (drop HEADER_SIZE data) = payload"
    using f(1,6) by (simp add: assms(3))
  have l: "\<not> length data < HEADER_SIZE" "\<not> length data < HEADER_SIZE + length payload"
    using f(1) by (simp_all add: assms(3))
  have v: "VERSION \<noteq> VERSION_V1" "VERSION = VERSION_V2"
    by (simp_all add: VERSION_def VERSION_V1_def VERSION_V2_def)
  show ?thesis
    unfolding load_bytes_def Let_def t r p using l v by simp
qed

text \<open>A file cut short anywhere is rejected as corrupted.\<close>

lemma load_truncated:
  assumes "length payload \<le> u32_max" "n < length (frame payload c)"
  shows "\<exists>msg. load_bytes d1 d2 crc (take n (frame payload c)) = Inl (ControlFileCorrupted msg)"
proof (cases "n < HEADER_SIZE")
  case True
  then show ?thesis by (simp add: load_bytes_def)
next
  case False
  let ?data = "take n (frame payload c)"
  note f = frame_fields [of payload c]
  have n16: "min 4 n = 4" "min 4 (n - 4) = 4" "min 4 (n - 8) = 4"
    using False by (simp_all add: HEADER_SIZE_def)
  have t: "take 4 ?data = to_le_bytes MAGIC" "take 4 (drop 4 ?data) = to_le_bytes VERSION"
    "take 4 (drop 8 ?data) = to_le_bytes (length payload mod (u32_max + 1))"
    using f(2-4) by (simp_all add: drop_take n16)
  have r: "from_le_bytes (to_le_bytes MAGIC) = MAGIC" "from_le_bytes (to_le_bytes VERSION) = VERSION_V2"
    "from_le_bytes (to_le_bytes (length payload mod (u32_max + 1))) = length payload"
    using assms by (simp_all add: u32_roundtrip MAGIC_def VERSION_def VERSION_V2_def u32_max_def)
  have l: "\<not> length ?data < HEADER_SIZE" "length ?data < HEADER_SIZE + length payload"
    using False assms(2) f(1) by simp_all
  show ?thesis unfolding load_bytes_def Let_def t r using l by simp
qed

section \<open>Atomic replacement\<close>

definition tmp_only :: "string \<Rightarrow> fs_op \<Rightarrow> bool" where
  "tmp_only t op = (case op of FsWrite p _ \<Rightarrow> p = t | FsSync _ \<Rightarrow> True | _ \<Rightarrow> False)"

definition op_data :: "fs_op \<Rightarrow> nat list" where
  "op_data op = (case op of FsWrite _ bs \<Rightarrow> bs | _ \<Rightarrow> [])"

lemma tmp_only_other:
  "list_all (tmp_only t) ops \<Longrightarrow> p \<noteq> t \<Longrightarrow> fst (run_fs_ops fault i ops fs) p = fs p"
proof (induction fault i ops fs rule: run_fs_ops.induct)
  case (2 fault i op ops fs)
  have "fs_apply op fs p = fs p" "\<And>k. fs_partial k op fs p = fs p"
    using 2(2,3) by (cases op; simp add: tmp_only_def)+
  then show ?case using 2 by (simp split: option.splits)
qed simp

lemma tmp_only_data:
  "list_all (tmp_only t) ops \<Longrightarrow> fs t = Some old \<Longrightarrow> snd (run_fs_ops fault i ops fs) = Inr () \<Longrightarrow>
     fst (run_fs_ops fault i ops fs) t = Some (old @ concat (map op_data ops))"
proof (induction fault i ops fs arbitrary: old rule: run_fs_ops.induct)
  case (2 fault i op ops fs)
  have none: "fault i = None" using 2(4) by (auto split: option.splits)
  have run: "run_fs_ops fault i (op # ops) fs = run_fs_ops fault (i + 1) ops (fs_apply op fs)"
    using none by simp
  have "fs_apply op fs t = Some (old @ op_data op)"
    using 2(2,3) by (cases op) (auto simp: tmp_only_def op_data_def)
  then have "fst (run_fs_ops fault (i + 1) ops (fs_apply op fs)) t =
      Some ((old @ op_data op) @ concat (map op_data ops))"
    using 2(2,4) by (intro 2(1) [OF none]) (simp_all add: none)
  then show ?case by (simp only: run list.map concat.simps append_assoc)
qed simp

lemma run_fs_ops_append:
  "run_fs_ops fault i (xs @ ys) fs =
     (case run_fs_ops fault i xs fs of
        (fs', Inl e) \<Rightarrow> (fs', Inl e)
      | (fs', Inr _) \<Rightarrow> run_fs_ops fault (i + length xs) ys fs')"
  by (induction fault i xs fs rule: run_fs_ops.induct) (auto split: option.splits)

text \<open>Only the final rename touches the control file itself, and it is reached
  only when the complete frame is in the temporary file.\<close>

lemma save_ops_atomic:
  assumes "with_extension path ''bytehaul.tmp'' \<noteq> path"
    and run: "run_fs_ops fault 0 (save_ops path payload c) fs = (fs', res)"
  shows "res = Inr () \<and> fs' path = Some (frame payload c) \<or>
         (\<exists>e. res = Inl e) \<and> fs' path = fs path"
    and "p \<noteq> path \<Longrightarrow> p \<noteq> with_extension path ''bytehaul.tmp'' \<Longrightarrow> fs' p = fs p"
proof -
  let ?t = "with_extension path ''bytehaul.tmp''"
  define mid where "mid = [FsWrite ?t (to_le_bytes MAGIC), FsWrite ?t (to_le_bytes VERSION),
      FsWrite ?t (to_le_bytes (length payload mod (u32_max + 1))), FsWrite ?t (to_le_bytes c),
      FsWrite ?t payload, FsSync ?t, FsSync ?t]"
  have ops: "save_ops path payload c = (FsCreate ?t # mid) @ [FsRename ?t path]"
    by (simp add: save_ops_def Let_def mid_def)
  have mid: "list_all (tmp_only ?t) mid" by (simp add: mid_def tmp_only_def)
  have bytes: "concat (map op_data mid) = frame payload c"
    by (simp add: mid_def frame_def op_data_def)
  obtain fs1 r1 where mr: "run_fs_ops fault (Suc 0) mid (fs(?t \<mapsto> [])) = (fs1, r1)" by fastforce
  have other: "\<And>q. q \<noteq> ?t \<Longrightarrow> fs1 q = fs q"
    using tmp_only_other [OF mid, of _ fault "Suc 0" "fs(?t \<mapsto> [])"] mr by simp
  have tmp: "r1 = Inr () \<Longrightarrow> fs1 ?t = Some (frame payload c)"
    using tmp_only_data [OF mid, of "fs(?t \<mapsto> [])" "[]" fault "Suc 0"] mr bytes by simp
  have run1: "(case fault 0 of Some (kind, k) \<Rightarrow> (fs, Inl (Io kind '''')) | None \<Rightarrow>
      (case r1 of Inl e \<Rightarrow> (fs1, Inl e)
       | Inr _ \<Rightarrow> run_fs_ops fault (Suc (length mid)) [FsRename ?t path] fs1)) = (fs', res)"
    using run unfolding ops run_fs_ops_append
    by (cases "fault 0") (auto simp: mr simp del: run_fs_ops.simps(2) simp add: run_fs_ops.simps(2) [of _ 0])
  show "res = Inr () \<and> fs' path = Some (frame payload c) \<or> (\<exists>e. res = Inl e) \<and> fs' path = fs path"
    using run1 other tmp assms(1) by (auto split: option.splits sum.splits)
  show "p \<noteq> path \<Longrightarrow> p \<noteq> ?t \<Longrightarrow> fs' p = fs p"
    using run1 other by (auto split: option.splits sum.splits)
qed

section \<open>The contract of the codec\<close>

locale payload_codec =
  fixes serialize :: "control_payload \<Rightarrow> string + nat list"
    and deserialize2 :: "nat list \<Rightarrow> string + control_payload"
    and crc32 :: "nat list \<Rightarrow> nat"
  assumes codec: "serialize p = Inr bytes \<Longrightarrow> deserialize2 bytes = Inr p"
    and crc32_range: "crc32 bytes \<le> u32_max"
begin

lemma save_load:
  assumes "save_sync serialize crc32 fault snapshot hints (control_path out) fs = (fs', res)"
    and small: "\<And>bytes. serialize (V2 \<lparr>v2_snapshot = snapshot, v2_hints = hints\<rparr>) = Inr bytes \<Longrightarrow>
      length bytes \<le> u32_max"
  shows "res = Inr () \<and>
      load_sync_with_hints d1 deserialize2 crc32 (control_path out) fs' = Inr (snapshot, hints) \<or>
    (\<exists>e. res = Inl e) \<and> fs' (control_path out) = fs (control_path out)"
proof (cases "serialize (V2 \<lparr>v2_snapshot = snapshot, v2_hints = hints\<rparr>)")
  case (Inl e)
  then show ?thesis using assms(1) by (auto simp: save_sync_def)
next
  case (Inr payload)
  have run: "run_fs_ops fault 0 (save_ops (control_path out) payload (crc32 payload)) fs = (fs', res)"
    using assms(1) Inr by (simp add: save_sync_def)
  have "load_bytes d1 deserialize2 crc32 (frame payload (crc32 payload)) = Inr (snapshot, hints)"
    using load_frame [of payload "crc32 payload" _ "[]"] small [OF Inr] crc32_range codec [OF Inr]
    by simp
  then show ?thesis
    using save_ops_atomic(1) [OF tmp_path_distinct run] by (auto simp: load_sync_with_hints_def)
qed

end

end
