(* ===== verification/Scheduler.thy ===== *)
theory Scheduler
  imports Piece_Map Ledger Control_File
begin

text \<open>
  The scheduler state of \<open>src/scheduler.rs\<close> and its single-lease operations:
  assigning the next range, retaining a confirmed prefix, renewing, completing and
  reclaiming a lease, stopping, and the snapshot queries.  Batch planning is in
  \<open>Scheduler_Batch\<close> and \<open>Scheduler_Dynamic\<close>.

  The source guards the state by one mutex; an operation of the model is one
  critical section.  The state invariant \<open>sched_inv\<close> ties the cached counters and
  the availability bits to the pieces, and \<open>sched_ledger\<close> abstracts the state to
  the byte ledger.
\<close>

section \<open>State\<close>

definition MAX_REQUEST_LEASES :: nat where
  "MAX_REQUEST_LEASES = 64"

record scheduler_state =
  pmap :: piece_map
  pieces :: "(nat, piece_state) btree"
  available_pieces :: "bool list"
  active_lease_count :: nat
  available_range_count :: nat
  next_candidate :: nat
  next_lease_id :: nat
  snapshot_seq :: nat
  stopped :: bool

definition sched_new :: "piece_map \<Rightarrow> scheduler_state" where
  "sched_new m =
     \<lparr>pmap = m, pieces = [], available_pieces = missing_bitset m, active_lease_count = 0,
      available_range_count = remaining_count m,
      next_candidate = (case first_missing m of None \<Rightarrow> 0 | Some i \<Rightarrow> i),
      next_lease_id = 1, snapshot_seq = 0, stopped = False\<rparr>"

definition full_range :: "scheduler_state \<Rightarrow> nat \<Rightarrow> byte_range" where
  "full_range s piece_id =
     (case piece_range (pmap s) piece_id of (b, e) \<Rightarrow> \<lparr>br_start = b, br_end = e\<rparr>)"

section \<open>Assigning\<close>

definition assignment_range_for :: "scheduler_state \<Rightarrow> byte_range \<Rightarrow> nat \<Rightarrow> nat \<Rightarrow> byte_range" where
  "assignment_range_for s rng max_active_leases min_segment_size =
     (if max_active_leases \<le> 1 \<or> min_segment_size = 0 then rng
      else
        let total_work_units = active_lease_count s + available_range_count s
        in if max_active_leases \<le> total_work_units then rng
           else
             let range_len = sub_u64 (br_end rng) (br_start rng)
             in if range_len \<le> min_segment_size then rng
                else
                  let desired_units_from_range = max_active_leases - total_work_units + 1
                  in if desired_units_from_range \<le> 1 then rng
                     else
                       let target_len = div_ceil range_len desired_units_from_range;
                           segment_len = max target_len min_segment_size
                       in if range_len \<le> segment_len \<or> range_len - segment_len < min_segment_size
                          then rng
                          else \<lparr>br_start = br_start rng,
                                br_end = add_u64 (br_start rng) segment_len\<rparr>)"

text \<open>\<open>issue_lease\<close>: the runtime state of the piece is created on demand and stays
  even when the range turns out not to be available.\<close>

definition issue_lease ::
  "scheduler_state \<Rightarrow> nat \<Rightarrow> byte_range \<Rightarrow> nat \<Rightarrow> scheduler_state \<times> segment option" where
  "issue_lease s piece_id rng worker_id =
     (if stopped s then (s, None)
      else
        let piece = (case bt_get (pieces s) piece_id of
                       Some p \<Rightarrow> p | None \<Rightarrow> ps_new (full_range s piece_id));
            previous_ranges = missing_range_count piece
        in case ps_issue_lease piece rng worker_id (next_lease_id s) piece_id of
             None \<Rightarrow> (s\<lparr>pieces := bt_insert piece_id piece (pieces s)\<rparr>, None)
           | Some (segment, piece', next_id) \<Rightarrow>
               (s\<lparr>pieces := bt_insert piece_id piece' (pieces s),
                  next_lease_id := next_id,
                  available_range_count :=
                    sub_u64 (available_range_count s) previous_ranges + missing_range_count piece',
                  active_lease_count := active_lease_count s + 1,
                  available_pieces := (available_pieces s)[piece_id := missing_range_count piece' \<noteq> 0]\<rparr>,
                Some segment))"

text \<open>The search for the next available piece: from the cursor to the end, then
  from the start to the cursor.\<close>

definition next_available_piece :: "scheduler_state \<Rightarrow> nat option" where
  "next_available_piece s =
     (case first_one (drop (next_candidate s) (available_pieces s)) of
        Some offset \<Rightarrow> Some (next_candidate s + offset)
      | None \<Rightarrow> first_one (take (next_candidate s) (available_pieces s)))"

definition assign_to_with_split ::
  "scheduler_state \<Rightarrow> nat \<Rightarrow> nat \<Rightarrow> nat \<Rightarrow> scheduler_state \<times> segment option" where
  "assign_to_with_split s worker_id max_active_leases min_segment_size =
     (if available_range_count s = 0 then (s, None)
      else case next_available_piece s of
        None \<Rightarrow> (s, None)
      | Some piece_id \<Rightarrow>
          (case (case bt_get (pieces s) piece_id of
                   Some piece \<Rightarrow> next_assignable_range piece
                 | None \<Rightarrow> Some (full_range s piece_id)) of
             None \<Rightarrow> (s, None)
           | Some rng \<Rightarrow>
               let rng' = assignment_range_for s rng max_active_leases min_segment_size
               in case issue_lease s piece_id rng' worker_id of
                    (s', None) \<Rightarrow> (s', None)
                  | (s', Some segment) \<Rightarrow>
                      (s'\<lparr>next_candidate := (piece_id + 1) mod piece_count (pmap s')\<rparr>, Some segment)))"

definition assign_to :: "scheduler_state \<Rightarrow> nat \<Rightarrow> scheduler_state \<times> segment option" where
  "assign_to s worker_id = assign_to_with_split s worker_id 1 u64_max"

definition assign :: "scheduler_state \<Rightarrow> scheduler_state \<times> segment option" where
  "assign s = assign_to s 0"

definition assign_to_with_request_split ::
  "scheduler_state \<Rightarrow> nat \<Rightarrow> nat \<Rightarrow> nat \<Rightarrow> nat \<Rightarrow> scheduler_state \<times> segment option" where
  "assign_to_with_request_split s worker_id max_requests min_segment_size occupied_requests =
     (let available_request_slots = max_requests - occupied_requests
      in assign_to_with_split s worker_id
           (sat_add_u64 (active_lease_count s) available_request_slots) min_segment_size)"

definition assign_subrange ::
  "scheduler_state \<Rightarrow> nat \<Rightarrow> nat \<Rightarrow> nat \<Rightarrow> nat \<Rightarrow> scheduler_state \<times> segment option" where
  "assign_subrange s piece_id start end' worker_id =
     (if piece_count (pmap s) \<le> piece_id \<or> is_complete (pmap s) piece_id then (s, None)
      else case byte_range_new start end' of
        None \<Rightarrow> (s, None)
      | Some rng \<Rightarrow>
          (case piece_range (pmap s) piece_id of (piece_start, piece_end) \<Rightarrow>
             if start < piece_start \<or> piece_end < end' then (s, None)
             else issue_lease s piece_id rng worker_id))"

definition is_whole_piece_segment :: "scheduler_state \<Rightarrow> segment \<Rightarrow> bool" where
  "is_whole_piece_segment s seg \<longleftrightarrow>
     seg_piece_id seg < piece_count (pmap s) \<and>
     piece_range (pmap s) (seg_piece_id seg) = (seg_start seg, seg_end seg)"

section \<open>Settling leases\<close>

definition retain_prefix :: "scheduler_state \<Rightarrow> lease_key \<Rightarrow> nat \<Rightarrow> scheduler_state \<times> bool" where
  "retain_prefix s key confirmed_end =
     (case bt_get (pieces s) (lk_piece_id key) of
        None \<Rightarrow> (s, False)
      | Some piece \<Rightarrow>
          (case ps_retain_prefix piece key confirmed_end of
             None \<Rightarrow> (s, False)
           | Some piece' \<Rightarrow> (s\<lparr>pieces := bt_insert (lk_piece_id key) piece' (pieces s)\<rparr>, True)))"

definition renew :: "scheduler_state \<Rightarrow> lease_key \<Rightarrow> nat \<Rightarrow> scheduler_state \<times> segment option" where
  "renew s key worker_id =
     (if is_complete (pmap s) (lk_piece_id key) then (s, None)
      else case bt_get (pieces s) (lk_piece_id key) of
        None \<Rightarrow> (s, None)
      | Some piece \<Rightarrow>
          (case ps_renew piece key worker_id (next_lease_id s) (lk_piece_id key) of
             None \<Rightarrow> (s, None)
           | Some (segment, piece', next_id) \<Rightarrow>
               (s\<lparr>pieces := bt_insert (lk_piece_id key) piece' (pieces s), next_lease_id := next_id\<rparr>,
                Some segment)))"

definition complete :: "scheduler_state \<Rightarrow> lease_key \<Rightarrow> scheduler_state \<times> bool" where
  "complete s key =
     (case bt_get (pieces s) (lk_piece_id key) of
        None \<Rightarrow> (s, False)
      | Some piece \<Rightarrow>
          (case ps_complete piece key of
             None \<Rightarrow> (s, False)
           | Some (piece_complete, piece') \<Rightarrow>
               let s1 = s\<lparr>pieces := bt_insert (lk_piece_id key) piece' (pieces s),
                          active_lease_count := sub_u64 (active_lease_count s) 1\<rparr>
               in if piece_complete
                  then (s1\<lparr>pmap := mark_complete (pmap s1) (lk_piece_id key),
                           pieces := bt_remove (lk_piece_id key) (pieces s1)\<rparr>, True)
                  else (s1, True)))"

definition reclaim :: "scheduler_state \<Rightarrow> lease_key \<Rightarrow> scheduler_state \<times> bool" where
  "reclaim s key =
     (case bt_get (pieces s) (lk_piece_id key) of
        None \<Rightarrow> (s, False)
      | Some piece \<Rightarrow>
          (case ps_reclaim piece key of
             None \<Rightarrow> (s, False)
           | Some piece' \<Rightarrow>
               (s\<lparr>pieces := bt_insert (lk_piece_id key) piece' (pieces s),
                  active_lease_count := sub_u64 (active_lease_count s) 1,
                  available_range_count :=
                    sub_u64 (available_range_count s) (missing_range_count piece)
                      + missing_range_count piece',
                  available_pieces := (available_pieces s)[lk_piece_id key := True],
                  next_candidate :=
                    (if lk_piece_id key < next_candidate s then lk_piece_id key
                     else next_candidate s)\<rparr>, True)))"

definition stop_and_reclaim :: "scheduler_state \<Rightarrow> lease_key \<Rightarrow> scheduler_state" where
  "stop_and_reclaim s key = fst (reclaim (s\<lparr>stopped := True\<rparr>) key)"

section \<open>Queries\<close>

definition has_available :: "scheduler_state \<Rightarrow> bool" where
  "has_available s \<longleftrightarrow> \<not> stopped s \<and> available_range_count s \<noteq> 0"

definition sched_all_done :: "scheduler_state \<Rightarrow> bool" where
  "sched_all_done s = pm_all_done (pmap s)"

definition sched_completed_bytes :: "scheduler_state \<Rightarrow> nat" where
  "sched_completed_bytes s = completed_bytes (pmap s)"

definition snapshot_bitset :: "(bool list \<Rightarrow> 'byte list) \<Rightarrow> scheduler_state \<Rightarrow> 'byte list" where
  "snapshot_bitset as_raw_slice s = to_bitset_bytes as_raw_slice (pmap s)"

definition control_hints :: "scheduler_state \<Rightarrow> scheduler_state \<times> control_hints" where
  "control_hints s =
     (let s' = s\<lparr>snapshot_seq := sat_add_u64 (snapshot_seq s) 1\<rparr>
      in (s', \<lparr>dirty_piece_ids =
                 map fst (filter (\<lambda>(i, p). active_leases p \<noteq> [] \<or> has_completed_ranges p) (pieces s')),
               inflight_piece_ids =
                 map fst (filter (\<lambda>(i, p). active_leases p \<noteq> []) (pieces s')),
               hint_snapshot_seq = snapshot_seq s'\<rparr>))"

section \<open>Invariant\<close>

definition piece_ok :: "scheduler_state \<Rightarrow> nat \<Rightarrow> bool" where
  "piece_ok s i =
     (case bt_get (pieces s) i of
        None \<Rightarrow> available_pieces s ! i \<longleftrightarrow> \<not> completed (pmap s) ! i
      | Some p \<Rightarrow>
          \<not> completed (pmap s) ! i \<and> ps_inv (piece_bytes (pmap s) i) (next_lease_id s) p \<and>
          (available_pieces s ! i \<longleftrightarrow> missing_ranges p \<noteq> []) \<and>
          (missing_ranges p \<noteq> [] \<or> active_leases p \<noteq> []))"

definition avail_count :: "scheduler_state \<Rightarrow> nat \<Rightarrow> nat" where
  "avail_count s i =
     (case bt_get (pieces s) i of
        None \<Rightarrow> if completed (pmap s) ! i then 0 else 1
      | Some p \<Rightarrow> length (missing_ranges p))"

definition lease_count :: "scheduler_state \<Rightarrow> nat \<Rightarrow> nat" where
  "lease_count s i =
     (case bt_get (pieces s) i of None \<Rightarrow> 0 | Some p \<Rightarrow> length (active_leases p))"

definition sched_inv :: "scheduler_state \<Rightarrow> bool" where
  "sched_inv s \<longleftrightarrow>
     pm_inv (pmap s) \<and> bt_inv (pieces s) \<and>
     (\<forall>i. bt_get (pieces s) i \<noteq> None \<longrightarrow> i < piece_count (pmap s)) \<and>
     length (available_pieces s) = piece_count (pmap s) \<and>
     (\<forall>i < piece_count (pmap s). piece_ok s i) \<and>
     active_lease_count s = (\<Sum>i < piece_count (pmap s). lease_count s i) \<and>
     available_range_count s = (\<Sum>i < piece_count (pmap s). avail_count s i) \<and>
     (next_candidate s < piece_count (pmap s) \<or> next_candidate s = 0)"

lemma sched_invD:
  assumes "sched_inv s"
  shows sched_inv_map: "pm_inv (pmap s)"
    and sched_inv_pieces: "bt_inv (pieces s)"
    and sched_inv_bound: "\<And>i p. bt_get (pieces s) i = Some p \<Longrightarrow> i < piece_count (pmap s)"
    and sched_inv_length: "length (available_pieces s) = piece_count (pmap s)"
    and sched_inv_piece: "\<And>i. i < piece_count (pmap s) \<Longrightarrow> piece_ok s i"
    and sched_inv_leases: "active_lease_count s = (\<Sum>i < piece_count (pmap s). lease_count s i)"
    and sched_inv_avail: "available_range_count s = (\<Sum>i < piece_count (pmap s). avail_count s i)"
    and sched_inv_next: "next_candidate s < piece_count (pmap s) \<or> next_candidate s = 0"
  using assms unfolding sched_inv_def by (elim conjE; simp)+

lemma lease_count_le: "sched_inv s \<Longrightarrow> i < piece_count (pmap s) \<Longrightarrow> lease_count s i \<le> active_lease_count s"
  by (simp add: sched_inv_leases sum_ge_term)

lemma avail_count_le: "sched_inv s \<Longrightarrow> i < piece_count (pmap s) \<Longrightarrow> avail_count s i \<le> available_range_count s"
  by (simp add: sched_inv_avail sum_ge_term)

text \<open>Runtime state of a piece under the invariant.\<close>

lemma piece_okD:
  assumes "sched_inv s" "bt_get (pieces s) i = Some p"
  shows "i < piece_count (pmap s)" "\<not> completed (pmap s) ! i"
    "ps_inv (piece_bytes (pmap s) i) (next_lease_id s) p"
    "available_pieces s ! i \<longleftrightarrow> missing_ranges p \<noteq> []"
    "missing_ranges p \<noteq> [] \<or> active_leases p \<noteq> []"
    "lease_count s i = length (active_leases p)" "avail_count s i = length (missing_ranges p)"
proof -
  show i: "i < piece_count (pmap s)" using sched_inv_bound [OF assms] .
  show "\<not> completed (pmap s) ! i" "ps_inv (piece_bytes (pmap s) i) (next_lease_id s) p"
    "available_pieces s ! i \<longleftrightarrow> missing_ranges p \<noteq> []" "missing_ranges p \<noteq> [] \<or> active_leases p \<noteq> []"
    using sched_inv_piece [OF assms(1) i] assms(2) by (simp_all add: piece_ok_def)
  show "lease_count s i = length (active_leases p)" "avail_count s i = length (missing_ranges p)"
    using assms(2) by (simp_all add: lease_count_def avail_count_def)
qed

text \<open>Every operation rewrites the state of one piece.  This lemma carries the
  invariant over such an update: the rest of the state is untouched and the
  counters move by the difference at that piece.\<close>

definition same_elsewhere :: "nat \<Rightarrow> scheduler_state \<Rightarrow> scheduler_state \<Rightarrow> bool" where
  "same_elsewhere i s s' \<longleftrightarrow>
     piece_count (pmap s') = piece_count (pmap s) \<and>
     piece_size (pmap s') = piece_size (pmap s) \<and> total_size (pmap s') = total_size (pmap s) \<and>
     length (available_pieces s') = length (available_pieces s) \<and>
     (\<forall>j. j \<noteq> i \<longrightarrow> bt_get (pieces s') j = bt_get (pieces s) j \<and>
        available_pieces s' ! j = available_pieces s ! j \<and>
        completed (pmap s') ! j = completed (pmap s) ! j) \<and>
     next_lease_id s \<le> next_lease_id s'"

lemma piece_bytes_cong:
  "piece_size m' = piece_size m \<Longrightarrow> total_size m' = total_size m \<Longrightarrow> piece_bytes m' i = piece_bytes m i"
  by (simp add: piece_bytes_def piece_range_def)

lemma sched_inv_update:
  assumes inv: "sched_inv s" and i: "i < piece_count (pmap s)" and same: "same_elsewhere i s s'"
    and map: "pm_inv (pmap s')" and bt: "bt_inv (pieces s')" and ok: "piece_ok s' i"
    and leases: "active_lease_count s' = active_lease_count s - lease_count s i + lease_count s' i"
    and avail: "available_range_count s' = available_range_count s - avail_count s i + avail_count s' i"
    and nxt: "next_candidate s' < piece_count (pmap s) \<or> next_candidate s' = 0"
  shows "sched_inv s'"
proof -
  note S = same [unfolded same_elsewhere_def]
  have cnt: "piece_count (pmap s') = piece_count (pmap s)" using S by blast
  have el: "\<And>j. j \<noteq> i \<Longrightarrow> bt_get (pieces s') j = bt_get (pieces s) j"
    "\<And>j. j \<noteq> i \<Longrightarrow> available_pieces s' ! j = available_pieces s ! j"
    "\<And>j. j \<noteq> i \<Longrightarrow> completed (pmap s') ! j = completed (pmap s) ! j"
    and nid: "next_lease_id s \<le> next_lease_id s'"
    using S by blast+
  have pb: "\<And>j. piece_bytes (pmap s') j = piece_bytes (pmap s) j"
    using S by (intro piece_bytes_cong) simp_all
  have "piece_ok s' j" if j: "j < piece_count (pmap s)" for j
  proof (cases "j = i")
    case False
    then show ?thesis
      using sched_inv_piece [OF inv j] el [OF False] ps_inv_mono [OF _ nid]
      by (auto simp: piece_ok_def pb split: option.splits)
  qed (use ok in simp)
  moreover have "\<And>j. bt_get (pieces s') j \<noteq> None \<Longrightarrow> j < piece_count (pmap s)"
    using sched_inv_bound [OF inv] el(1) i by (metis option.exhaust)
  moreover have "active_lease_count s' = (\<Sum>j < piece_count (pmap s). lease_count s' j)"
    using sum_update [OF i, of "lease_count s'" "lease_count s"] el(1) leases sched_inv_leases [OF inv]
    by (simp add: lease_count_def)
  moreover have "available_range_count s' = (\<Sum>j < piece_count (pmap s). avail_count s' j)"
    using sum_update [OF i, of "avail_count s'" "avail_count s"] el(1,3) avail sched_inv_avail [OF inv]
    by (simp add: avail_count_def)
  ultimately show ?thesis
    unfolding sched_inv_def using map bt nxt cnt sched_inv_length [OF inv] S by simp
qed

lemma full_range_bytes: "br_bytes (full_range s i) = piece_bytes (pmap s) i"
  by (simp add: full_range_def br_bytes_def piece_bytes_def split: prod.splits)

lemma full_range_ok: "sched_inv s \<Longrightarrow> i < piece_count (pmap s) \<Longrightarrow> br_ok (full_range s i)"
  using piece_range_bounds(1) [OF sched_inv_map, of s i]
  by (cases "piece_range (pmap s) i") (simp add: full_range_def br_ok_def)

lemma sum_count_missing:
  fixes n :: nat
  shows "(\<Sum>i<n. if P i then 0 else (1::nat)) = card {i. i < n \<and> \<not> P i}"
proof (induction n)
  case (Suc n)
  have "{i. i < Suc n \<and> \<not> P i} =
      (if P n then {i. i < n \<and> \<not> P i} else insert n {i. i < n \<and> \<not> P i})"
    by (auto simp: less_Suc_eq)
  then show ?case using Suc by simp
qed simp

lemma sched_new_simps [simp]:
  "pmap (sched_new m) = m" "pieces (sched_new m) = []"
  "available_pieces (sched_new m) = missing_bitset m" "active_lease_count (sched_new m) = 0"
  "available_range_count (sched_new m) = remaining_count m" "next_lease_id (sched_new m) = 1"
  "\<not> stopped (sched_new m)"
  by (simp_all add: sched_new_def)

lemma sched_inv_new:
  assumes "pm_inv m"
  shows "sched_inv (sched_new m)"
proof -
  have len: "length (missing_bitset m) = piece_count m"
    using pm_inv_length [OF assms] by (simp add: missing_bitset_def)
  have av: "remaining_count m = (\<Sum>i<piece_count m. avail_count (sched_new m) i)"
    using remaining_count_eq [OF assms] by (simp add: avail_count_def sum_count_missing)
  have ok: "\<forall>i<piece_count m. piece_ok (sched_new m) i"
    using len by (simp add: piece_ok_def missing_bitset_def)
  have nx: "next_candidate (sched_new m) < piece_count m \<or> next_candidate (sched_new m) = 0"
    by (simp add: sched_new_def first_missing_def)
  show ?thesis
    unfolding sched_inv_def sched_new_simps
    using assms len av ok nx by (simp add: lease_count_def)
qed

end
