(* ===== verification/Scheduler_Ops.thy ===== *)
theory Scheduler_Ops
  imports Scheduler
begin

text \<open>
  What the single-lease operations of the scheduler do: each keeps \<open>sched_inv\<close>
  and moves the byte ledger by exactly the abstract step its name promises.
\<close>

section \<open>The ledger of a scheduler state\<close>

definition piece_free :: "scheduler_state \<Rightarrow> nat \<Rightarrow> nat set" where
  "piece_free s i =
     (case bt_get (pieces s) i of
        None \<Rightarrow> if completed (pmap s) ! i then {} else piece_bytes (pmap s) i
      | Some p \<Rightarrow> free_bytes p)"

definition piece_leased :: "scheduler_state \<Rightarrow> nat \<Rightarrow> nat set" where
  "piece_leased s i =
     (case bt_get (pieces s) i of None \<Rightarrow> {} | Some p \<Rightarrow> leased_bytes p)"

definition piece_acked :: "scheduler_state \<Rightarrow> nat \<Rightarrow> nat set" where
  "piece_acked s i = piece_bytes (pmap s) i - piece_free s i - piece_leased s i"

definition lease_range :: "scheduler_state \<Rightarrow> lease_key \<Rightarrow> byte_range option" where
  "lease_range s key =
     (case bt_get (pieces s) (lk_piece_id key) of
        None \<Rightarrow> None
      | Some p \<Rightarrow> lease_of p (lk_lease_id key))"

definition sched_ledger :: "scheduler_state \<Rightarrow> ledger" where
  "sched_ledger s =
     \<lparr>lg_free = (\<Union>i < piece_count (pmap s). piece_free s i),
      lg_leases = lease_range s,
      lg_acked = (\<Union>i < piece_count (pmap s). piece_acked s i)\<rparr>"

lemma UN_update_diff:
  fixes f f' :: "nat \<Rightarrow> 'a set"
  assumes "\<And>j. j \<noteq> i \<Longrightarrow> f' j = f j" "f' i = f i - R" "\<And>j. j < n \<Longrightarrow> j \<noteq> i \<Longrightarrow> f j \<inter> R = {}"
  shows "(\<Union>j<n. f' j) = (\<Union>j<n. f j) - R"
proof (intro set_eqI iffI)
  fix x assume "x \<in> (\<Union>j<n. f' j)"
  then obtain j where "j < n" "x \<in> f' j" by blast
  then show "x \<in> (\<Union>j<n. f j) - R" using assms(1,2) assms(3) [of j] by (cases "j = i") auto
next
  fix x assume "x \<in> (\<Union>j<n. f j) - R"
  then obtain j where j: "j < n" "x \<in> f j" "x \<notin> R" by blast
  then have "x \<in> f' j" using assms(1,2) by (cases "j = i") auto
  then show "x \<in> (\<Union>j<n. f' j)" using j by blast
qed

lemma UN_update_plus:
  fixes f f' :: "nat \<Rightarrow> 'a set"
  assumes "\<And>j. j \<noteq> i \<Longrightarrow> f' j = f j" "f' i = f i \<union> R" "i < n"
  shows "(\<Union>j<n. f' j) = (\<Union>j<n. f j) \<union> R"
proof (intro set_eqI iffI)
  fix x assume "x \<in> (\<Union>j<n. f' j)"
  then obtain j where "j < n" "x \<in> f' j" by blast
  then show "x \<in> (\<Union>j<n. f j) \<union> R" using assms by (cases "j = i") auto
next
  fix x assume x: "x \<in> (\<Union>j<n. f j) \<union> R"
  show "x \<in> (\<Union>j<n. f' j)"
  proof (cases "x \<in> R")
    case True
    then show ?thesis using assms(2,3) by blast
  next
    case False
    then obtain j where j: "j < n" "x \<in> f j" using x by blast
    then have "x \<in> f' j" using assms(1,2) by (cases "j = i") auto
    then show ?thesis using j by blast
  qed
qed

lemma piece_free_subset:
  assumes "sched_inv s" "i < piece_count (pmap s)"
  shows "piece_free s i \<subseteq> piece_bytes (pmap s) i"
  using leases_okD(1) [OF ps_inv_leases [OF piece_okD(3) [OF assms(1)]]]
  by (auto simp: piece_free_def split: option.splits)

lemma piece_leased_subset:
  assumes "sched_inv s" "i < piece_count (pmap s)"
  shows "piece_leased s i \<subseteq> piece_bytes (pmap s) i"
proof (cases "bt_get (pieces s) i")
  case (Some p)
  note L = ps_inv_leases [OF piece_okD(3) [OF assms(1) Some]]
  show ?thesis
  proof
    fix b assume "b \<in> piece_leased s i"
    then obtain lid r where "lease_of p lid = Some r" "b \<in> br_bytes r"
      by (simp add: piece_leased_def Some leased_bytes_iff) blast
    then show "b \<in> piece_bytes (pmap s) i" using leases_okD(3) [OF L] by blast
  qed
qed (simp add: piece_leased_def)

lemma piece_free_leased:
  assumes "sched_inv s" "i < piece_count (pmap s)"
  shows "piece_free s i \<inter> piece_leased s i = {}"
proof (cases "bt_get (pieces s) i")
  case (Some p)
  note L = ps_inv_leases [OF piece_okD(3) [OF assms(1) Some]]
  show ?thesis
  proof (rule ccontr)
    assume "piece_free s i \<inter> piece_leased s i \<noteq> {}"
    then obtain b lid r where "b \<in> free_bytes p" "lease_of p lid = Some r" "b \<in> br_bytes r"
      by (simp add: piece_leased_def piece_free_def Some leased_bytes_iff disjoint_iff) blast
    then show False using leases_okD(5) [OF L] by blast
  qed
qed (simp add: piece_leased_def)

lemma lease_range_piece:
  assumes "sched_inv s" "lease_range s k = Some r"
  shows "lk_piece_id k < piece_count (pmap s)" "br_ok r"
    "br_bytes r \<subseteq> piece_leased s (lk_piece_id k)" "lk_lease_id k < next_lease_id s"
proof -
  obtain p where p: "bt_get (pieces s) (lk_piece_id k) = Some p" "lease_of p (lk_lease_id k) = Some r"
    using assms(2) by (auto simp: lease_range_def split: option.splits)
  note L = ps_inv_leases [OF piece_okD(3) [OF assms(1) p(1)]]
  show "lk_piece_id k < piece_count (pmap s)" using piece_okD(1) [OF assms(1) p(1)] .
  show "br_ok r" "lk_lease_id k < next_lease_id s" using leases_okD(2,4) [OF L p(2)] by auto
  show "br_bytes r \<subseteq> piece_leased s (lk_piece_id k)"
    using p leased_bytes_iff by (auto simp: piece_leased_def)
qed

lemma lease_range_disjoint:
  assumes inv: "sched_inv s" and k: "lease_range s k1 = Some r1" "lease_range s k2 = Some r2" "k1 \<noteq> k2"
  shows "br_bytes r1 \<inter> br_bytes r2 = {}"
proof (cases "lk_piece_id k1 = lk_piece_id k2")
  case True
  obtain p where p: "bt_get (pieces s) (lk_piece_id k1) = Some p" "lease_of p (lk_lease_id k1) = Some r1"
    using k(1) by (auto simp: lease_range_def split: option.splits)
  have p2: "lease_of p (lk_lease_id k2) = Some r2" using k(2) p(1) True by (simp add: lease_range_def)
  have "lk_lease_id k1 \<noteq> lk_lease_id k2" using True k(3) lease_key.expand by blast
  then show ?thesis using leases_okD(6) [OF ps_inv_leases [OF piece_okD(3) [OF inv p(1)]] p(2) p2] by blast
next
  case False
  note a = lease_range_piece [OF inv k(1)] and b = lease_range_piece [OF inv k(2)]
  have "piece_bytes (pmap s) (lk_piece_id k1) \<inter> piece_bytes (pmap s) (lk_piece_id k2) = {}"
    using piece_bytes_disjoint [OF sched_inv_map [OF inv] a(1) b(1) False] .
  then show ?thesis
    using a(3) b(3) piece_leased_subset [OF inv a(1)] piece_leased_subset [OF inv b(1)] by blast
qed

lemma covered_leases:
  assumes "sched_inv s"
  shows "covered (lease_range s) = (\<Union>i < piece_count (pmap s). piece_leased s i)"
proof (intro set_eqI iffI)
  fix b assume "b \<in> covered (lease_range s)"
  then obtain k r where k: "lease_range s k = Some r" "b \<in> br_bytes r" unfolding covered_def by blast
  show "b \<in> (\<Union>i < piece_count (pmap s). piece_leased s i)"
    using lease_range_piece(1,3) [OF assms k(1)] k(2) by blast
next
  fix b assume "b \<in> (\<Union>i < piece_count (pmap s). piece_leased s i)"
  then obtain i where i: "b \<in> piece_leased s i" by blast
  then obtain p where p: "bt_get (pieces s) i = Some p" "b \<in> leased_bytes p"
    by (cases "bt_get (pieces s) i") (simp_all add: piece_leased_def)
  obtain lid r where l: "lease_of p lid = Some r" "b \<in> br_bytes r"
    using p(2) unfolding leased_bytes_iff by blast
  then have "lease_range s (LeaseKey i lid) = Some r" using p(1) by (simp add: lease_range_def)
  then show "b \<in> covered (lease_range s)" using l(2) by (rule coveredI)
qed

lemma UN_pieces:
  assumes "pm_inv m"
  shows "(\<Union>i < piece_count m. piece_bytes m i) = {0..<total_size m}"
  using piece_bytes_mem [OF assms] piece_of_byte [OF assms] by auto

lemma UN_disjoint_pieces:
  assumes "pm_inv m" "\<And>i. i < piece_count m \<Longrightarrow> f i \<subseteq> piece_bytes m i"
    "\<And>i. i < piece_count m \<Longrightarrow> g i \<subseteq> piece_bytes m i"
    "\<And>i. i < piece_count m \<Longrightarrow> f i \<inter> g i = {}"
  shows "(\<Union>i < piece_count m. f i) \<inter> (\<Union>i < piece_count m. g i) = {}"
proof (rule ccontr)
  assume "\<not> ?thesis"
  then obtain b i j where ij: "i < piece_count m" "j < piece_count m" "b \<in> f i" "b \<in> g j" by blast
  then have "i = j" using assms(1-3) piece_bytes_disjoint [OF assms(1) ij(1,2)] by blast
  then show False using ij assms(4) by blast
qed

text \<open>The three classes partition the file.\<close>

lemma sched_ledger_inv:
  assumes inv: "sched_inv s"
  shows "ledger_inv (total_size (pmap s)) (sched_ledger s)"
proof -
  let ?n = "piece_count (pmap s)"
  note m = sched_inv_map [OF inv]
  note F = piece_free_subset [OF inv] and L = piece_leased_subset [OF inv]
  have A: "\<And>i. i < ?n \<Longrightarrow> piece_acked s i \<subseteq> piece_bytes (pmap s) i" by (auto simp: piece_acked_def)
  have t: "table_ok (lease_range s)"
    unfolding table_ok_def
    using lease_range_piece(2) [OF inv] lease_range_disjoint [OF inv] by blast
  have "\<And>i. i < ?n \<Longrightarrow> piece_free s i \<union> piece_leased s i \<union> piece_acked s i = piece_bytes (pmap s) i"
    using F L by (auto simp: piece_acked_def)
  then have "(\<Union>i<?n. piece_free s i) \<union> (\<Union>i<?n. piece_leased s i) \<union> (\<Union>i<?n. piece_acked s i)
      = (\<Union>i<?n. piece_bytes (pmap s) i)"
    by (simp only: UN_Un_distrib [symmetric]) (intro SUP_cong refl, simp)
  then have all: "(\<Union>i<?n. piece_free s i) \<union> (\<Union>i<?n. piece_leased s i) \<union> (\<Union>i<?n. piece_acked s i)
      = {0..<total_size (pmap s)}" using UN_pieces [OF m] by simp
  show ?thesis
  proof (rule ledger_invI)
    show "table_ok (lg_leases (sched_ledger s))" using t by (simp add: sched_ledger_def)
    show "covered (lg_leases (sched_ledger s)) = (\<Union>i<?n. piece_leased s i)"
      using covered_leases [OF inv] by (simp add: sched_ledger_def)
    show "lg_free (sched_ledger s) = (\<Union>i<?n. piece_free s i)"
      "lg_acked (sched_ledger s) = (\<Union>i<?n. piece_acked s i)" by (simp_all add: sched_ledger_def)
    show "(\<Union>i<?n. piece_leased s i) \<inter> (\<Union>i<?n. piece_free s i) = {}"
      by (intro UN_disjoint_pieces m F L) (simp_all add: piece_free_leased [OF inv] Int_commute)
    show "(\<Union>i<?n. piece_leased s i) \<inter> (\<Union>i<?n. piece_acked s i) = {}"
      by (intro UN_disjoint_pieces m L A) (auto simp: piece_acked_def)
    show "(\<Union>i<?n. piece_free s i) \<inter> (\<Union>i<?n. piece_acked s i) = {}"
      by (intro UN_disjoint_pieces m F A) (auto simp: piece_acked_def)
  qed (use all in \<open>simp only: Un_assoc\<close>)
qed

section \<open>Updating one piece\<close>

lemma elsewhere:
  assumes "same_elsewhere i s s'"
  shows "piece_count (pmap s') = piece_count (pmap s)" "total_size (pmap s') = total_size (pmap s)"
    "\<And>j. piece_bytes (pmap s') j = piece_bytes (pmap s) j"
    "\<And>j. j \<noteq> i \<Longrightarrow> piece_free s' j = piece_free s j"
    "\<And>j. j \<noteq> i \<Longrightarrow> piece_leased s' j = piece_leased s j"
    "\<And>j. j \<noteq> i \<Longrightarrow> piece_acked s' j = piece_acked s j"
    "\<And>k. lk_piece_id k \<noteq> i \<Longrightarrow> lease_range s' k = lease_range s k"
proof -
  note S = assms [unfolded same_elsewhere_def]
  show "piece_count (pmap s') = piece_count (pmap s)" "total_size (pmap s') = total_size (pmap s)"
    using S by simp_all
  show pb: "\<And>j. piece_bytes (pmap s') j = piece_bytes (pmap s) j"
    using S by (intro piece_bytes_cong) simp_all
  show f: "\<And>j. j \<noteq> i \<Longrightarrow> piece_free s' j = piece_free s j"
    using S by (simp add: piece_free_def pb split: option.split)
  show l: "\<And>j. j \<noteq> i \<Longrightarrow> piece_leased s' j = piece_leased s j"
    using S by (simp add: piece_leased_def)
  show "\<And>j. j \<noteq> i \<Longrightarrow> piece_acked s' j = piece_acked s j"
    using f l pb by (simp add: piece_acked_def)
  show "\<And>k. lk_piece_id k \<noteq> i \<Longrightarrow> lease_range s' k = lease_range s k"
    using S by (simp add: lease_range_def)
qed

lemma ledger_free_minus:
  assumes inv: "sched_inv s" and i: "i < piece_count (pmap s)" and same: "same_elsewhere i s s'"
    and f: "piece_free s' i = piece_free s i - R" "R \<subseteq> piece_bytes (pmap s) i"
  shows "lg_free (sched_ledger s') = lg_free (sched_ledger s) - R"
proof -
  have "piece_free s j \<inter> R = {}" if j: "j < piece_count (pmap s)" "j \<noteq> i" for j
    using piece_free_subset [OF inv j(1)] f(2)
      piece_bytes_disjoint [OF sched_inv_map [OF inv] j(1) i j(2)] by blast
  then show ?thesis
    using UN_update_diff [of i "piece_free s'" "piece_free s" R "piece_count (pmap s)"]
      elsewhere(4) [OF same] f(1) by (simp add: sched_ledger_def elsewhere(1) [OF same])
qed

lemma ledger_free_plus:
  assumes "i < piece_count (pmap s)" "same_elsewhere i s s'" "piece_free s' i = piece_free s i \<union> R"
  shows "lg_free (sched_ledger s') = lg_free (sched_ledger s) \<union> R"
  using UN_update_plus [of i "piece_free s'" "piece_free s" R "piece_count (pmap s)"]
    elsewhere(1,4) [OF assms(2)] assms(1,3) by (simp add: sched_ledger_def)

lemma ledger_acked_plus:
  assumes "i < piece_count (pmap s)" "same_elsewhere i s s'" "piece_acked s' i = piece_acked s i \<union> R"
  shows "lg_acked (sched_ledger s') = lg_acked (sched_ledger s) \<union> R"
  using UN_update_plus [of i "piece_acked s'" "piece_acked s" R "piece_count (pmap s)"]
    elsewhere(1,6) [OF assms(2)] assms(1,3) by (simp add: sched_ledger_def)

lemma ledger_leases_at:
  assumes "same_elsewhere i s s'" "bt_get (pieces s') i = Some p'"
  shows "lease_range s' = (\<lambda>k. if lk_piece_id k = i then lease_of p' (lk_lease_id k) else lease_range s k)"
  using elsewhere(7) [OF assms(1)] assms(2) by (auto simp: fun_eq_iff lease_range_def)

text \<open>The runtime state \<open>issue_lease\<close> works on.\<close>

definition piece_of :: "scheduler_state \<Rightarrow> nat \<Rightarrow> piece_state" where
  "piece_of s i = (case bt_get (pieces s) i of Some p \<Rightarrow> p | None \<Rightarrow> ps_new (full_range s i))"

lemma piece_of:
  assumes inv: "sched_inv s" and i: "i < piece_count (pmap s)" and nc: "\<not> completed (pmap s) ! i"
  shows "ps_inv (piece_bytes (pmap s) i) (next_lease_id s) (piece_of s i)"
    and "free_bytes (piece_of s i) = piece_free s i"
    and "leased_bytes (piece_of s i) = piece_leased s i"
    and "length (missing_ranges (piece_of s i)) = avail_count s i"
    and "length (active_leases (piece_of s i)) = lease_count s i"
    and "lease_of (piece_of s i) lid = lease_range s (LeaseKey i lid)"
    and "missing_ranges (piece_of s i) \<noteq> [] \<longleftrightarrow> available_pieces s ! i"
    and "missing_ranges (piece_of s i) \<noteq> [] \<or> active_leases (piece_of s i) \<noteq> []"
proof -
  have fr: "full_range s i = \<lparr>br_start = br_start (full_range s i), br_end = br_end (full_range s i)\<rparr>"
    by simp
  have lt: "br_start (full_range s i) < br_end (full_range s i)"
    using full_range_ok [OF inv i] by (simp add: br_ok_def)
  have r: "{br_start (full_range s i)..<br_end (full_range s i)} = piece_bytes (pmap s) i"
    using full_range_bytes [of s i] by (simp add: br_bytes_def)
  have new: "ps_inv (piece_bytes (pmap s) i) (next_lease_id s) (ps_new (full_range s i))"
    using ps_inv_new [OF lt, of "next_lease_id s"] unfolding fr [symmetric] r .
  have one: "rs_new_full (br_start (full_range s i)) (br_end (full_range s i)) = [full_range s i]"
    using lt by (simp add: rs_new_full_def byte_range_new_def)
  show "ps_inv (piece_bytes (pmap s) i) (next_lease_id s) (piece_of s i)"
    using new piece_okD(3) [OF inv, of i] by (auto simp: piece_of_def split: option.split)
  show "free_bytes (piece_of s i) = piece_free s i"
    using nc by (simp add: piece_of_def piece_free_def full_range_bytes split: option.split)
  show "leased_bytes (piece_of s i) = piece_leased s i"
    by (simp add: piece_of_def piece_leased_def split: option.split)
  show "length (missing_ranges (piece_of s i)) = avail_count s i"
    using nc one by (simp add: piece_of_def avail_count_def split: option.split)
  show "length (active_leases (piece_of s i)) = lease_count s i"
    by (simp add: piece_of_def lease_count_def split: option.split)
  show "lease_of (piece_of s i) lid = lease_range s (LeaseKey i lid)"
    by (simp add: piece_of_def lease_range_def split: option.split)
  show "missing_ranges (piece_of s i) \<noteq> [] \<longleftrightarrow> available_pieces s ! i"
    using sched_inv_piece [OF inv i] one nc
    by (auto simp: piece_of_def piece_ok_def split: option.splits)
  show "missing_ranges (piece_of s i) \<noteq> [] \<or> active_leases (piece_of s i) \<noteq> []"
    using piece_okD(5) [OF inv, of i] one by (simp add: piece_of_def split: option.split)
qed

section \<open>Issuing\<close>

lemma issue_lease_stopped: "stopped s \<Longrightarrow> issue_lease s i r w = (s, None)"
  by (simp add: issue_lease_def)

lemma issue_lease_alt:
  "\<not> stopped s \<Longrightarrow> issue_lease s i r w =
     (case ps_issue_lease (piece_of s i) r w (next_lease_id s) i of
        None \<Rightarrow> (s\<lparr>pieces := bt_insert i (piece_of s i) (pieces s)\<rparr>, None)
      | Some (seg, p', nid') \<Rightarrow>
          (s\<lparr>pieces := bt_insert i p' (pieces s), next_lease_id := nid',
             available_range_count :=
               sub_u64 (available_range_count s) (length (missing_ranges (piece_of s i)))
                 + length (missing_ranges p'),
             active_lease_count := active_lease_count s + 1,
             available_pieces := (available_pieces s)[i := missing_ranges p' \<noteq> []]\<rparr>, Some seg))"
  by (simp add: issue_lease_def piece_of_def missing_range_count_def Let_def split: option.split)

lemma ledger_ext:
  "lg_free a = lg_free b \<Longrightarrow> lg_leases a = lg_leases b \<Longrightarrow> lg_acked a = lg_acked b \<Longrightarrow> a = (b::ledger)"
  by (rule ledger.equality) simp_all

text \<open>A refused range leaves the ledger alone.\<close>

lemma issue_lease_None:
  assumes inv: "sched_inv s" and i: "i < piece_count (pmap s)" and nc: "\<not> completed (pmap s) ! i"
    and issue: "issue_lease s i r w = (s', None)"
  shows "sched_inv s'" "sched_ledger s' = sched_ledger s" "pmap s' = pmap s" "stopped s' = stopped s"
    "next_lease_id s' = next_lease_id s"
proof -
  have *: "sched_inv s' \<and> sched_ledger s' = sched_ledger s \<and> pmap s' = pmap s \<and>
      stopped s' = stopped s \<and> next_lease_id s' = next_lease_id s"
  proof (cases "stopped s")
    case True
    then show ?thesis using issue inv by (simp add: issue_lease_stopped)
  next
    case False
    have s': "s' = s\<lparr>pieces := bt_insert i (piece_of s i) (pieces s)\<rparr>"
      using issue by (auto simp: issue_lease_alt [OF False] split: option.splits)
    note P = piece_of [OF inv i nc]
    have same: "same_elsewhere i s s'" by (simp add: s' same_elsewhere_def)
    have get: "bt_get (pieces s') i = Some (piece_of s i)" by (simp add: s')
    have cnt: "avail_count s' i = avail_count s i" "lease_count s' i = lease_count s i"
      using P(4,5) get by (simp_all add: avail_count_def lease_count_def)
    have ok: "piece_ok s' i"
      unfolding piece_ok_def get option.case using P(1,7,8) nc by (simp add: s')
    have "sched_inv s'"
      using inv i same
      by (rule sched_inv_update)
        (use ok cnt sched_invD [OF inv] lease_count_le [OF inv i] avail_count_le [OF inv i] in
          \<open>simp_all add: s'\<close>)
    moreover have "lg_free (sched_ledger s') = lg_free (sched_ledger s) \<union> {}"
      using P(2) get by (intro ledger_free_plus [OF i same]) (simp add: piece_free_def)
    moreover have "lg_acked (sched_ledger s') = lg_acked (sched_ledger s) \<union> {}"
      using P(2,3) get
      by (intro ledger_acked_plus [OF i same])
        (simp add: piece_acked_def elsewhere(3) [OF same], simp add: piece_free_def piece_leased_def)
    moreover have "lease_range s' = lease_range s"
    proof
      fix k show "lease_range s' k = lease_range s k"
        using P(6) [of "lk_lease_id k"] by (cases k) (simp add: ledger_leases_at [OF same get])
    qed
    ultimately show ?thesis
      by (simp add: s' ledger_ext) (rule ledger_ext; simp add: sched_ledger_def)
  qed
  show "sched_inv s'" "sched_ledger s' = sched_ledger s" "pmap s' = pmap s" "stopped s' = stopped s"
    "next_lease_id s' = next_lease_id s" using * by blast+
qed

lemma sched_inv_put:
  assumes inv: "sched_inv s" and i: "i < piece_count (pmap s)" and nc: "\<not> completed (pmap s) ! i"
    and same: "same_elsewhere i s s'" and map: "pmap s' = pmap s" and bt: "bt_inv (pieces s')"
    and get: "bt_get (pieces s') i = Some p'"
    and ps: "ps_inv (piece_bytes (pmap s) i) (next_lease_id s') p'"
    and av: "available_pieces s' ! i \<longleftrightarrow> missing_ranges p' \<noteq> []"
    and ne: "missing_ranges p' \<noteq> [] \<or> active_leases p' \<noteq> []"
    and lc: "active_lease_count s' = active_lease_count s - lease_count s i + length (active_leases p')"
    and ac: "available_range_count s' = available_range_count s - avail_count s i + length (missing_ranges p')"
    and nx: "next_candidate s' < piece_count (pmap s) \<or> next_candidate s' = 0"
  shows "sched_inv s'"
proof -
  have "lease_count s' i = length (active_leases p')" "avail_count s' i = length (missing_ranges p')"
    using get by (simp_all add: lease_count_def avail_count_def)
  moreover have "piece_ok s' i" unfolding piece_ok_def get option.case map using ps av ne nc by simp
  ultimately show ?thesis
    using sched_inv_update [OF inv i same _ bt _ _ _ nx] sched_inv_map [OF inv] map lc ac by simp
qed

text \<open>The ledger after a piece update, from the change of its free bytes and its
  lease table.\<close>

lemma piece_leased_get:
  "bt_get (pieces s) i = Some p \<Longrightarrow> piece_leased s i = lease_union (lease_of p)"
  by (simp add: piece_leased_def leased_bytes_union)

lemma piece_leased_of: "piece_leased s i = lease_union (\<lambda>lid. lease_range s (LeaseKey i lid))"
  by (cases "bt_get (pieces s) i")
    (simp_all add: piece_leased_def leased_bytes_union lease_range_def lease_union_def)

lemma lease_key_fun:
  "(\<lambda>k. if lk_piece_id k = i then (f(lid := v)) (lk_lease_id k) else g k) =
     (\<lambda>k. if lk_piece_id k = i then f (lk_lease_id k) else g k)(LeaseKey i lid := v)"
proof
  fix k show "(if lk_piece_id k = i then (f(lid := v)) (lk_lease_id k) else g k) =
     ((\<lambda>k. if lk_piece_id k = i then f (lk_lease_id k) else g k)(LeaseKey i lid := v)) k"
    by (cases k) auto
qed

lemma lease_range_at:
  "lease_range s = (\<lambda>k. if lk_piece_id k = i then lease_range s (LeaseKey i (lk_lease_id k)) else lease_range s k)"
proof
  fix k show "lease_range s k = (if lk_piece_id k = i then lease_range s (LeaseKey i (lk_lease_id k)) else lease_range s k)"
    by (cases k) auto
qed

lemma lease_table_upd:
  assumes "same_elsewhere i s s'" "bt_get (pieces s') i = Some p'"
    "lease_of p' = (\<lambda>lid. lease_range s (LeaseKey i lid))(lid := v)"
  shows "lease_range s' = (lease_range s)(LeaseKey i lid := v)"
  using lease_key_fun [of i "\<lambda>lid. lease_range s (LeaseKey i lid)" lid v "lease_range s"]
  unfolding ledger_leases_at [OF assms(1,2)] assms(3) lease_range_at [of s i, symmetric] by simp

lemma issue_lease_Some:
  assumes inv: "sched_inv s" and i: "i < piece_count (pmap s)" and nc: "\<not> completed (pmap s) ! i"
    and r: "br_ok r" and room: "next_lease_id s < u64_max"
    and issue: "issue_lease s i r w = (s', Some seg)"
  shows "sched_inv s'"
    and "ledger_tau (sched_ledger s) (sched_ledger s')"
    and "lease_range s' = (lease_range s)(LeaseKey i (next_lease_id s) \<mapsto> r)"
    and "br_bytes r \<subseteq> piece_free s i"
    and "seg_piece_id seg = i" "seg_lease_id seg = next_lease_id s"
      "seg_start seg = br_start r" "seg_end seg = br_end r" "owner_worker_id seg = w"
      "attempt seg = sat_add_u32 (attempt_counter (piece_of s i)) 1"
    and "pmap s' = pmap s" "stopped s' = stopped s" "next_lease_id s' = Suc (next_lease_id s)"
      "next_candidate s' = next_candidate s" "same_elsewhere i s s'"
      "active_lease_count s' = Suc (active_lease_count s)"
      "piece_free s' i = piece_free s i - br_bytes r"
proof -
  have ns: "\<not> stopped s" using issue by (auto simp: issue_lease_def)
  obtain p' nid' where ps: "ps_issue_lease (piece_of s i) r w (next_lease_id s) i = Some (seg, p', nid')"
    using issue by (auto simp: issue_lease_alt [OF ns] split: option.splits)
  note P = piece_of [OF inv i nc]
  note I = ps_issue_Some [OF P(1) r room ps]
  have s': "s' = s\<lparr>pieces := bt_insert i p' (pieces s), next_lease_id := nid',
      available_range_count := sub_u64 (available_range_count s) (avail_count s i)
        + length (missing_ranges p'),
      active_lease_count := active_lease_count s + 1,
      available_pieces := (available_pieces s)[i := missing_ranges p' \<noteq> []]\<rparr>"
    using issue ps P(4) by (simp add: issue_lease_alt [OF ns])
  show same: "same_elsewhere i s s'"
    by (simp add: s' same_elsewhere_def I(1))
  have get: "bt_get (pieces s') i = Some p'" by (simp add: s')
  have len: "length (active_leases p') = Suc (lease_count s i)" using I(11) P(5) by simp
  show "sched_inv s'"
    using inv i nc same
    by (rule sched_inv_put)
      (use get I(12,14) len sched_invD [OF inv] lease_count_le [OF inv i] avail_count_le [OF inv i] i
        in \<open>simp_all add: s'\<close>)
  have fb: "piece_free s' i = free_bytes p'" using get by (simp add: piece_free_def)
  show pf: "piece_free s' i = piece_free s i - br_bytes r" using I(9) P(2) fb by simp
  show sub: "br_bytes r \<subseteq> piece_free s i" using I(8) P(2) by simp
  show lr: "lease_range s' = (lease_range s)(LeaseKey i (next_lease_id s) \<mapsto> r)"
    using I(10) P(6) by (intro lease_table_upd [OF same get]) (simp add: fun_eq_iff)
  have fresh: "lease_range s (LeaseKey i (next_lease_id s)) = None"
    using lease_range_piece(4) [OF inv, of "LeaseKey i (next_lease_id s)"]
    by (cases "lease_range s (LeaseKey i (next_lease_id s))") simp_all
  have pl: "piece_leased s' i = piece_leased s i \<union> br_bytes r"
    using lease_union_upd [of "lease_of (piece_of s i)" "next_lease_id s" r] I(10) fresh P(3,6)
    by (simp add: piece_leased_get [OF get] leased_bytes_union)
  have in_free: "br_bytes r \<subseteq> lg_free (sched_ledger s)"
    using sub i by (auto simp: sched_ledger_def)
  have fr: "lg_free (sched_ledger s') = lg_free (sched_ledger s) - br_bytes r"
    using sub piece_free_subset [OF inv i] by (intro ledger_free_minus [OF inv i same pf]) blast
  have ack: "lg_acked (sched_ledger s') = lg_acked (sched_ledger s) \<union> {}"
    using pf pl sub
    by (intro ledger_acked_plus [OF i same]) (auto simp: piece_acked_def elsewhere(3) [OF same])
  have "sched_ledger s' = (sched_ledger s)\<lparr>lg_free := lg_free (sched_ledger s) - br_bytes r,
      lg_leases := (lg_leases (sched_ledger s))(LeaseKey i (next_lease_id s) \<mapsto> r)\<rparr>"
    using fr ack lr by (intro ledger_ext) (simp_all add: sched_ledger_def)
  then show "ledger_tau (sched_ledger s) (sched_ledger s')"
    using tau_issue [OF r in_free, of "LeaseKey i (next_lease_id s)"] fresh
    by (simp add: sched_ledger_def)
  show "seg_piece_id seg = i" "seg_lease_id seg = next_lease_id s"
    "seg_start seg = br_start r" "seg_end seg = br_end r" "owner_worker_id seg = w"
    "attempt seg = sat_add_u32 (attempt_counter (piece_of s i)) 1" using I(2-7) by simp_all
  show "pmap s' = pmap s" "stopped s' = stopped s" "next_lease_id s' = Suc (next_lease_id s)"
    "next_candidate s' = next_candidate s" "active_lease_count s' = Suc (active_lease_count s)"
    using I(1) by (simp_all add: s')
qed

text \<open>Issuing succeeds exactly when the range is free.\<close>

lemma issue_lease_succeeds:
  assumes inv: "sched_inv s" and i: "i < piece_count (pmap s)" and nc: "\<not> completed (pmap s) ! i"
    and r: "br_ok r" and ns: "\<not> stopped s" and sub: "br_bytes r \<subseteq> piece_free s i"
  shows "\<exists>s' seg. issue_lease s i r w = (s', Some seg)"
  using ps_issue_None [OF piece_of(1) [OF inv i nc] r, of w i] sub piece_of(2) [OF inv i nc]
  by (auto simp: issue_lease_alt [OF ns] split: option.splits)

section \<open>Choosing a range\<close>

text \<open>The part of a range that is assigned: a non-empty prefix of it.\<close>

lemma assignment_range_prefix:
  assumes "br_ok r" "br_end r \<le> u64_max"
  shows "br_start (assignment_range_for s r n m) = br_start r"
    and "br_ok (assignment_range_for s r n m)"
    and "br_end (assignment_range_for s r n m) \<le> br_end r"
proof -
  let ?a = "assignment_range_for s r n m"
  define len where "len = br_end r - br_start r"
  have "?a = r \<or> (\<exists>k. 0 < m \<and> m \<le> k \<and> k < len \<and> ?a = \<lparr>br_start = br_start r, br_end = br_start r + k\<rparr>)"
  proof -
    have sub: "sub_u64 (br_end r) (br_start r) = len" using assms(1) by (simp add: len_def br_ok_def)
    have add: "k < len \<Longrightarrow> add_u64 (br_start r) k = br_start r + k" for k
      using assms(2) by (intro add_u64_exact) (simp add: len_def)
    show ?thesis
      unfolding assignment_range_for_def Let_def sub
      by (split if_split, simp)+ (auto simp: add not_le)
  qed
  then show "br_start ?a = br_start r" "br_ok ?a" "br_end ?a \<le> br_end r"
    using assms(1) by (auto simp: len_def br_ok_def)
qed

lemma next_available_piece_Some:
  assumes "next_available_piece s = Some i" "length (available_pieces s) = n"
    "next_candidate s < n \<or> next_candidate s = 0"
  shows "i < n" "available_pieces s ! i"
  using assms
  by (auto simp: next_available_piece_def first_one_Some first_one_None split: option.splits)

lemma next_available_piece_None:
  assumes "next_available_piece s = None" "i < length (available_pieces s)"
    "next_candidate s \<le> length (available_pieces s)"
  shows "\<not> available_pieces s ! i"
proof (cases "i < next_candidate s")
  case True
  have "first_one (take (next_candidate s) (available_pieces s)) = None"
    using assms(1) by (simp add: next_available_piece_def split: option.splits)
  then show ?thesis using True assms(2) by (simp add: first_one_None)
next
  case False
  have "first_one (drop (next_candidate s) (available_pieces s)) = None"
    using assms(1) by (simp add: next_available_piece_def split: option.splits)
  then have "\<forall>j < length (available_pieces s) - next_candidate s.
      \<not> available_pieces s ! (next_candidate s + j)"
    using assms(3) by (simp add: first_one_None)
  then have "\<not> available_pieces s ! (next_candidate s + (i - next_candidate s))"
    using False assms(2) by (elim allE [where x = "i - next_candidate s"]) simp
  then show ?thesis using False by simp
qed

lemma available_iff:
  assumes "sched_inv s" "i < piece_count (pmap s)"
  shows "available_pieces s ! i \<longleftrightarrow> piece_free s i \<noteq> {}"
proof (cases "bt_get (pieces s) i")
  case None
  have "piece_bytes (pmap s) i \<noteq> {}"
    using full_range_ok [OF assms] full_range_bytes [of s i] br_bytes_empty by metis
  then show ?thesis using sched_inv_piece [OF assms] None by (simp add: piece_ok_def piece_free_def)
next
  case (Some p)
  then show ?thesis
    using piece_okD(3,4) [OF assms(1) Some] free_empty_iff by (simp add: piece_free_def)
qed

lemma available_not_complete:
  assumes "sched_inv s" "i < piece_count (pmap s)" "available_pieces s ! i"
  shows "\<not> completed (pmap s) ! i"
  using sched_inv_piece [OF assms(1,2)] assms(3) by (auto simp: piece_ok_def split: option.splits)

lemma avail_count_zero:
  assumes "sched_inv s" "i < piece_count (pmap s)"
  shows "avail_count s i = 0 \<longleftrightarrow> \<not> available_pieces s ! i"
  using sched_inv_piece [OF assms] by (auto simp: piece_ok_def avail_count_def split: option.splits)

lemma available_range_count_zero:
  assumes "sched_inv s"
  shows "available_range_count s = 0 \<longleftrightarrow> (\<forall>i < piece_count (pmap s). \<not> available_pieces s ! i)"
  using avail_count_zero [OF assms] by (simp add: sched_inv_avail [OF assms] Ball_def)

text \<open>The candidate range of an available piece.\<close>

definition candidate_range :: "scheduler_state \<Rightarrow> nat \<Rightarrow> byte_range option" where
  "candidate_range s i =
     (case bt_get (pieces s) i of
        Some piece \<Rightarrow> next_assignable_range piece
      | None \<Rightarrow> Some (full_range s i))"

lemma piece_bytes_u64:
  assumes "sched_inv s" "i < piece_count (pmap s)" "br_bytes r \<subseteq> piece_bytes (pmap s) i" "br_ok r"
  shows "br_end r \<le> u64_max"
proof -
  have "br_end r - 1 \<in> br_bytes r" using assms(4) by (auto simp: br_bytes_def br_ok_def)
  then have "br_end r - 1 < total_size (pmap s)"
    using assms(3) piece_bytes_mem [OF sched_inv_map [OF assms(1)] assms(2)] by blast
  then show ?thesis
    using pm_inv_geometry [OF sched_inv_map [OF assms(1)]] unfolding geometry_ok_def by linarith
qed

lemma candidate_range_Some:
  assumes inv: "sched_inv s" and i: "i < piece_count (pmap s)" and av: "available_pieces s ! i"
  shows "\<exists>r. candidate_range s i = Some r \<and> br_ok r \<and> br_bytes r \<subseteq> piece_free s i"
proof (cases "bt_get (pieces s) i")
  case None
  then show ?thesis
    using full_range_ok [OF inv i] full_range_bytes [of s i] available_not_complete [OF inv i av]
    by (simp add: candidate_range_def piece_free_def)
next
  case (Some p)
  note D = piece_okD(3,4) [OF inv Some]
  obtain r rs where r: "missing_ranges p = r # rs" using D(2) av by (cases "missing_ranges p") auto
  have "br_ok r" using ps_inv_missing [OF D(1)] r by (simp add: rs_inv_Cons)
  then show ?thesis
    by (simp add: candidate_range_def Some next_assignable_range_def rs_first_def r piece_free_def
        free_bytes_def)
qed

lemma assign_alt:
  "assign_to_with_split s w n m =
     (if available_range_count s = 0 then (s, None)
      else case next_available_piece s of
        None \<Rightarrow> (s, None)
      | Some i \<Rightarrow>
          (case candidate_range s i of
             None \<Rightarrow> (s, None)
           | Some r \<Rightarrow>
               (case issue_lease s i (assignment_range_for s r n m) w of
                  (s', None) \<Rightarrow> (s', None)
                | (s', Some seg) \<Rightarrow>
                    (s'\<lparr>next_candidate := (i + 1) mod piece_count (pmap s')\<rparr>, Some seg))))"
  unfolding assign_to_with_split_def candidate_range_def Let_def by (rule refl)

lemma candidate_assignment:
  assumes inv: "sched_inv s" and i: "i < piece_count (pmap s)" and av: "available_pieces s ! i"
    and c: "candidate_range s i = Some r"
  shows "br_ok (assignment_range_for s r n m)"
    "br_bytes (assignment_range_for s r n m) \<subseteq> piece_free s i"
    "br_start (assignment_range_for s r n m) = br_start r"
proof -
  have r: "br_ok r" "br_bytes r \<subseteq> piece_free s i"
    using candidate_range_Some [OF inv i av] c by auto
  then have "br_end r \<le> u64_max"
    using piece_bytes_u64 [OF inv i] piece_free_subset [OF inv i] by blast
  note A = assignment_range_prefix [OF r(1) this, of s n m]
  show "br_ok (assignment_range_for s r n m)" "br_start (assignment_range_for s r n m) = br_start r"
    by (rule A)+
  have "br_bytes (assignment_range_for s r n m) \<subseteq> br_bytes r"
    using A by (auto simp: br_bytes_def)
  then show "br_bytes (assignment_range_for s r n m) \<subseteq> piece_free s i" using r(2) by blast
qed

lemma sched_ledger_view:
  assumes "pmap s' = pmap s" "pieces s' = pieces s"
  shows "sched_ledger s' = sched_ledger s"
  unfolding sched_ledger_def piece_acked_def piece_free_def piece_leased_def lease_range_def [abs_def]
    assms by (rule refl)

lemma sched_inv_view:
  assumes "sched_inv s" "pmap s' = pmap s" "pieces s' = pieces s"
    "available_pieces s' = available_pieces s" "next_lease_id s' = next_lease_id s"
    "active_lease_count s' = active_lease_count s" "available_range_count s' = available_range_count s"
    "next_candidate s' < piece_count (pmap s) \<or> next_candidate s' = 0"
  shows "sched_inv s'"
  using assms(1,8) unfolding sched_inv_def piece_ok_def lease_count_def avail_count_def assms(2-7)
  by (elim conjE) (intro conjI)

lemma sched_ledger_cursor [simp]:
  "sched_ledger (s\<lparr>next_candidate := c\<rparr>) = sched_ledger s"
  "sched_ledger (s\<lparr>stopped := b\<rparr>) = sched_ledger s"
  "sched_ledger (s\<lparr>snapshot_seq := q\<rparr>) = sched_ledger s"
  by (rule sched_ledger_view; simp)+

lemma assign_Some:
  assumes inv: "sched_inv s" and room: "next_lease_id s < u64_max"
    and asg: "assign_to_with_split s w n m = (s', Some seg)"
  obtains i r s1 where "i < piece_count (pmap s)" "available_pieces s ! i" "candidate_range s i = Some r"
    "issue_lease s i (assignment_range_for s r n m) w = (s1, Some seg)"
    "s' = s1\<lparr>next_candidate := (i + 1) mod piece_count (pmap s)\<rparr>"
    "sched_inv s'" "ledger_tau (sched_ledger s) (sched_ledger s')"
    "next_lease_id s' = Suc (next_lease_id s)"
proof -
  obtain i r s1 where i: "next_available_piece s = Some i" and r: "candidate_range s i = Some r"
    and iss: "issue_lease s i (assignment_range_for s r n m) w = (s1, Some seg)"
    and s': "s' = s1\<lparr>next_candidate := (i + 1) mod piece_count (pmap s1)\<rparr>"
    using asg by (auto simp: assign_alt split: if_splits option.splits prod.splits)
  note I = next_available_piece_Some [OF i sched_inv_length [OF inv] sched_inv_next [OF inv]]
  have nc: "\<not> completed (pmap s) ! i" by (rule available_not_complete [OF inv I])
  note A = candidate_assignment [OF inv I r, of n m]
  note S = issue_lease_Some [OF inv I(1) nc A(1) room iss]
  have pc: "0 < piece_count (pmap s)" using I(1) by linarith
  have "sched_inv s'"
    using S(1,11) pc by (intro sched_inv_view [OF S(1)]) (simp_all add: s')
  moreover have "ledger_tau (sched_ledger s) (sched_ledger s')" using S(2) by (simp add: s')
  moreover have "next_lease_id s' = Suc (next_lease_id s)" using S(13) by (simp add: s')
  ultimately show thesis using that I r iss s' S(11) by simp
qed

lemma assign_None:
  assumes inv: "sched_inv s" and asg: "assign_to_with_split s w n m = (s', None)"
  shows "stopped s \<or> available_range_count s = 0" "s' = s"
proof -
  have "(stopped s \<or> available_range_count s = 0) \<and> s' = s"
  proof (cases "available_range_count s = 0 \<or> next_available_piece s = None")
    case True
    moreover have "available_range_count s = 0" if n: "next_available_piece s = None"
      using next_available_piece_None [OF n] sched_inv_length [OF inv] sched_inv_next [OF inv]
      by (simp add: available_range_count_zero [OF inv]) force
    ultimately show ?thesis using asg by (auto simp: assign_alt split: if_splits)
  next
    case False
    then obtain i where i: "next_available_piece s = Some i" and nz: "available_range_count s \<noteq> 0" by auto
    note I = next_available_piece_Some [OF i sched_inv_length [OF inv] sched_inv_next [OF inv]]
    have nc: "\<not> completed (pmap s) ! i" by (rule available_not_complete [OF inv I])
    obtain r where r: "candidate_range s i = Some r" using candidate_range_Some [OF inv I] by blast
    note A = candidate_assignment [OF inv I r, of n m]
    have "stopped s"
    proof (rule ccontr)
      assume "\<not> stopped s"
      then obtain s1 seg where "issue_lease s i (assignment_range_for s r n m) w = (s1, Some seg)"
        using issue_lease_succeeds [OF inv I(1) nc A(1) _ A(2)] by blast
      then show False using asg i r nz by (simp add: assign_alt)
    qed
    then show ?thesis using asg i r nz by (simp add: assign_alt issue_lease_stopped)
  qed
  then show "stopped s \<or> available_range_count s = 0" "s' = s" by simp_all
qed

section \<open>Settling\<close>

text \<open>A settling call with an unknown key changes nothing and says so.\<close>

lemma lease_range_None:
  "lease_range s k = None \<longleftrightarrow>
     (case bt_get (pieces s) (lk_piece_id k) of None \<Rightarrow> True | Some p \<Rightarrow> lease_of p (lk_lease_id k) = None)"
  by (simp add: lease_range_def split: option.split)

lemma settle_unknown:
  assumes "lease_range s k = None"
  shows "complete s k = (s, False)" "reclaim s k = (s, False)" "retain_prefix s k c = (s, False)"
    "renew s k w = (s, None)"
  using assms
  by (cases "bt_get (pieces s) (lk_piece_id k)";
      simp add: lease_range_def lease_of_None complete_def reclaim_def retain_prefix_def renew_def
        ps_complete_def ps_reclaim_def ps_renew_def ps_retain_prefix_def)+

lemma lease_known:
  assumes "sched_inv s" "lease_range s k = Some r"
  obtains p where "bt_get (pieces s) (lk_piece_id k) = Some p" "lease_of p (lk_lease_id k) = Some r"
    "lk_piece_id k < piece_count (pmap s)" "\<not> completed (pmap s) ! lk_piece_id k"
    "ps_inv (piece_bytes (pmap s) (lk_piece_id k)) (next_lease_id s) p"
    "\<And>lid. lease_of p lid = lease_range s (LeaseKey (lk_piece_id k) lid)"
proof -
  obtain p where p: "bt_get (pieces s) (lk_piece_id k) = Some p" "lease_of p (lk_lease_id k) = Some r"
    using assms(2) by (auto simp: lease_range_def split: option.splits)
  have "\<And>lid. lease_of p lid = lease_range s (LeaseKey (lk_piece_id k) lid)"
    using p(1) by (simp add: lease_range_def)
  then show thesis using that p piece_okD(1-3) [OF assms(1) p(1)] by blast
qed

lemma lease_key_eta: "LeaseKey (lk_piece_id k) (lk_lease_id k) = k"
  by (cases k) simp

lemma reclaim_known:
  assumes inv: "sched_inv s" and k: "lease_range s k = Some r" and rec: "reclaim s k = (s', b)"
  shows "b" "sched_inv s'"
    "ledger_tau (sched_ledger s) (sched_ledger s')"
    "lease_range s' = (lease_range s)(k := None)"
    "lg_free (sched_ledger s') = lg_free (sched_ledger s) \<union> br_bytes r"
    "pmap s' = pmap s" "next_lease_id s' = next_lease_id s" "stopped s' = stopped s"
    "active_lease_count s = Suc (active_lease_count s')"
    "lg_acked (sched_ledger s') = lg_acked (sched_ledger s)"
    "same_elsewhere (lk_piece_id k) s s'"
proof -
  let ?i = "lk_piece_id k"
  obtain p where p: "bt_get (pieces s) ?i = Some p" "lease_of p (lk_lease_id k) = Some r"
    and i: "?i < piece_count (pmap s)" and nc: "\<not> completed (pmap s) ! ?i"
    and ps: "ps_inv (piece_bytes (pmap s) ?i) (next_lease_id s) p"
    and lo: "\<And>lid. lease_of p lid = lease_range s (LeaseKey ?i lid)"
    using lease_known [OF inv k] by metis
  obtain p' where rc: "ps_reclaim p k = Some p'" using ps_reclaim_None [of p k] p(2) by auto
  note R = ps_reclaim_Some [OF ps rc]
  note D = piece_okD(6,7) [OF inv p(1)]
  have s': "s' = s\<lparr>pieces := bt_insert ?i p' (pieces s),
      active_lease_count := sub_u64 (active_lease_count s) 1,
      available_range_count := sub_u64 (available_range_count s) (avail_count s ?i)
        + length (missing_ranges p'),
      available_pieces := (available_pieces s)[?i := True],
      next_candidate := (if ?i < next_candidate s then ?i else next_candidate s)\<rparr>" and b: "b"
    using rec p(1) rc D by (simp_all add: reclaim_def missing_range_count_def)
  show "b" by (rule b)
  have pos: "0 < lease_count s ?i" "lease_count s ?i \<le> active_lease_count s"
    using R(5) D(1) lease_count_le [OF inv i] by simp_all
  show same: "same_elsewhere ?i s s'" by (simp add: s' same_elsewhere_def)
  have get: "bt_get (pieces s') ?i = Some p'" by (simp add: s')
  have len: "length (active_leases p') = lease_count s ?i - 1" using R(4) D(1) by simp
  show "sched_inv s'"
    using inv i nc same
    by (rule sched_inv_put)
      (use get R(3,6) len pos sched_invD [OF inv] avail_count_le [OF inv i] i in \<open>simp_all add: s'\<close>)
  have fb: "piece_free s' ?i = piece_free s ?i \<union> br_bytes r"
    using R(1) p get by (auto simp: piece_free_def)
  show lr: "lease_range s' = (lease_range s)(k := None)"
    using lease_table_upd [OF same get, of "lk_lease_id k" None] R(2) lo
    by (simp add: lease_key_eta fun_eq_iff)
  show fr: "lg_free (sched_ledger s') = lg_free (sched_ledger s) \<union> br_bytes r"
    by (rule ledger_free_plus [OF i same fb])
  have lu: "piece_leased s ?i = piece_leased s' ?i \<union> br_bytes r"
    using lease_union_del [of "lease_of p" "lk_lease_id k" r] p(2) R(2)
    by (simp add: piece_leased_get [OF get] piece_leased_get [OF p(1)])
  have "lg_acked (sched_ledger s') = lg_acked (sched_ledger s) \<union> {}"
    using fb lu by (intro ledger_acked_plus [OF i same]) (auto simp: piece_acked_def elsewhere(3) [OF same])
  then show ack: "lg_acked (sched_ledger s') = lg_acked (sched_ledger s)" by simp
  have "sched_ledger s' = (sched_ledger s)\<lparr>lg_free := lg_free (sched_ledger s) \<union> br_bytes r,
      lg_leases := (lg_leases (sched_ledger s))(k := None)\<rparr>"
    using fr ack lr by (intro ledger_ext) (simp_all add: sched_ledger_def)
  then show "ledger_tau (sched_ledger s) (sched_ledger s')"
    using tau_reclaim [of "sched_ledger s" k r] k by (simp add: sched_ledger_def)
  show "pmap s' = pmap s" "next_lease_id s' = next_lease_id s" "stopped s' = stopped s"
    "active_lease_count s = Suc (active_lease_count s')" using pos by (simp_all add: s')
qed

lemma renew_known:
  assumes inv: "sched_inv s" and k: "lease_range s k = Some r" and room: "next_lease_id s < u64_max"
    and ren: "renew s k w = (s', res)"
  shows "\<exists>seg. res = Some seg \<and> seg_lease_key seg = LeaseKey (lk_piece_id k) (next_lease_id s) \<and>
      seg_start seg = br_start r \<and> seg_end seg = br_end r \<and> owner_worker_id seg = w"
    "sched_inv s'"
    "ledger_tau (sched_ledger s) (sched_ledger s')"
    "lease_range s' = (lease_range s)(k := None, LeaseKey (lk_piece_id k) (next_lease_id s) \<mapsto> r)"
    "next_lease_id s' = Suc (next_lease_id s)" "pmap s' = pmap s"
proof -
  let ?i = "lk_piece_id k" and ?n = "next_lease_id s"
  obtain p where p: "bt_get (pieces s) ?i = Some p" "lease_of p (lk_lease_id k) = Some r"
    and i: "?i < piece_count (pmap s)" and nc: "\<not> completed (pmap s) ! ?i"
    and ps: "ps_inv (piece_bytes (pmap s) ?i) ?n p"
    and lo: "\<And>lid. lease_of p lid = lease_range s (LeaseKey ?i lid)"
    using lease_known [OF inv k] by metis
  obtain seg p' nid' where rn: "ps_renew p k w ?n ?i = Some (seg, p', nid')"
    using ps_renew_None [of p k w ?n ?i] p(2) by (cases "ps_renew p k w ?n ?i") auto
  note R = ps_renew_Some [OF ps room rn]
  note D = piece_okD(4,5,6,7) [OF inv p(1)]
  have s': "s' = s\<lparr>pieces := bt_insert ?i p' (pieces s), next_lease_id := nid'\<rparr>" and res: "res = Some seg"
    using ren p(1) rn nc by (simp_all add: renew_def is_complete_def)
  show "\<exists>seg. res = Some seg \<and> seg_lease_key seg = LeaseKey ?i ?n \<and>
      seg_start seg = br_start r \<and> seg_end seg = br_end r \<and> owner_worker_id seg = w"
    using R(2-5) p(2) res by (auto simp: seg_lease_key_def)
  have same: "same_elsewhere ?i s s'" by (simp add: s' same_elsewhere_def R(1))
  have get: "bt_get (pieces s') ?i = Some p'" by (simp add: s')
  have ne: "missing_ranges p' \<noteq> [] \<or> active_leases p' \<noteq> []" using D(2) R(7,8) by auto
  show "sched_inv s'"
    by (rule sched_inv_put [OF inv i nc same _ _ get])
      (use R(7,8,9) ne D sched_inv_pieces [OF inv] sched_inv_next [OF inv]
         avail_count_le [OF inv i] lease_count_le [OF inv i] in \<open>simp_all add: s'\<close>)
  have lp: "lease_of p' = (lease_of p)(lk_lease_id k := None, ?n \<mapsto> r)" using R(5) p(2) by auto
  show lr: "lease_range s' = (lease_range s)(k := None, LeaseKey ?i ?n \<mapsto> r)"
  proof
    fix k' show "lease_range s' k' = ((lease_range s)(k := None, LeaseKey ?i ?n \<mapsto> r)) k'"
      using lo lp by (cases k'; cases k) (auto simp: ledger_leases_at [OF same get])
  qed
  have fresh: "lease_range s (LeaseKey ?i ?n) = None"
    using lease_range_piece(4) [OF inv, of "LeaseKey ?i ?n"]
    by (cases "lease_range s (LeaseKey ?i ?n)") simp_all
  have fb: "piece_free s' ?i = piece_free s ?i" using R(6) p get by (simp add: piece_free_def)
  have kn: "lk_lease_id k \<noteq> ?n" using p(2) fresh lo [of ?n] by auto
  have "lease_union (lease_of p') = lease_union (lease_of p)"
    using lease_union_del [of "lease_of p" "lk_lease_id k" r] p(2) kn fresh lo
    by (simp add: lp lease_union_upd)
  then have lu: "piece_leased s' ?i = piece_leased s ?i"
    by (simp add: piece_leased_get [OF get] piece_leased_get [OF p(1)])
  have "lg_free (sched_ledger s') = lg_free (sched_ledger s) \<union> {}"
    by (rule ledger_free_plus [OF i same]) (simp add: fb)
  moreover have "lg_acked (sched_ledger s') = lg_acked (sched_ledger s) \<union> {}"
    by (rule ledger_acked_plus [OF i same]) (simp add: piece_acked_def fb lu elsewhere(3) [OF same])
  ultimately have "sched_ledger s' = (sched_ledger s)\<lparr>lg_leases :=
      (lg_leases (sched_ledger s))(k := None, LeaseKey ?i ?n \<mapsto> r)\<rparr>"
    using lr by (intro ledger_ext) (simp_all add: sched_ledger_def)
  then show "ledger_tau (sched_ledger s) (sched_ledger s')"
    using tau_renew [of "sched_ledger s" k r "LeaseKey ?i ?n"] k fresh by (simp add: sched_ledger_def)
  show "next_lease_id s' = Suc (next_lease_id s)" "pmap s' = pmap s" using R(1) by (simp_all add: s')
qed

lemma retain_known:
  assumes inv: "sched_inv s" and k: "lease_range s k = Some r" and ret: "retain_prefix s k c = (s', b)"
  shows "b \<longleftrightarrow> br_start r < c \<and> c < br_end r"
    "\<not> b \<Longrightarrow> s' = s"
    "sched_inv s'"
    "b \<Longrightarrow> ledger_ack (sched_ledger s) {br_start r..<c} (sched_ledger s')"
    "b \<Longrightarrow> lease_range s' = (lease_range s)(k \<mapsto> r\<lparr>br_start := c\<rparr>)"
    "pmap s' = pmap s" "next_lease_id s' = next_lease_id s"
proof -
  let ?i = "lk_piece_id k"
  obtain p where p: "bt_get (pieces s) ?i = Some p" "lease_of p (lk_lease_id k) = Some r"
    and i: "?i < piece_count (pmap s)" and nc: "\<not> completed (pmap s) ! ?i"
    and ps: "ps_inv (piece_bytes (pmap s) ?i) (next_lease_id s) p"
    and lo: "\<And>lid. lease_of p lid = lease_range s (LeaseKey ?i lid)"
    using lease_known [OF inv k] by metis
  have guard: "ps_retain_prefix p k c = None \<longleftrightarrow> \<not> (br_start r < c \<and> c < br_end r)"
    using lease_of_Some [OF p(2)] by (auto simp: ps_retain_prefix_def)
  show bc: "b \<longleftrightarrow> br_start r < c \<and> c < br_end r"
    using ret p(1) guard by (auto simp: retain_prefix_def split: option.splits)
  show nb: "\<not> b \<Longrightarrow> s' = s"
    using ret p(1) by (auto simp: retain_prefix_def split: option.splits)
  show "sched_inv s'" "b \<Longrightarrow> ledger_ack (sched_ledger s) {br_start r..<c} (sched_ledger s')"
    "b \<Longrightarrow> lease_range s' = (lease_range s)(k \<mapsto> r\<lparr>br_start := c\<rparr>)"
    "pmap s' = pmap s" "next_lease_id s' = next_lease_id s"
  proof -
    have "sched_inv s' \<and> (b \<longrightarrow> ledger_ack (sched_ledger s) {br_start r..<c} (sched_ledger s')) \<and>
        (b \<longrightarrow> lease_range s' = (lease_range s)(k \<mapsto> r\<lparr>br_start := c\<rparr>)) \<and>
        pmap s' = pmap s \<and> next_lease_id s' = next_lease_id s"
    proof (cases b)
      case False
      then show ?thesis using nb inv by simp
    next
      case True
      then have c: "br_start r < c" "c < br_end r" using bc by auto
      then obtain p' where rt: "ps_retain_prefix p k c = Some p'" using guard by auto
      note R = ps_retain_Some [OF ps rt]
      note D = piece_okD(4,6,7) [OF inv p(1)]
      have s': "s' = s\<lparr>pieces := bt_insert ?i p' (pieces s)\<rparr>"
        using ret p(1) rt by (simp add: retain_prefix_def)
      have same: "same_elsewhere ?i s s'" by (simp add: s' same_elsewhere_def)
      have get: "bt_get (pieces s') ?i = Some p'" by (simp add: s')
      have iv: "sched_inv s'"
        by (rule sched_inv_put [OF inv i nc same _ _ get])
          (use R(2,4,5,6) D sched_inv_pieces [OF inv] sched_inv_next [OF inv]
             avail_count_le [OF inv i] lease_count_le [OF inv i] in \<open>simp_all add: s'\<close>)
      have lp: "lease_of p' = (lease_of p)(lk_lease_id k \<mapsto> r\<lparr>br_start := c\<rparr>)" using R(1) p(2) by auto
      have lr: "lease_range s' = (lease_range s)(k \<mapsto> r\<lparr>br_start := c\<rparr>)"
        using lease_table_upd [OF same get, of "lk_lease_id k"] lp lo
        by (simp add: lease_key_eta fun_eq_iff)
      have fb: "piece_free s' ?i = piece_free s ?i" using R(3) p get by (simp add: piece_free_def)
      let ?f = "(lease_of p)(lk_lease_id k := None)" and ?A = "{br_start r..<c}"
      have "lease_union (lease_of p) = lease_union ?f \<union> br_bytes r"
        using p(2) by (rule lease_union_del)
      moreover have "lease_union (lease_of p') = lease_union ?f \<union> br_bytes (r\<lparr>br_start := c\<rparr>)"
        using lease_union_upd [of ?f "lk_lease_id k" "r\<lparr>br_start := c\<rparr>"] by (simp add: lp)
      moreover have "br_bytes r = ?A \<union> br_bytes (r\<lparr>br_start := c\<rparr>)" "?A \<inter> br_bytes (r\<lparr>br_start := c\<rparr>) = {}"
        using c by (auto simp: br_bytes_def)
      moreover have "lease_union ?f \<inter> br_bytes r = {}"
        by (rule lease_union_rest [OF ps_inv_leases [OF ps] p(2)])
      ultimately have lu: "piece_leased s ?i = piece_leased s' ?i \<union> ?A" "piece_leased s' ?i \<inter> ?A = {}"
        unfolding piece_leased_get [OF get] piece_leased_get [OF p(1)] by auto
      have "?A \<subseteq> piece_bytes (pmap s) ?i" "?A \<inter> piece_free s ?i = {}"
        using lu(1) piece_leased_subset [OF inv i] piece_free_leased [OF inv i] by auto
      then have "piece_acked s' ?i = piece_acked s ?i \<union> ?A"
        unfolding piece_acked_def elsewhere(3) [OF same] fb using lu by auto
      then have ack: "lg_acked (sched_ledger s') = lg_acked (sched_ledger s) \<union> ?A"
        by (rule ledger_acked_plus [OF i same])
      have "lg_free (sched_ledger s') = lg_free (sched_ledger s) \<union> {}"
        by (rule ledger_free_plus [OF i same]) (simp add: fb)
      then have "sched_ledger s' = (sched_ledger s)\<lparr>lg_leases :=
          (lg_leases (sched_ledger s))(k \<mapsto> r\<lparr>br_start := c\<rparr>), lg_acked := lg_acked (sched_ledger s) \<union> ?A\<rparr>"
        using lr ack by (intro ledger_ext) (simp_all add: sched_ledger_def)
      then have "ledger_ack (sched_ledger s) ?A (sched_ledger s')"
        using ack_retain [of "sched_ledger s" k r c] k c by (simp add: sched_ledger_def)
      then show ?thesis using iv lr by (simp add: s')
    qed
    then show "sched_inv s'" "b \<Longrightarrow> ledger_ack (sched_ledger s) {br_start r..<c} (sched_ledger s')"
      "b \<Longrightarrow> lease_range s' = (lease_range s)(k \<mapsto> r\<lparr>br_start := c\<rparr>)"
      "pmap s' = pmap s" "next_lease_id s' = next_lease_id s" by simp_all
  qed
qed

text \<open>The state after completing a lease, whether or not it finishes the piece,
  acknowledges exactly the bytes the lease covered.\<close>

lemma complete_ledger:
  assumes inv: "sched_inv s" and k: "lease_range s k = Some r" and i: "lk_piece_id k < piece_count (pmap s)"
    and same: "same_elsewhere (lk_piece_id k) s s'"
    and fb: "piece_free s' (lk_piece_id k) = piece_free s (lk_piece_id k)"
    and lr: "lease_range s' = (lease_range s)(k := None)"
  shows "ledger_ack (sched_ledger s) (br_bytes r) (sched_ledger s')"
proof -
  let ?i = "lk_piece_id k"
  obtain p where p: "bt_get (pieces s) ?i = Some p" "lease_of p (lk_lease_id k) = Some r"
    and ps: "ps_inv (piece_bytes (pmap s) ?i) (next_lease_id s) p"
    and lo: "\<And>lid. lease_of p lid = lease_range s (LeaseKey ?i lid)"
    using lease_known [OF inv k] by metis
  let ?f = "(lease_of p)(lk_lease_id k := None)"
  have "(\<lambda>lid. lease_range s' (LeaseKey ?i lid)) = ?f"
    unfolding lr using lo by (cases k) (auto simp: fun_eq_iff)
  then have pl': "piece_leased s' ?i = lease_union ?f" by (simp only: piece_leased_of)
  have pl: "piece_leased s ?i = lease_union ?f \<union> br_bytes r"
    using lease_union_del [of "lease_of p" "lk_lease_id k" r] p by (simp add: piece_leased_get)
  have d: "lease_union ?f \<inter> br_bytes r = {}" by (rule lease_union_rest [OF ps_inv_leases [OF ps] p(2)])
  have "br_bytes r \<subseteq> piece_bytes (pmap s) ?i" "br_bytes r \<inter> piece_free s ?i = {}"
    using pl piece_leased_subset [OF inv i] piece_free_leased [OF inv i] by auto
  then have "piece_acked s' ?i = piece_acked s ?i \<union> br_bytes r"
    unfolding piece_acked_def elsewhere(3) [OF same] fb pl pl' using d by auto
  then have ack: "lg_acked (sched_ledger s') = lg_acked (sched_ledger s) \<union> br_bytes r"
    by (rule ledger_acked_plus [OF i same])
  have "lg_free (sched_ledger s') = lg_free (sched_ledger s) \<union> {}"
    by (rule ledger_free_plus [OF i same]) (simp add: fb)
  then have "sched_ledger s' = (sched_ledger s)\<lparr>lg_leases := (lg_leases (sched_ledger s))(k := None),
      lg_acked := lg_acked (sched_ledger s) \<union> br_bytes r\<rparr>"
    using lr ack by (intro ledger_ext) (simp_all add: sched_ledger_def)
  then show ?thesis
    using ack_complete [of "sched_ledger s" k r] k by (simp add: sched_ledger_def)
qed

lemma complete_known:
  assumes inv: "sched_inv s" and k: "lease_range s k = Some r" and com: "complete s k = (s', b)"
  shows "b" "sched_inv s'"
    "ledger_ack (sched_ledger s) (br_bytes r) (sched_ledger s')"
    "lease_range s' = (lease_range s)(k := None)"
    "next_lease_id s' = next_lease_id s" "stopped s' = stopped s"
    "active_lease_count s = Suc (active_lease_count s')"
    "same_elsewhere (lk_piece_id k) s s'"
proof -
  let ?i = "lk_piece_id k"
  obtain p where p: "bt_get (pieces s) ?i = Some p" "lease_of p (lk_lease_id k) = Some r"
    and i: "?i < piece_count (pmap s)" and nc: "\<not> completed (pmap s) ! ?i"
    and ps: "ps_inv (piece_bytes (pmap s) ?i) (next_lease_id s) p"
    and lo: "\<And>lid. lease_of p lid = lease_range s (LeaseKey ?i lid)"
    using lease_known [OF inv k] by metis
  obtain whole p' where cm: "ps_complete p k = Some (whole, p')"
    using ps_complete_None [of p k] p(2) by auto
  note C = ps_complete_Some [OF ps cm]
  note D = piece_okD(4,6,7) [OF inv p(1)]
  note m = sched_inv_map [OF inv]
  have pos: "0 < lease_count s ?i" "lease_count s ?i \<le> active_lease_count s"
    using C(6) D(2) lease_count_le [OF inv i] by simp_all
  have len: "length (active_leases p') = lease_count s ?i - 1" using C(5) D(2) by simp
  have cnt: "sub_u64 (active_lease_count s) 1
      = active_lease_count s - lease_count s ?i + length (active_leases p')"
    using len pos by simp
  have comp: "completed (mark_complete (pmap s) ?i) = (completed (pmap s))[?i := True]"
    using mark_complete_completed [OF pm_inv_length [OF m]] i by simp
  show b: "b" using com p(1) cm by (auto simp: complete_def Let_def split: if_splits)
  have "sched_inv s' \<and> same_elsewhere ?i s s' \<and> piece_free s' ?i = piece_free s ?i \<and>
      lease_range s' = (lease_range s)(k := None) \<and> next_lease_id s' = next_lease_id s \<and>
      stopped s' = stopped s \<and> active_lease_count s = Suc (active_lease_count s')"
  proof (cases whole)
    case False
    have s': "s' = s\<lparr>pieces := bt_insert ?i p' (pieces s),
        active_lease_count := sub_u64 (active_lease_count s) 1\<rparr>"
      using com p(1) cm False by (simp add: complete_def)
    have same: "same_elsewhere ?i s s'" by (simp add: s' same_elsewhere_def)
    have get: "bt_get (pieces s') ?i = Some p'" by (simp add: s')
    have "sched_inv s'"
      by (rule sched_inv_put [OF inv i nc same _ _ get])
        (use C(3,7,8) False D(1,3) cnt sched_inv_pieces [OF inv] sched_inv_next [OF inv]
           avail_count_le [OF inv i] in \<open>simp_all add: s'\<close>)
    moreover have "lease_range s' = (lease_range s)(k := None)"
      using lease_table_upd [OF same get, of "lk_lease_id k" None] C(2) lo
      by (simp add: lease_key_eta fun_eq_iff)
    moreover have "piece_free s' ?i = piece_free s ?i" using C(4) p get by (simp add: piece_free_def)
    ultimately show ?thesis using same pos by (simp add: s')
  next
    case True
    have s': "s' = s\<lparr>active_lease_count := sub_u64 (active_lease_count s) 1,
        pmap := mark_complete (pmap s) ?i,
        pieces := bt_remove ?i (bt_insert ?i p' (pieces s))\<rparr>"
      using com p(1) cm True by (auto simp add: complete_def Let_def)
    have empty: "missing_ranges p = []" "active_leases p' = []" using C(3,8) True by simp_all
    have same: "same_elsewhere ?i s s'" by (simp add: s' same_elsewhere_def comp)
    have get: "bt_get (pieces s') ?i = None" by (simp add: s')
    have fin: "completed (pmap s') ! ?i" using i pm_inv_length [OF m] by (simp add: s' comp)
    have ok: "piece_ok s' ?i" using get fin D(1) empty(1) by (simp add: piece_ok_def s')
    have cnt: "lease_count s' ?i = 0" "avail_count s' ?i = 0"
      using get fin by (simp_all add: lease_count_def avail_count_def)
    have one: "lease_count s ?i = 1" using len empty(2) pos by simp
    have "sched_inv s'"
      by (rule sched_inv_update [OF inv i same _ _ ok])
        (use cnt one pos D(3) empty(1) sched_inv_pieces [OF inv] sched_inv_next [OF inv]
           pm_inv_mark_complete [OF m] in \<open>simp_all add: s'\<close>)
    moreover have "lease_range s' = (lease_range s)(k := None)"
    proof
      fix k' show "lease_range s' k' = ((lease_range s)(k := None)) k'"
      proof (cases "lk_piece_id k' = ?i")
        case True
        have "(lease_of p)(lk_lease_id k := None) = (\<lambda>_. None)"
          using lease_of_Nil_iff [of p'] empty(2) C(2) by auto
        then have "((lease_of p)(lk_lease_id k := None)) (lk_lease_id k') = None" by simp
        then show ?thesis using True get lo
          by (cases k; cases k') (auto simp: lease_range_def split: if_splits)
      next
        case False
        then show ?thesis using elsewhere(7) [OF same False] by auto
      qed
    qed
    moreover have "piece_free s' ?i = piece_free s ?i"
      using get fin p empty(1) by (simp add: piece_free_def free_bytes_def)
    ultimately show ?thesis using same pos by (simp add: s')
  qed
  then show "sched_inv s'" "ledger_ack (sched_ledger s) (br_bytes r) (sched_ledger s')"
    "lease_range s' = (lease_range s)(k := None)" "next_lease_id s' = next_lease_id s"
    "stopped s' = stopped s" "active_lease_count s = Suc (active_lease_count s')"
    "same_elsewhere ?i s s'"
    using complete_ledger [OF inv k i] by simp_all
qed

end
