(* ===== verification/Scheduler_Batch.thy ===== *)
theory Scheduler_Batch
  imports Scheduler_Ops
begin

text \<open>
  Requests that own several leases, \<open>src/scheduler.rs\<close>: the result record
  \<open>RequestAssignment\<close>, recovery batches with their rollback, the extension of a
  whole-piece lease over the following untouched pieces, and the fixed scheduling
  mode.  The relation \<open>batch_rel\<close> says what a sequence of issues did to the
  ledger; every batch operation is shown to stay inside it.
\<close>

section \<open>Model\<close>

record dynamic_candidate_share =
  dcs_start :: nat
  dcs_end :: nat
  dcs_slots :: nat
  dcs_share_bytes :: nat

record request_assignment =
  ra_segments :: "segment list"
  candidate_start :: nat
  candidate_end :: nat
  candidate_boundary_scanned :: bool
  candidate_slots :: nat
  target_end :: nat
  candidate_shares :: "dynamic_candidate_share list option"
  final_start :: nat
  final_end :: nat
  available_request_slots :: nat
  occupied_requests :: nat
  planned_ranges :: nat
  truncation_reason :: string

definition ra_single :: "segment \<Rightarrow> nat \<Rightarrow> nat \<Rightarrow> request_assignment" where
  "ra_single seg slots occupied =
     \<lparr>ra_segments = [seg], candidate_start = seg_start seg, candidate_end = seg_end seg,
      candidate_boundary_scanned = False, candidate_slots = 1, target_end = seg_end seg,
      candidate_shares = None, final_start = seg_start seg, final_end = seg_end seg,
      available_request_slots = slots, occupied_requests = occupied, planned_ranges = 1,
      truncation_reason = ''none''\<rparr>"

definition ra_from_segments ::
  "segment list \<Rightarrow> nat \<Rightarrow> nat \<Rightarrow> string \<Rightarrow> request_assignment option" where
  "ra_from_segments segs slots occupied reason =
     (if segs = [] then None
      else let first = hd segs; lst = last segs
           in Some \<lparr>ra_segments = segs, candidate_start = seg_start first, candidate_end = seg_end lst,
                    candidate_boundary_scanned = False, candidate_slots = 1,
                    target_end = seg_end lst, candidate_shares = None,
                    final_start = seg_start first, final_end = seg_end lst,
                    available_request_slots = slots, occupied_requests = occupied,
                    planned_ranges = 1, truncation_reason = reason\<rparr>)"

text \<open>\<open>for issued in segments.iter().rev() { self.reclaim(issued.lease_key()) }\<close>\<close>

fun rollback :: "scheduler_state \<Rightarrow> segment list \<Rightarrow> scheduler_state" where
  "rollback s [] = s"
| "rollback s (seg # segs) = rollback (fst (reclaim s (seg_lease_key seg))) segs"

fun issue_all ::
  "scheduler_state \<Rightarrow> (nat \<times> byte_range) list \<Rightarrow> nat \<Rightarrow> segment list \<Rightarrow>
    scheduler_state \<times> segment list option" where
  "issue_all s [] worker_id segs = (s, Some segs)"
| "issue_all s ((piece_id, rng) # rest) worker_id segs =
     (case issue_lease s piece_id rng worker_id of
        (s', None) \<Rightarrow> (rollback s' (rev segs), None)
      | (s', Some seg) \<Rightarrow> issue_all s' rest worker_id (segs @ [seg]))"

text \<open>The validation loop of \<open>assign_recovery_batch\<close>.\<close>

fun recovery_batch_valid ::
  "scheduler_state \<Rightarrow> (nat \<times> nat) option \<Rightarrow> (nat \<times> nat \<times> nat) list \<Rightarrow> bool" where
  "recovery_batch_valid s previous [] = True"
| "recovery_batch_valid s previous ((piece_id, start, end') # rest) =
     (if piece_count (pmap s) \<le> piece_id then False
      else case piece_range (pmap s) piece_id of (piece_start, piece_end) \<Rightarrow>
        if end' \<le> start \<or> start < piece_start \<or> piece_end < end' \<or>
           is_complete (pmap s) piece_id \<or>
           (case previous of
              None \<Rightarrow> False
            | Some (previous_piece, previous_end) \<Rightarrow>
                piece_id \<noteq> sat_add_u64 previous_piece 1 \<or> start \<noteq> previous_end)
        then False
        else recovery_batch_valid s (Some (piece_id, end')) rest)"

definition assign_recovery_batch ::
  "scheduler_state \<Rightarrow> (nat \<times> nat \<times> nat) list \<Rightarrow> nat \<Rightarrow> scheduler_state \<times> segment list option" where
  "assign_recovery_batch s ps worker_id =
     (if ps = [] \<or> MAX_REQUEST_LEASES < length ps then (s, None)
      else if \<not> recovery_batch_valid s None ps then (s, None)
      else issue_all s
             (map (\<lambda>(piece_id, start, end'). (piece_id, \<lparr>br_start = start, br_end = end'\<rparr>)) ps)
             worker_id [])"

text \<open>The extension loop: \<open>count\<close> leases have been added so far, and the request
  ends at \<open>request_end\<close>.\<close>

fun extend_loop ::
  "scheduler_state \<Rightarrow> nat list \<Rightarrow> nat \<Rightarrow> nat \<Rightarrow> nat \<Rightarrow> nat \<Rightarrow> nat \<Rightarrow> segment list \<Rightarrow>
    scheduler_state \<times> segment list \<times> string" where
  "extend_loop s [] worker_id first_start reserved_for_peers byte_cap request_end additional =
     (s, additional, ''candidate_exhausted'')"
| "extend_loop s (piece_id # rest) worker_id first_start reserved_for_peers byte_cap request_end
     additional =
     (if MAX_REQUEST_LEASES \<le> length additional + 1 then (s, additional, ''lease_limit'')
      else if available_range_count s \<le> reserved_for_peers
      then (s, additional, ''request_slots_reserved'')
      else if \<not> available_pieces s ! piece_id \<or> bt_get (pieces s) piece_id \<noteq> None
      then (s, additional, ''candidate_boundary'')
      else case piece_range (pmap s) piece_id of (start, end') \<Rightarrow>
        if start \<noteq> request_end \<or> byte_cap < sub_u64 end' first_start
        then (s, additional, ''max_request_bytes'')
        else case issue_lease s piece_id \<lparr>br_start = start, br_end = end'\<rparr> worker_id of
               (s', None) \<Rightarrow> (s', additional, ''lease_issue_failed'')
             | (s', Some seg) \<Rightarrow>
                 extend_loop (s'\<lparr>next_candidate := (piece_id + 1) mod piece_count (pmap s')\<rparr>) rest
                   worker_id first_start reserved_for_peers byte_cap end' (additional @ [seg]))"

definition extend_batch_with_occupied ::
  "scheduler_state \<Rightarrow> segment \<Rightarrow> nat \<Rightarrow> nat \<Rightarrow> nat \<Rightarrow> nat \<Rightarrow>
    scheduler_state \<times> segment list \<times> string" where
  "extend_batch_with_occupied s first worker_id max_connections occupied byte_cap =
     (case bt_get (pieces s) (seg_piece_id first) of
        None \<Rightarrow> (s, [], ''first_lease_not_found'')
      | Some piece \<Rightarrow>
          (case bt_get (active_leases piece) (seg_lease_id first) of
             None \<Rightarrow> (s, [], ''first_lease_not_found'')
           | Some active \<Rightarrow>
               (case piece_range (pmap s) (seg_piece_id first) of (start, end') \<Rightarrow>
                  if owner_worker_id first \<noteq> worker_id \<or>
                     (seg_start first, seg_end first) \<noteq> (start, end') \<or>
                     al_range active \<noteq> \<lparr>br_start = start, br_end = end'\<rparr>
                  then (s, [], ''first_lease_not_whole'')
                  else if byte_cap = 0 then (s, [], ''batch_disabled'')
                  else extend_loop s [seg_piece_id first + 1..<piece_count (pmap s)] worker_id
                         (seg_start first) (max_connections - sat_add_u64 occupied 1) byte_cap
                         (seg_end first) [])))"

definition extend_batch ::
  "scheduler_state \<Rightarrow> segment \<Rightarrow> nat \<Rightarrow> nat \<Rightarrow> nat \<Rightarrow> scheduler_state \<times> segment list" where
  "extend_batch s first worker_id max_connections byte_cap =
     (case extend_batch_with_occupied s first worker_id max_connections 0 byte_cap of
        (s', additional, _) \<Rightarrow> (s', additional))"

definition is_untouched_piece :: "scheduler_state \<Rightarrow> nat \<Rightarrow> bool" where
  "is_untouched_piece s piece_id \<longleftrightarrow>
     piece_id < piece_count (pmap s) \<and> available_pieces s ! piece_id \<and>
     \<not> is_complete (pmap s) piece_id \<and> bt_get (pieces s) piece_id = None"

definition is_fresh_whole_lease :: "scheduler_state \<Rightarrow> segment \<Rightarrow> bool" where
  "is_fresh_whole_lease s seg =
     (if piece_range (pmap s) (seg_piece_id seg) \<noteq> (seg_start seg, seg_end seg) then False
      else case bt_get (pieces s) (seg_piece_id seg) of
        None \<Rightarrow> False
      | Some piece \<Rightarrow>
          length (active_leases piece) = 1 \<and> \<not> has_completed_ranges piece \<and>
          (case bt_get (active_leases piece) (seg_lease_id seg) of
             None \<Rightarrow> False
           | Some lease \<Rightarrow> al_range lease = \<lparr>br_start = seg_start seg, br_end = seg_end seg\<rparr>) \<and>
          missing_ranges piece = [])"

function fresh_run_from :: "scheduler_state \<Rightarrow> nat \<Rightarrow> nat" where
  "fresh_run_from s end_piece =
     (if end_piece < piece_count (pmap s) \<and> is_untouched_piece s end_piece
      then fresh_run_from s (end_piece + 1) else end_piece)"
  by pat_completeness auto
termination
  by (relation "measure (\<lambda>(s, e). piece_count (pmap s) - e)") auto

declare fresh_run_from.simps [simp del]

definition fresh_run_end :: "scheduler_state \<Rightarrow> nat \<Rightarrow> nat" where
  "fresh_run_end s first_piece =
     snd (piece_range (pmap s) (fresh_run_from s (first_piece + 1) - 1))"

definition assign_fixed_request ::
  "scheduler_state \<Rightarrow> nat \<Rightarrow> nat \<Rightarrow> nat \<Rightarrow> nat \<Rightarrow> nat \<Rightarrow> nat \<Rightarrow> bool \<Rightarrow>
    scheduler_state \<times> request_assignment option" where
  "assign_fixed_request s worker_id max_requests min_segment_size occupied request_batch_size
     slots collect_diagnostics =
     (let max_active_leases = sat_add_u64 (active_lease_count s) slots
      in case assign_to_with_split s worker_id max_active_leases min_segment_size of
           (s1, None) \<Rightarrow> (s1, None)
         | (s1, Some first) \<Rightarrow>
             let batch_allowed = (attempt first = 1);
                 scan_candidate_boundary =
                   (collect_diagnostics \<and> batch_allowed \<and>
                    seg_end first - seg_start first < request_batch_size \<and>
                    is_fresh_whole_lease s1 first);
                 cand_end = (if scan_candidate_boundary then fresh_run_end s1 (seg_piece_id first)
                             else seg_end first);
                 (s2, additional, reason) =
                   (if batch_allowed
                    then extend_batch_with_occupied s1 first worker_id max_requests occupied
                           request_batch_size
                    else (s1, [], ''recovered_or_retried''));
                 segs = first # additional
             in (s2, Some \<lparr>ra_segments = segs, candidate_start = seg_start first,
                           candidate_end = cand_end,
                           candidate_boundary_scanned = scan_candidate_boundary,
                           candidate_slots = 1, target_end = cand_end, candidate_shares = None,
                           final_start = seg_start first, final_end = seg_end (last segs),
                           available_request_slots = slots, occupied_requests = occupied,
                           planned_ranges = min slots (available_range_count s2 + length segs),
                           truncation_reason = reason\<rparr>))"

section \<open>What a sequence of issues does\<close>

definition seg_range :: "segment \<Rightarrow> byte_range" where
  "seg_range seg = \<lparr>br_start = seg_start seg, br_end = seg_end seg\<rparr>"

definition segs_bytes :: "segment list \<Rightarrow> nat set" where
  "segs_bytes segs = (\<Union>seg \<in> set segs. br_bytes (seg_range seg))"

definition add_leases ::
  "(lease_key \<Rightarrow> byte_range option) \<Rightarrow> segment list \<Rightarrow> lease_key \<Rightarrow> byte_range option" where
  "add_leases f segs = foldl (\<lambda>g seg. g(seg_lease_key seg \<mapsto> seg_range seg)) f segs"

text \<open>\<open>s\<close> arises from \<open>s0\<close> by issuing the leases \<open>segs\<close>, in this order, out of free
  bytes, and possibly issuing and taking back others.\<close>

definition batch_rel :: "scheduler_state \<Rightarrow> scheduler_state \<Rightarrow> segment list \<Rightarrow> bool" where
  "batch_rel s0 s segs \<longleftrightarrow>
     sched_inv s \<and> pmap s = pmap s0 \<and> stopped s = stopped s0 \<and>
     ledger_run (sched_ledger s0) [] (sched_ledger s) \<and>
     lease_range s = add_leases (lease_range s0) segs \<and>
     distinct (map seg_lease_key segs) \<and>
     (\<forall>seg \<in> set segs. lease_range s0 (seg_lease_key seg) = None) \<and>
     segs_bytes segs \<subseteq> lg_free (sched_ledger s0) \<and>
     lg_free (sched_ledger s) = lg_free (sched_ledger s0) - segs_bytes segs \<and>
     next_lease_id s0 \<le> next_lease_id s \<and> (\<forall>seg \<in> set segs. next_lease_id s0 \<le> seg_lease_id seg)"

lemma batch_relD:
  assumes "batch_rel s0 s segs"
  shows "sched_inv s" "pmap s = pmap s0" "stopped s = stopped s0"
    "ledger_run (sched_ledger s0) [] (sched_ledger s)"
    "lease_range s = add_leases (lease_range s0) segs"
    "distinct (map seg_lease_key segs)"
    "\<And>seg. seg \<in> set segs \<Longrightarrow> lease_range s0 (seg_lease_key seg) = None"
    "segs_bytes segs \<subseteq> lg_free (sched_ledger s0)"
    "lg_free (sched_ledger s) = lg_free (sched_ledger s0) - segs_bytes segs"
    "next_lease_id s0 \<le> next_lease_id s"
    "\<And>seg. seg \<in> set segs \<Longrightarrow> next_lease_id s0 \<le> seg_lease_id seg"
  using assms unfolding batch_rel_def by (elim conjE; simp)+

lemma add_leases_snoc:
  "add_leases f (segs @ [seg]) = (add_leases f segs)(seg_lease_key seg \<mapsto> seg_range seg)"
  by (simp add: add_leases_def)

lemma add_leases_other: "k \<notin> seg_lease_key ` set segs \<Longrightarrow> add_leases f segs k = f k"
  by (induction segs rule: rev_induct) (auto simp: add_leases_snoc, simp add: add_leases_def)

lemma add_leases_mem:
  "distinct (map seg_lease_key segs) \<Longrightarrow> seg \<in> set segs \<Longrightarrow>
     add_leases f segs (seg_lease_key seg) = Some (seg_range seg)"
proof (induction segs rule: rev_induct)
  case (snoc x segs)
  show ?case
  proof (cases "seg_lease_key seg = seg_lease_key x")
    case True
    then have "seg = x" using snoc.prems by (auto simp: image_iff)
    then show ?thesis by (simp add: add_leases_snoc)
  next
    case False
    then show ?thesis using snoc by (auto simp: add_leases_snoc)
  qed
qed simp

lemma segs_bytes_snoc: "segs_bytes (segs @ [seg]) = segs_bytes segs \<union> br_bytes (seg_range seg)"
  by (auto simp: segs_bytes_def)

lemma segs_bytes_Nil [simp]: "segs_bytes [] = {}"
  by (simp add: segs_bytes_def)

lemma batch_refl: "sched_inv s \<Longrightarrow> batch_rel s s []"
  by (simp add: batch_rel_def add_leases_def run_refl)

lemma batch_view:
  assumes "batch_rel s0 s segs" "pmap s' = pmap s" "pieces s' = pieces s" "stopped s' = stopped s"
    "available_pieces s' = available_pieces s" "next_lease_id s' = next_lease_id s"
    "active_lease_count s' = active_lease_count s" "available_range_count s' = available_range_count s"
    "next_candidate s' < piece_count (pmap s) \<or> next_candidate s' = 0"
  shows "batch_rel s0 s' segs"
proof -
  note B = batch_relD [OF assms(1)]
  have "sched_inv s'" using sched_inv_view [OF B(1)] assms by simp
  moreover have l: "sched_ledger s' = sched_ledger s" using assms by (intro sched_ledger_view)
  moreover have "lease_range s' = lease_range s" using arg_cong [OF l, of lg_leases] by (simp add: sched_ledger_def)
  ultimately show ?thesis using assms(1-4,6) by (simp add: batch_rel_def)
qed

text \<open>The last leases given up again.\<close>

lemma lg_leases_ledger [simp]: "lg_leases (sched_ledger s) = lease_range s"
  by (simp add: sched_ledger_def)

lemma batch_issue:
  assumes b: "batch_rel s0 s segs" and i: "i < piece_count (pmap s0)"
    and nc: "\<not> completed (pmap s0) ! i" and r: "br_ok r" and room: "next_lease_id s < u64_max"
    and iss: "issue_lease s i r w = (s', Some seg)"
  shows "batch_rel s0 s' (segs @ [seg])"
proof -
  note B = batch_relD [OF b]
  note S = issue_lease_Some [OF B(1) _ _ r room iss, unfolded B(2), OF i nc]
  have key: "seg_lease_key seg = LeaseKey i (next_lease_id s)" and rng: "seg_range seg = r"
    using S(5-8) by (simp_all add: seg_lease_key_def seg_range_def)
  have fresh: "lease_range s (seg_lease_key seg) = None"
    using lease_range_piece(4) [OF B(1), of "seg_lease_key seg"] key
    by (cases "lease_range s (seg_lease_key seg)") auto
  have nk: "seg_lease_key seg \<notin> seg_lease_key ` set segs"
  proof
    assume "seg_lease_key seg \<in> seg_lease_key ` set segs"
    then obtain x where x: "x \<in> set segs" "seg_lease_key seg = seg_lease_key x" by auto
    then show False using add_leases_mem [OF B(6) x(1)] fresh B(5) by simp
  qed
  then have f0: "lease_range s0 (seg_lease_key seg) = None"
    using fresh add_leases_other B(5) by metis
  have sub: "br_bytes r \<subseteq> lg_free (sched_ledger s)"
    using S(4) i B(2) by (auto simp: sched_ledger_def)
  have "piece_free s i \<subseteq> piece_bytes (pmap s) i" using piece_free_subset [OF B(1)] i B(2) by simp
  then have fr: "lg_free (sched_ledger s') = lg_free (sched_ledger s) - br_bytes r"
    using S(4) i B(2) by (intro ledger_free_minus [OF B(1) _ S(15,17)]) auto
  have "ledger_run (sched_ledger s0) ([] @ []) (sched_ledger s')"
    using B(4) ledger_run_tau1 [OF S(2)] by (rule ledger_run_trans)
  then show ?thesis
    unfolding batch_rel_def
    using S(1,3,6,11-13) B(2,3,5-11) key rng nk f0 sub fr
    by (auto simp: add_leases_snoc segs_bytes_snoc)
qed

lemma batch_unissue:
  assumes b: "batch_rel s0 s (segs @ [seg])" and inv0: "sched_inv s0"
    and rc: "fst (reclaim s (seg_lease_key seg)) = s'"
  shows "batch_rel s0 s' segs"
proof -
  note B = batch_relD [OF b]
  have k: "lease_range s (seg_lease_key seg) = Some (seg_range seg)"
    using add_leases_mem [OF B(6)] B(5) by simp
  obtain ok where rc': "reclaim s (seg_lease_key seg) = (s', ok)" using rc by (cases "reclaim s (seg_lease_key seg)") auto
  note R = reclaim_known [OF B(1) k rc']
  have nk: "seg_lease_key seg \<notin> seg_lease_key ` set segs" using B(6) by simp
  have "lease_range s' = add_leases (lease_range s0) segs"
    unfolding R(4) B(5) add_leases_snoc
    using add_leases_other [OF nk, of "lease_range s0"] B(7) [of seg] by (simp add: fun_upd_idem)
  moreover have "segs_bytes segs \<inter> br_bytes (seg_range seg) = {}"
  proof -
    have "br_bytes (seg_range x) \<inter> br_bytes (seg_range seg) = {}" if x: "x \<in> set segs" for x
    proof (rule lease_range_disjoint [OF B(1)])
      show "lease_range s (seg_lease_key x) = Some (seg_range x)"
        using add_leases_mem [OF B(6), of x] B(5) x by simp
      show "seg_lease_key x \<noteq> seg_lease_key seg" using nk imageI [OF x, of seg_lease_key] by metis
    qed (rule k)
    then show ?thesis by (auto simp: segs_bytes_def)
  qed
  moreover have "ledger_run (sched_ledger s0) ([] @ []) (sched_ledger s')"
    using B(4) ledger_run_tau1 [OF R(3)] by (rule ledger_run_trans)
  ultimately show ?thesis
    unfolding batch_rel_def using R(2,5-8) B(2,3,6-11) by (auto simp: segs_bytes_snoc)
qed

lemma batch_rollback:
  "batch_rel s0 s segs \<Longrightarrow> sched_inv s0 \<Longrightarrow> batch_rel s0 (rollback s (rev segs)) []"
proof (induction segs arbitrary: s rule: rev_induct)
  case (snoc seg segs)
  then show ?case using batch_unissue [OF snoc.prems refl] by simp
qed simp

text \<open>A batch without leases left the ledger as it was.\<close>

lemma batch_empty:
  assumes "batch_rel s0 s []" "sched_inv s0"
  shows "sched_ledger s = sched_ledger s0"
proof -
  note B = batch_relD [OF assms(1)]
  have "lg_acked (sched_ledger s) = lg_acked (sched_ledger s0)"
    using ledger_run_sound [OF B(4) sched_ledger_inv [OF assms(2)]] by simp
  then show ?thesis using B(5,9) by (intro ledger_ext) (simp_all add: add_leases_def)
qed

lemma batch_refuse:
  assumes b: "batch_rel s0 s segs" and i: "i < piece_count (pmap s0)" and nc: "\<not> completed (pmap s0) ! i"
    and iss: "issue_lease s i r w = (s', None)"
  shows "batch_rel s0 s' segs" "next_lease_id s' = next_lease_id s"
proof -
  note B = batch_relD [OF b]
  note N = issue_lease_None [OF B(1) _ _ iss, unfolded B(2), OF i nc]
  have "lease_range s' = lease_range s" using arg_cong [OF N(2), of lg_leases] by simp
  then show "batch_rel s0 s' segs"
    using b N by (simp add: batch_rel_def)
  show "next_lease_id s' = next_lease_id s" by (rule N(5))
qed

lemma rollback_next_lease_id [simp]: "next_lease_id (rollback s segs) = next_lease_id s"
proof -
  have "\<And>s k. next_lease_id (fst (reclaim s k)) = next_lease_id s"
    by (simp add: reclaim_def split: option.split)
  then show ?thesis by (induction s segs rule: rollback.induct) simp_all
qed

definition issuable :: "scheduler_state \<Rightarrow> nat \<times> byte_range \<Rightarrow> bool" where
  "issuable s pr = (case pr of (i, r) \<Rightarrow> i < piece_count (pmap s) \<and> \<not> completed (pmap s) ! i \<and> br_ok r)"

definition seg_for :: "nat \<Rightarrow> nat \<times> byte_range \<Rightarrow> segment \<Rightarrow> bool" where
  "seg_for w pr seg \<longleftrightarrow> seg_piece_id seg = fst pr \<and> seg_range seg = snd pr \<and> owner_worker_id seg = w"

lemma issue_seg_for:
  assumes "batch_rel s0 s segs" "issuable s0 (i, r)" "next_lease_id s < u64_max"
    "issue_lease s i r w = (s', Some seg)"
  shows "batch_rel s0 s' (segs @ [seg])" "seg_for w (i, r) seg" "next_lease_id s' = Suc (next_lease_id s)"
proof -
  have I: "i < piece_count (pmap s0)" "\<not> completed (pmap s0) ! i" "br_ok r"
    using assms(2) by (simp_all add: issuable_def)
  note B = batch_relD [OF assms(1)]
  note S = issue_lease_Some [OF B(1) _ _ I(3) assms(3,4), unfolded B(2), OF I(1,2)]
  show "batch_rel s0 s' (segs @ [seg])" by (rule batch_issue [OF assms(1) I assms(3,4)])
  show "seg_for w (i, r) seg" using S(5-9) by (simp add: seg_for_def seg_range_def)
  show "next_lease_id s' = Suc (next_lease_id s)" by (rule S(13))
qed

lemma issue_all_batch:
  assumes "batch_rel s0 s acc" "sched_inv s0" "\<forall>pr \<in> set ps. issuable s0 pr"
    "next_lease_id s + length ps \<le> u64_max" "issue_all s ps w acc = (s', res)"
  shows "(\<exists>segs. res = Some (acc @ segs) \<and> batch_rel s0 s' (acc @ segs) \<and>
      list_all2 (seg_for w) ps segs) \<or> (res = None \<and> batch_rel s0 s' [])"
    and "next_lease_id s' \<le> next_lease_id s + length ps"
proof -
  have "((\<exists>segs. res = Some (acc @ segs) \<and> batch_rel s0 s' (acc @ segs) \<and>
      list_all2 (seg_for w) ps segs) \<or> (res = None \<and> batch_rel s0 s' [])) \<and>
      next_lease_id s' \<le> next_lease_id s + length ps"
    using assms
  proof (induction s ps w acc rule: issue_all.induct)
    case (1 s w segs)
    then show ?case by simp
  next
    case (2 s i r rest w segs)
    have I: "issuable s0 (i, r)" "\<forall>pr \<in> set rest. issuable s0 pr" using 2(4) by simp_all
    have room: "next_lease_id s < u64_max" using 2(5) by simp
    obtain s1 o1 where iss: "issue_lease s i r w = (s1, o1)" by (cases "issue_lease s i r w")
    show ?case
    proof (cases o1)
      case None
      have n: "issue_lease s i r w = (s1, None)" using iss None by simp
      have II: "i < piece_count (pmap s0)" "\<not> completed (pmap s0) ! i"
        using I(1) by (simp_all add: issuable_def)
      note R = batch_refuse [OF 2(2) II n]
      have "s' = rollback s1 (rev segs)" "res = None" using 2(6) n by simp_all
      then show ?thesis using batch_rollback [OF R(1) 2(3)] R(2) by simp
    next
      case (Some seg)
      have n: "issue_lease s i r w = (s1, Some seg)" using iss Some by simp
      note S = issue_seg_for [OF 2(2) I(1) room n]
      have rec: "issue_all s1 rest w (segs @ [seg]) = (s', res)" using 2(6) n by simp
      have room': "next_lease_id s1 + length rest \<le> u64_max" using 2(5) S(3) by simp
      have "((\<exists>more. res = Some ((segs @ [seg]) @ more) \<and> batch_rel s0 s' ((segs @ [seg]) @ more) \<and>
        list_all2 (seg_for w) rest more) \<or> (res = None \<and> batch_rel s0 s' [])) \<and>
        next_lease_id s' \<le> next_lease_id s1 + length rest"
        by (rule "2.IH" [OF n [symmetric] refl S(1) 2(3) I(2) room' rec])
      then show ?thesis using S(2,3)
        by auto
    qed
  qed
  then show "(\<exists>segs. res = Some (acc @ segs) \<and> batch_rel s0 s' (acc @ segs) \<and>
      list_all2 (seg_for w) ps segs) \<or> (res = None \<and> batch_rel s0 s' [])"
    "next_lease_id s' \<le> next_lease_id s + length ps" by blast+
qed

section \<open>Recovery batches\<close>

text \<open>Over distinct pieces, all ranges are issued exactly when all of them are
  free and the scheduler is running.\<close>

lemma issue_all_succeeds:
  assumes "sched_inv s" "\<forall>pr \<in> set ps. issuable s pr" "distinct (map fst ps)"
    "next_lease_id s + length ps \<le> u64_max" "\<not> stopped s"
  shows "snd (issue_all s ps w acc) \<noteq> None \<longleftrightarrow> (\<forall>(i, r) \<in> set ps. br_bytes r \<subseteq> piece_free s i)"
  using assms
proof (induction s ps w acc rule: issue_all.induct)
  case (2 s i r rest w segs)
  have I: "i < piece_count (pmap s)" "\<not> completed (pmap s) ! i" "br_ok r"
    using 2(3) by (simp_all add: issuable_def)
  have room: "next_lease_id s < u64_max" using 2(5) by simp
  obtain s1 o1 where iss: "issue_lease s i r w = (s1, o1)" by (cases "issue_lease s i r w")
  show ?case
  proof (cases o1)
    case None
    then have "\<not> br_bytes r \<subseteq> piece_free s i"
      using issue_lease_succeeds [OF 2(2) I 2(6), of w] iss by auto
    then show ?thesis using iss None by auto
  next
    case (Some seg)
    have n: "issue_lease s i r w = (s1, Some seg)" using iss Some by simp
    note S = issue_lease_Some [OF 2(2) I room n]
    have free: "\<And>j. j \<noteq> i \<Longrightarrow> piece_free s1 j = piece_free s j" by (rule elsewhere(4) [OF S(15)])
    have ni: "\<And>j q. (j, q) \<in> set rest \<Longrightarrow> j \<noteq> i" using 2(4) by force
    have "snd (issue_all s1 rest w (segs @ [seg])) \<noteq> None \<longleftrightarrow>
        (\<forall>(j, q) \<in> set rest. br_bytes q \<subseteq> piece_free s1 j)"
      by (rule "2.IH" [OF n [symmetric] refl S(1)])
        (use 2(3-6) S(11,12,13) in \<open>simp_all add: issuable_def\<close>)
    moreover have "(\<forall>(j, q) \<in> set rest. br_bytes q \<subseteq> piece_free s1 j) \<longleftrightarrow>
        (\<forall>(j, q) \<in> set rest. br_bytes q \<subseteq> piece_free s j)"
      using free ni by (intro ball_cong refl) auto
    ultimately show ?thesis using S(4) n by simp
  qed
qed simp

definition piece_ranges :: "(nat \<times> nat \<times> nat) list \<Rightarrow> (nat \<times> byte_range) list" where
  "piece_ranges ps = map (\<lambda>(piece_id, start, end'). (piece_id, \<lparr>br_start = start, br_end = end'\<rparr>)) ps"

lemma piece_count_u64: "pm_inv m \<Longrightarrow> piece_count m \<le> u64_max"
proof -
  assume m: "pm_inv m"
  have "piece_count m \<le> total_size m"
    using pm_inv_count [OF m] pm_inv_geometry [OF m] div_ceil_le_dividend by (simp add: geometry_ok_def)
  then show ?thesis using pm_inv_geometry [OF m] unfolding geometry_ok_def by linarith
qed

text \<open>What the validation loop establishes: every range lies inside its incomplete
  piece, pieces ascend one by one, and the byte ranges touch.\<close>

fun contiguous_from :: "(nat \<times> nat) option \<Rightarrow> (nat \<times> nat \<times> nat) list \<Rightarrow> bool" where
  "contiguous_from previous [] = True"
| "contiguous_from previous ((i, a, e) # rest) =
     ((case previous of None \<Rightarrow> True | Some (j, b) \<Rightarrow> i = Suc j \<and> a = b) \<and>
      contiguous_from (Some (i, e)) rest)"

lemma recovery_batch_valid_iff:
  assumes "pm_inv (pmap s)" "case previous of None \<Rightarrow> True | Some (j, b) \<Rightarrow> j < piece_count (pmap s)"
  shows "recovery_batch_valid s previous ps \<longleftrightarrow>
    contiguous_from previous ps \<and>
    (\<forall>(i, a, e) \<in> set ps. i < piece_count (pmap s) \<and> \<not> completed (pmap s) ! i \<and> a < e \<and>
       fst (piece_range (pmap s) i) \<le> a \<and> e \<le> snd (piece_range (pmap s) i))"
  using assms
proof (induction s previous ps rule: recovery_batch_valid.induct)
  case (2 s previous i a e rest)
  show ?case
  proof (cases "i < piece_count (pmap s)")
    case False
    then show ?thesis by simp
  next
    case True
    obtain ps pe where pr: "piece_range (pmap s) i = (ps, pe)" by (cases "piece_range (pmap s) i")
    have sat: "j < piece_count (pmap s) \<Longrightarrow> sat_add_u64 j 1 = Suc j" for j
      using piece_count_u64 [OF 2(2)] by (simp add: sat_add_u64_def)
    have IH: "\<lbrakk>\<not> (e \<le> a \<or> a < ps \<or> pe < e \<or> is_complete (pmap s) i \<or>
          (case previous of None \<Rightarrow> False | Some (j, b) \<Rightarrow> i \<noteq> sat_add_u64 j 1 \<or> a \<noteq> b))\<rbrakk> \<Longrightarrow>
        recovery_batch_valid s (Some (i, e)) rest \<longleftrightarrow>
        contiguous_from (Some (i, e)) rest \<and>
        (\<forall>(i, a, e) \<in> set rest. i < piece_count (pmap s) \<and> \<not> completed (pmap s) ! i \<and> a < e \<and>
           fst (piece_range (pmap s) i) \<le> a \<and> e \<le> snd (piece_range (pmap s) i))"
      by (rule "2.IH" [OF _ pr [symmetric]]) (use True 2(2) pr in auto)
    show ?thesis
      using IH True pr sat 2(3)
      by (auto simp: is_complete_def split: option.splits if_splits)
  qed
qed simp

lemma contiguous_distinct:
  "contiguous_from previous ps \<Longrightarrow> previous = Some (j, b) \<Longrightarrow> sorted_wrt (<) (j # map fst ps)"
proof (induction previous ps arbitrary: j b rule: contiguous_from.induct)
  case (2 previous i a e rest)
  then have i: "i = Suc j" and c: "contiguous_from (Some (i, e)) rest" by auto
  have "sorted_wrt (<) (i # map fst rest)" using "2.IH" [OF c refl] .
  then show ?case using i by auto
qed simp

lemma valid_distinct: "contiguous_from None ps \<Longrightarrow> distinct (map fst ps)"
proof (cases ps)
  case (Cons p rest)
  obtain i a e where p: "p = (i, a, e)" by (cases p)
  assume "contiguous_from None ps"
  then have "sorted_wrt (<) (map fst ps)"
    using contiguous_distinct [of "Some (i, e)" rest i e] Cons p by simp
  then show ?thesis using strict_sorted_iff by blast
qed simp

definition recovery_batch_ok :: "scheduler_state \<Rightarrow> (nat \<times> nat \<times> nat) list \<Rightarrow> bool" where
  "recovery_batch_ok s ps \<longleftrightarrow>
     ps \<noteq> [] \<and> length ps \<le> MAX_REQUEST_LEASES \<and> contiguous_from None ps \<and>
     (\<forall>(i, a, e) \<in> set ps. i < piece_count (pmap s) \<and> \<not> completed (pmap s) ! i \<and> a < e \<and>
       fst (piece_range (pmap s) i) \<le> a \<and> e \<le> snd (piece_range (pmap s) i))"

lemma assign_recovery_batch_alt:
  assumes "pm_inv (pmap s)"
  shows "assign_recovery_batch s ps w =
    (if recovery_batch_ok s ps then issue_all s (piece_ranges ps) w [] else (s, None))"
  using recovery_batch_valid_iff [OF assms, of None ps]
  by (auto simp: assign_recovery_batch_def recovery_batch_ok_def piece_ranges_def not_less)

lemma recovery_issuable:
  assumes "recovery_batch_ok s ps"
  shows "\<forall>pr \<in> set (piece_ranges ps). issuable s pr"
  using assms by (auto simp: recovery_batch_ok_def piece_ranges_def issuable_def br_ok_def)

text \<open>A recovery batch is issued as a whole or not at all.\<close>

lemma assign_recovery_batch_cases:
  assumes inv: "sched_inv s" and room: "next_lease_id s + MAX_REQUEST_LEASES \<le> u64_max"
    and asg: "assign_recovery_batch s ps w = (s', res)"
  shows "(\<exists>segs. res = Some segs \<and> batch_rel s s' segs \<and> list_all2 (seg_for w) (piece_ranges ps) segs \<and>
      recovery_batch_ok s ps) \<or> (res = None \<and> batch_rel s s' [])"
    and "next_lease_id s' \<le> next_lease_id s + MAX_REQUEST_LEASES"
proof -
  have "((\<exists>segs. res = Some segs \<and> batch_rel s s' segs \<and> list_all2 (seg_for w) (piece_ranges ps) segs \<and>
      recovery_batch_ok s ps) \<or> (res = None \<and> batch_rel s s' [])) \<and>
      next_lease_id s' \<le> next_lease_id s + MAX_REQUEST_LEASES"
  proof (cases "recovery_batch_ok s ps")
    case False
    then show ?thesis using asg batch_refl [OF inv] by (simp add: assign_recovery_batch_alt [OF sched_inv_map [OF inv]])
  next
    case True
    have run: "issue_all s (piece_ranges ps) w [] = (s', res)"
      using asg True by (simp add: assign_recovery_batch_alt [OF sched_inv_map [OF inv]])
    have len: "length (piece_ranges ps) \<le> MAX_REQUEST_LEASES"
      using True by (simp add: recovery_batch_ok_def piece_ranges_def)
    then have room': "next_lease_id s + length (piece_ranges ps) \<le> u64_max" using room by linarith
    show ?thesis
      using issue_all_batch [OF batch_refl [OF inv] inv recovery_issuable [OF True] room' run] True len
      by auto
  qed
  then show "(\<exists>segs. res = Some segs \<and> batch_rel s s' segs \<and> list_all2 (seg_for w) (piece_ranges ps) segs \<and>
      recovery_batch_ok s ps) \<or> (res = None \<and> batch_rel s s' [])"
    "next_lease_id s' \<le> next_lease_id s + MAX_REQUEST_LEASES" by blast+
qed

lemma assign_recovery_batch_iff:
  assumes inv: "sched_inv s" and room: "next_lease_id s + MAX_REQUEST_LEASES \<le> u64_max"
  shows "snd (assign_recovery_batch s ps w) \<noteq> None \<longleftrightarrow>
    \<not> stopped s \<and> recovery_batch_ok s ps \<and> (\<forall>(i, a, e) \<in> set ps. {a..<e} \<subseteq> piece_free s i)"
proof (cases "recovery_batch_ok s ps")
  case False
  then show ?thesis by (simp add: assign_recovery_batch_alt [OF sched_inv_map [OF inv]])
next
  case True
  have alt: "assign_recovery_batch s ps w = issue_all s (piece_ranges ps) w []"
    using True by (simp add: assign_recovery_batch_alt [OF sched_inv_map [OF inv]])
  have d: "distinct (map fst (piece_ranges ps))"
    using True valid_distinct [of ps]
    by (simp add: recovery_batch_ok_def piece_ranges_def comp_def split_def)
  have r: "next_lease_id s + length (piece_ranges ps) \<le> u64_max"
    using True room by (simp add: recovery_batch_ok_def piece_ranges_def)
  have free: "(\<forall>(i, r) \<in> set (piece_ranges ps). br_bytes r \<subseteq> piece_free s i) \<longleftrightarrow>
      (\<forall>(i, a, e) \<in> set ps. {a..<e} \<subseteq> piece_free s i)"
    by (simp add: piece_ranges_def br_bytes_def split_def)
  show ?thesis
  proof (cases "stopped s")
    case True
    obtain i r rest where "piece_ranges ps = (i, r) # rest"
      using \<open>recovery_batch_ok s ps\<close> by (cases ps) (auto simp: recovery_batch_ok_def piece_ranges_def)
    then show ?thesis using True by (simp add: alt issue_lease_stopped)
  next
    case False
    then show ?thesis
      using issue_all_succeeds [OF inv recovery_issuable [OF True] d r False, of w "[]"] True free
      by (simp add: alt)
  qed
qed

section \<open>Extending a whole-piece lease\<close>

text \<open>The segments a request gains: whole pieces, one after the other, starting
  where the request ends.\<close>

definition whole_run :: "piece_map \<Rightarrow> nat \<Rightarrow> nat \<Rightarrow> nat \<Rightarrow> segment list \<Rightarrow> bool" where
  "whole_run m w i0 b segs \<longleftrightarrow>
     (\<forall>j < length segs. seg_piece_id (segs ! j) = i0 + j \<and>
        piece_range m (i0 + j) = (seg_start (segs ! j), seg_end (segs ! j)) \<and>
        owner_worker_id (segs ! j) = w \<and>
        seg_start (segs ! j) = (if j = 0 then b else seg_end (segs ! (j - 1))))"

lemma whole_run_Nil [simp]: "whole_run m w i0 b []"
  by (simp add: whole_run_def)

lemma whole_run_snoc:
  assumes "whole_run m w i0 b segs" "seg_piece_id seg = i0 + length segs"
    "piece_range m (i0 + length segs) = (seg_start seg, seg_end seg)" "owner_worker_id seg = w"
    "seg_start seg = (if segs = [] then b else seg_end (last segs))"
  shows "whole_run m w i0 b (segs @ [seg])"
  using assms by (auto simp: whole_run_def nth_append less_Suc_eq last_conv_nth)

definition run_end :: "nat \<Rightarrow> segment list \<Rightarrow> nat" where
  "run_end b segs = (if segs = [] then b else seg_end (last segs))"

lemma avail_range_update:
  assumes "sched_inv s" "sched_inv s'" "same_elsewhere i s s'" "i < piece_count (pmap s)"
  shows "available_range_count s' + avail_count s i = available_range_count s + avail_count s' i"
proof -
  note S = assms(3) [unfolded same_elsewhere_def]
  have "(\<Sum>j < piece_count (pmap s). avail_count s' j) =
      (\<Sum>j < piece_count (pmap s). avail_count s j) - avail_count s i + avail_count s' i"
    using S by (intro sum_update [OF assms(4)]) (simp add: avail_count_def)
  then show ?thesis
    using S avail_count_le [OF assms(1,4)]
    by (simp add: sched_inv_avail [OF assms(1)] sched_inv_avail [OF assms(2)])
qed

lemma issue_whole_count:
  assumes inv: "sched_inv s" and i: "i < piece_count (pmap s)" and av: "available_pieces s ! i"
    and un: "bt_get (pieces s) i = None" and room: "next_lease_id s < u64_max"
    and iss: "issue_lease s i (full_range s i) w = (s', Some seg)"
  shows "available_range_count s = Suc (available_range_count s')"
proof -
  have nc: "\<not> completed (pmap s) ! i" by (rule available_not_complete [OF inv i av])
  note S = issue_lease_Some [OF inv i nc full_range_ok [OF inv i] room iss]
  have "piece_free s' i = {}"
    using S(17) un nc by (simp add: full_range_bytes piece_free_def)
  then have "avail_count s' i = 0"
    using available_iff [OF S(1)] avail_count_zero [OF S(1)] i S(11) by simp
  moreover have "avail_count s i = 1" using un nc by (simp add: avail_count_def)
  ultimately show ?thesis using avail_range_update [OF inv S(1,15) i] by simp
qed

definition extend_ok ::
  "scheduler_state \<Rightarrow> nat \<Rightarrow> nat \<Rightarrow> nat \<Rightarrow> nat \<Rightarrow> nat \<Rightarrow> nat \<Rightarrow> scheduler_state \<Rightarrow> segment list \<Rightarrow> bool" where
  "extend_ok s0 w i0 b first_start reserved byte_cap s segs \<longleftrightarrow>
     batch_rel s0 s segs \<and> whole_run (pmap s0) w i0 b segs \<and>
     length segs + 1 \<le> MAX_REQUEST_LEASES \<and>
     (segs \<noteq> [] \<longrightarrow> run_end b segs - first_start \<le> byte_cap \<and> reserved \<le> available_range_count s) \<and>
     next_lease_id s \<le> next_lease_id s0 + length segs"

lemma piece_range_mono:
  assumes "pm_inv m" "i < piece_count m" "j < piece_count m" "i \<le> j"
  shows "fst (piece_range m i) \<le> fst (piece_range m j)"
  using assms by (simp add: piece_range_exact)

text \<open>One round of the loop that gets its lease.\<close>

lemma extend_step:
  assumes ok: "extend_ok s0 w i0 b fs reserved byte_cap s segs" and inv0: "sched_inv s0"
    and pid: "pid = i0 + length segs" "pid < piece_count (pmap s0)"
    and lim: "length segs + 1 < MAX_REQUEST_LEASES" "reserved < available_range_count s"
    and av: "available_pieces s ! pid" and un: "bt_get (pieces s) pid = None"
    and fs: "fs \<le> b" and cap: "br_start (full_range s pid) = run_end b segs"
      "sub_u64 (br_end (full_range s pid)) fs \<le> byte_cap"
    and room: "next_lease_id s < u64_max"
    and iss: "issue_lease s pid (full_range s pid) w = (s1, Some seg)"
  shows "extend_ok s0 w i0 b fs reserved byte_cap
      (s1\<lparr>next_candidate := (pid + 1) mod piece_count (pmap s1)\<rparr>) (segs @ [seg])"
    and "seg_end seg = br_end (full_range s pid)"
proof -
  note K = ok [unfolded extend_ok_def]
  have b: "batch_rel s0 s segs" and wr0: "whole_run (pmap s0) w i0 b segs" using K by blast+
  note B = batch_relD [OF b]
  have i: "pid < piece_count (pmap s)" using pid(2) B(2) by simp
  have nc: "\<not> completed (pmap s) ! pid" by (rule available_not_complete [OF B(1) i av])
  note fr = full_range_ok [OF B(1) i]
  note S = issue_lease_Some [OF B(1) i nc fr room iss]
  have cnt: "available_range_count s = Suc (available_range_count s1)"
    by (rule issue_whole_count [OF B(1) i av un room iss])
  have "batch_rel s0 s1 (segs @ [seg])"
    using batch_issue [OF b pid(2) _ fr room iss] nc B(2) by simp
  then have b2: "batch_rel s0 (s1\<lparr>next_candidate := (pid + 1) mod piece_count (pmap s1)\<rparr>) (segs @ [seg])"
    by (rule batch_view) (use pid(2) S(11) B(2) in simp_all)
  have pr: "piece_range (pmap s0) pid = (seg_start seg, seg_end seg)"
    using S(7,8) by (cases "piece_range (pmap s) pid") (simp add: full_range_def B(2))
  have wr: "whole_run (pmap s0) w i0 b (segs @ [seg])"
    using wr0 S(5,9) pr pid(1) cap(1) [folded S(7), unfolded run_end_def]
    by (intro whole_run_snoc) simp_all
  have "fs \<le> seg_start seg"
  proof (cases "segs = []")
    case True
    then show ?thesis using fs cap(1) S(7) by (simp add: run_end_def)
  next
    case False
    then have z: "seg_start (segs ! 0) = b" "fst (piece_range (pmap s0) i0) = seg_start (segs ! 0)"
      using wr0 [unfolded whole_run_def, rule_format, of 0] by simp_all
    have "fst (piece_range (pmap s0) i0) \<le> fst (piece_range (pmap s0) pid)"
      using pid by (intro piece_range_mono sched_inv_map [OF inv0]) auto
    then show ?thesis using z pr fs by simp
  qed
  moreover have "seg_start seg < seg_end seg" using fr S(7,8) by (simp add: br_ok_def)
  ultimately have "seg_end seg - fs \<le> byte_cap" using cap(2) S(8) by simp
  then show "extend_ok s0 w i0 b fs reserved byte_cap
      (s1\<lparr>next_candidate := (pid + 1) mod piece_count (pmap s1)\<rparr>) (segs @ [seg])"
    unfolding extend_ok_def using b2 wr lim cnt K S(13) by (simp add: run_end_def)
  show "seg_end seg = br_end (full_range s pid)" by (rule S(8))
qed

lemma issue_refused_stopped:
  assumes "sched_inv s" "i < piece_count (pmap s)" "available_pieces s ! i" "bt_get (pieces s) i = None"
    "issue_lease s i (full_range s i) w = (s', None)"
  shows "s' = s"
proof -
  have nc: "\<not> completed (pmap s) ! i" by (rule available_not_complete [OF assms(1-3)])
  have "stopped s"
    using issue_lease_succeeds [OF assms(1,2) nc full_range_ok [OF assms(1,2)], of w] assms(4,5)
      full_range_bytes [of s i] nc by (auto simp: piece_free_def)
  then show ?thesis using assms(5) by (simp add: issue_lease_stopped)
qed

lemma extend_loop_ok:
  assumes "sched_inv s0" "next_lease_id s0 + MAX_REQUEST_LEASES \<le> u64_max"
    "extend_ok s0 w i0 b fs reserved byte_cap s segs"
    "pids = [i0 + length segs..<piece_count (pmap s0)]" "request_end = run_end b segs"
    "fs \<le> b"
    "extend_loop s pids w fs reserved byte_cap request_end segs = (s', segs', reason)"
  shows "extend_ok s0 w i0 b fs reserved byte_cap s' segs'"
  using assms
proof (induction s pids w fs reserved byte_cap request_end segs rule: extend_loop.induct)
  case (2 s pid rest w fs reserved byte_cap request_end segs)
  note ok = 2(4) [unfolded extend_ok_def]
  have B: "sched_inv s" "pmap s = pmap s0" using ok batch_relD by blast+
  have pid: "pid = i0 + length segs" "pid < piece_count (pmap s0)"
    "rest = [i0 + Suc (length segs)..<piece_count (pmap s0)]"
    using 2(5) [symmetric] by (auto simp: upt_eq_Cons_conv)
  obtain start e where pr: "piece_range (pmap s) pid = (start, e)" by (cases "piece_range (pmap s) pid")
  have fr: "full_range s pid = \<lparr>br_start = start, br_end = e\<rparr>" by (simp add: full_range_def pr)
  obtain s1 o1 where iss: "issue_lease s pid (full_range s pid) w = (s1, o1)"
    by (cases "issue_lease s pid (full_range s pid) w")
  show ?case
  proof (cases "MAX_REQUEST_LEASES \<le> length segs + 1 \<or> available_range_count s \<le> reserved \<or>
      \<not> available_pieces s ! pid \<or> bt_get (pieces s) pid \<noteq> None \<or>
      start \<noteq> request_end \<or> byte_cap < sub_u64 e fs")
    case True
    then show ?thesis using 2(4,8) by (auto simp: pr split: if_splits)
  next
    case False
    then have lim: "length segs + 1 < MAX_REQUEST_LEASES" "reserved < available_range_count s"
      and av: "available_pieces s ! pid" and un: "bt_get (pieces s) pid = None"
      and cap: "start = request_end" "sub_u64 e fs \<le> byte_cap" by auto
    show ?thesis
    proof (cases o1)
      case None
      then have "s1 = s"
        using iss issue_refused_stopped [OF B(1) _ av un] pid(2) B(2) by simp
      then show ?thesis using 2(4,8) False None iss by (simp add: pr fr)
    next
      case (Some seg)
      then have n: "issue_lease s pid (full_range s pid) w = (s1, Some seg)" using iss by simp
      have room: "next_lease_id s < u64_max" using ok lim(1) 2(3) by linarith
      have step: "extend_ok s0 w i0 b fs reserved byte_cap
          (s1\<lparr>next_candidate := (pid + 1) mod piece_count (pmap s1)\<rparr>) (segs @ [seg])"
        and e: "seg_end seg = e"
        using extend_step [OF 2(4,2) pid(1,2) lim av un 2(7) _ _ room n] cap 2(6) fr by simp_all
      have c: "\<not> MAX_REQUEST_LEASES \<le> length segs + 1" "\<not> available_range_count s \<le> reserved"
        "\<not> (\<not> available_pieces s ! pid \<or> bt_get (pieces s) pid \<noteq> None)"
        "\<not> (start \<noteq> request_end \<or> byte_cap < sub_u64 e fs)"
        using False by auto
      have rec: "extend_loop (s1\<lparr>next_candidate := (pid + 1) mod piece_count (pmap s1)\<rparr>) rest w fs
          reserved byte_cap e (segs @ [seg]) = (s', segs', reason)"
        using 2(8) c n [unfolded fr] by (simp add: pr)
      have r: "rest = [i0 + length (segs @ [seg])..<piece_count (pmap s0)]" "e = run_end b (segs @ [seg])"
        using pid(3) e by (simp_all add: run_end_def)
      show ?thesis
        by (rule "2.IH" [OF c(1-3) pr [symmetric] c(4) n [unfolded fr, symmetric] refl 2(2,3) step r 2(7) rec])
    qed
  qed
qed simp

lemma extend_ok_Nil: "sched_inv s \<Longrightarrow> extend_ok s w i0 b fs reserved byte_cap s []"
  by (simp add: extend_ok_def batch_refl MAX_REQUEST_LEASES_def)

lemma extend_batch_ok:
  assumes inv: "sched_inv s" and room: "next_lease_id s + MAX_REQUEST_LEASES \<le> u64_max"
    and ext: "extend_batch_with_occupied s first w mc occupied byte_cap = (s', add, reason)"
  shows "extend_ok s w (seg_piece_id first + 1) (seg_end first) (seg_start first)
    (mc - sat_add_u64 occupied 1) byte_cap s' add"
proof (cases "add = [] \<and> s' = s")
  case True
  then show ?thesis using extend_ok_Nil [OF inv] by simp
next
  case False
  obtain start e where pr: "piece_range (pmap s) (seg_piece_id first) = (start, e)"
    by (cases "piece_range (pmap s) (seg_piece_id first)")
  obtain p a where p: "bt_get (pieces s) (seg_piece_id first) = Some p"
    "bt_get (active_leases p) (seg_lease_id first) = Some a" "seg_start first = start" "seg_end first = e"
    and loop: "extend_loop s [seg_piece_id first + 1..<piece_count (pmap s)] w (seg_start first)
      (mc - sat_add_u64 occupied 1) byte_cap (seg_end first) [] = (s', add, reason)"
    using ext False by (auto simp: extend_batch_with_occupied_def pr split: option.splits if_splits)
  have "start < e"
    using piece_range_bounds(1) [OF sched_inv_map [OF inv] sched_inv_bound [OF inv p(1)]] pr by simp
  then show ?thesis
    using extend_loop_ok [OF inv room extend_ok_Nil [OF inv] _ _ _ loop] p(3,4)
    by (simp add: run_end_def)
qed

section \<open>Requests\<close>

lemma batch_trans:
  assumes "batch_rel s0 s1 xs" "batch_rel s1 s2 ys"
  shows "batch_rel s0 s2 (xs @ ys)"
proof -
  note A = batch_relD [OF assms(1)] and B = batch_relD [OF assms(2)]
  have ne: "seg_lease_key y \<notin> seg_lease_key ` set xs" if y: "y \<in> set ys" for y
  proof
    assume "seg_lease_key y \<in> seg_lease_key ` set xs"
    then obtain x where "x \<in> set xs" "seg_lease_key y = seg_lease_key x" by auto
    then show False using add_leases_mem [OF A(6), of x] B(7) [OF y] A(5) by simp
  qed
  have "\<forall>y \<in> set ys. lease_range s0 (seg_lease_key y) = None"
    using ne B(7) A(5) add_leases_other by metis
  moreover have "distinct (map seg_lease_key (xs @ ys))"
  proof -
    have "set (map seg_lease_key xs) \<inter> set (map seg_lease_key ys) = {}" using ne by (fastforce simp: image_iff)
    then show ?thesis using A(6) B(6) by simp
  qed
  moreover have "lease_range s2 = add_leases (lease_range s0) (xs @ ys)"
    using A(5) B(5) by (simp add: add_leases_def)
  moreover have "segs_bytes (xs @ ys) = segs_bytes xs \<union> segs_bytes ys" by (simp add: segs_bytes_def)
  moreover have "ledger_run (sched_ledger s0) ([] @ []) (sched_ledger s2)"
    using A(4) B(4) by (rule ledger_run_trans)
  moreover have "next_lease_id s0 \<le> next_lease_id s2" using A(10) B(10) by (rule order_trans)
  moreover have "\<forall>seg \<in> set (xs @ ys). next_lease_id s0 \<le> seg_lease_id seg"
    using A(11) order_trans [OF A(10) B(11)] by auto
  ultimately show ?thesis
    unfolding batch_rel_def using A(2,3,7,8,9) B(1-3,8,9) by auto
qed

lemma assign_batch:
  assumes inv: "sched_inv s" and room: "next_lease_id s < u64_max"
    and asg: "assign_to_with_split s w n m = (s', Some seg)"
  shows "batch_rel s s' [seg]" "next_lease_id s' = Suc (next_lease_id s)" "owner_worker_id seg = w"
    "seg_start seg < seg_end seg" "seg_piece_id seg < piece_count (pmap s)"
proof -
  obtain i r s1 where i: "i < piece_count (pmap s)" "available_pieces s ! i"
    and c: "candidate_range s i = Some r"
    and iss: "issue_lease s i (assignment_range_for s r n m) w = (s1, Some seg)"
    and s': "s' = s1\<lparr>next_candidate := (i + 1) mod piece_count (pmap s)\<rparr>"
    and nid: "next_lease_id s' = Suc (next_lease_id s)"
    using assign_Some [OF inv room asg] by metis
  have nc: "\<not> completed (pmap s) ! i" by (rule available_not_complete [OF inv i])
  note A = candidate_assignment [OF inv i c, of n m]
  note S = issue_lease_Some [OF inv i(1) nc A(1) room iss]
  have b: "batch_rel s s1 ([] @ [seg])" by (rule batch_issue [OF batch_refl [OF inv] i(1) nc A(1) room iss])
  show "batch_rel s s' [seg]"
    by (rule batch_view [of _ s1]) (use b i(1) S(11) in \<open>simp_all add: s'\<close>)
  show "next_lease_id s' = Suc (next_lease_id s)" by (rule nid)
  show "owner_worker_id seg = w" "seg_piece_id seg < piece_count (pmap s)" using S(5,9) i(1) by simp_all
  show "seg_start seg < seg_end seg" using S(7,8) A(1) by (simp add: br_ok_def)
qed

text \<open>What every new request satisfies: it owns between one and 64 leases, all of
  one worker, on adjacent byte ranges that were free, and its recorded byte range
  is the one of its leases.\<close>

definition contiguous_segs :: "segment list \<Rightarrow> bool" where
  "contiguous_segs segs \<longleftrightarrow> (\<forall>j. Suc j < length segs \<longrightarrow> seg_start (segs ! Suc j) = seg_end (segs ! j))"

definition request_ok :: "scheduler_state \<Rightarrow> nat \<Rightarrow> scheduler_state \<Rightarrow> request_assignment \<Rightarrow> bool" where
  "request_ok s w s' ra \<longleftrightarrow>
     batch_rel s s' (ra_segments ra) \<and> ra_segments ra \<noteq> [] \<and>
     length (ra_segments ra) \<le> MAX_REQUEST_LEASES \<and> contiguous_segs (ra_segments ra) \<and>
     (\<forall>seg \<in> set (ra_segments ra). owner_worker_id seg = w) \<and>
     final_start ra = seg_start (hd (ra_segments ra)) \<and>
     final_end ra = seg_end (last (ra_segments ra)) \<and>
     next_lease_id s' \<le> next_lease_id s + MAX_REQUEST_LEASES"

lemma whole_run_owner: "whole_run m w i0 b segs \<Longrightarrow> \<forall>seg \<in> set segs. owner_worker_id seg = w"
  by (auto simp: whole_run_def in_set_conv_nth)

lemma whole_run_contiguous:
  assumes "whole_run m w i0 (seg_end first) segs"
  shows "contiguous_segs (first # segs)"
  unfolding contiguous_segs_def
proof (intro allI impI)
  fix j assume j: "Suc j < length (first # segs)"
  have "seg_start (segs ! j) = (if j = 0 then seg_end first else seg_end (segs ! (j - 1)))"
    using assms j by (simp add: whole_run_def)
  then show "seg_start ((first # segs) ! Suc j) = seg_end ((first # segs) ! j)"
    by (cases j) simp_all
qed

lemma single_request_ok:
  assumes "sched_inv s" "next_lease_id s < u64_max" "assign_to_with_split s w n m = (s', Some seg)"
  shows "request_ok s w s' (ra_single seg slots occ)"
  using assign_batch [OF assms]
  by (simp add: request_ok_def ra_single_def contiguous_segs_def MAX_REQUEST_LEASES_def)

lemma assign_fixed_request_ok:
  assumes inv: "sched_inv s" and room: "next_lease_id s + MAX_REQUEST_LEASES + 1 \<le> u64_max"
    and asg: "assign_fixed_request s w mr ms occ cap slots diag = (s', Some ra)"
  shows "request_ok s w s' ra"
    and "length (ra_segments ra) > 1 \<Longrightarrow> final_end ra - final_start ra \<le> cap \<and>
      mr - sat_add_u64 occ 1 \<le> available_range_count s'"
proof -
  let ?n = "sat_add_u64 (active_lease_count s) slots"
  obtain s1 first where f: "assign_to_with_split s w ?n ms = (s1, Some first)"
    using asg by (cases "assign_to_with_split s w ?n ms"; cases "snd (assign_to_with_split s w ?n ms)")
      (auto simp: assign_fixed_request_def Let_def)
  define ext where "ext = (if attempt first = 1
      then extend_batch_with_occupied s1 first w mr occ cap else (s1, [], ''recovered_or_retried''))"
  obtain s2 add reason where e: "ext = (s2, add, reason)" by (cases ext)
  have s': "s' = s2" and ra: "ra_segments ra = first # add" "final_start ra = seg_start first"
    "final_end ra = seg_end (last (first # add))"
    using asg f e by (cases "attempt first = 1"; auto simp: assign_fixed_request_def Let_def ext_def)+
  have room1: "next_lease_id s < u64_max" using room by linarith
  note A = assign_batch [OF inv room1 f]
  have inv1: "sched_inv s1" using batch_relD(1) [OF A(1)] .
  have ok: "extend_ok s1 w (seg_piece_id first + 1) (seg_end first) (seg_start first)
      (mr - sat_add_u64 occ 1) cap s2 add"
  proof (cases "attempt first = 1")
    case True
    then show ?thesis using extend_batch_ok [OF inv1] room A(2) e by (simp add: ext_def)
  next
    case False
    then show ?thesis using e extend_ok_Nil [OF inv1] by (simp add: ext_def)
  qed
  note K = ok [unfolded extend_ok_def]
  have "batch_rel s s2 ([first] @ add)" using batch_trans [OF A(1)] K by blast
  moreover have "contiguous_segs (first # add)" using K whole_run_contiguous by blast
  moreover have "\<forall>seg \<in> set add. owner_worker_id seg = w" using K whole_run_owner by blast
  ultimately show "request_ok s w s' ra"
    using A(2,3) K by (simp add: request_ok_def ra s')
  show "length (ra_segments ra) > 1 \<Longrightarrow> final_end ra - final_start ra \<le> cap \<and>
      mr - sat_add_u64 occ 1 \<le> available_range_count s'"
    using K by (auto simp: ra s' run_end_def)
qed

end
