(* ===== verification/Config.thy ===== *)
theory Config
  imports Error_Model
begin

text \<open>
  Download specifications, \<open>src/config.rs\<close>, and the network configuration of
  \<open>src/network.rs\<close>: the enumerations with their text forms, the specification
  record with its defaults and builder methods, validation, and the resolution of
  per-task overrides against the client configuration.

  A \<open>Duration\<close> is its number of nanoseconds.  Whether the monotonic clock can
  represent a deadline depends on the platform, so the test
  \<open>Instant::now().checked_add(timeout)\<close> is the parameter \<open>deadline_ok\<close>.  URL
  parsing (\<open>url\<close>, \<open>http\<close>) and the process environment are parameters of the
  proxy resolution.
\<close>

section \<open>Enumerations\<close>

definition secs :: "nat \<Rightarrow> nat" where
  "secs n = n * 1000000000"

datatype log_level = LogOff | LogError | LogWarn | LogInfo | LogDebug | LogTrace

fun log_level_rank :: "log_level \<Rightarrow> nat" where
  "log_level_rank LogOff = 0"
| "log_level_rank LogError = 1"
| "log_level_rank LogWarn = 2"
| "log_level_rank LogInfo = 3"
| "log_level_rank LogDebug = 4"
| "log_level_rank LogTrace = 5"

instantiation log_level :: linorder
begin

definition less_log_level :: "log_level \<Rightarrow> log_level \<Rightarrow> bool" where
  "less_log_level a b \<longleftrightarrow> log_level_rank a < log_level_rank b"

definition less_eq_log_level :: "log_level \<Rightarrow> log_level \<Rightarrow> bool" where
  "less_eq_log_level a b \<longleftrightarrow> log_level_rank a \<le> log_level_rank b"

instance
proof
  fix a b :: log_level
  assume "a \<le> b" "b \<le> a"
  then have "log_level_rank a = log_level_rank b" by (simp add: less_eq_log_level_def)
  then show "a = b" by (cases a; cases b) simp_all
qed (auto simp: less_log_level_def less_eq_log_level_def)

end

definition log_level_to_string :: "log_level \<Rightarrow> string" where
  "log_level_to_string l =
     (case l of LogOff \<Rightarrow> ''off'' | LogError \<Rightarrow> ''error'' | LogWarn \<Rightarrow> ''warn'' | LogInfo \<Rightarrow> ''info''
      | LogDebug \<Rightarrow> ''debug'' | LogTrace \<Rightarrow> ''trace'')"

definition log_level_from_str :: "string \<Rightarrow> string + log_level" where
  "log_level_from_str s =
     (let l = map to_ascii_lower s
      in if l = ''off'' then Inr LogOff
         else if l = ''error'' then Inr LogError
         else if l = ''warn'' \<or> l = ''warning'' then Inr LogWarn
         else if l = ''info'' then Inr LogInfo
         else if l = ''debug'' then Inr LogDebug
         else if l = ''trace'' then Inr LogTrace
         else Inl (''invalid log level: '' @ [CHR 0x27] @ s @ [CHR 0x27] @
                   ''; expected one of: off, error, warn, info, debug, trace''))"

datatype tracing_level = ERROR | WARN | INFO | DEBUG | TRACE

definition log_enabled :: "log_level \<Rightarrow> tracing_level \<Rightarrow> bool" where
  "log_enabled l level =
     (case level of ERROR \<Rightarrow> LogError \<le> l | WARN \<Rightarrow> LogWarn \<le> l | INFO \<Rightarrow> LogInfo \<le> l
      | DEBUG \<Rightarrow> LogDebug \<le> l | TRACE \<Rightarrow> LogTrace \<le> l)"

text \<open>\<open>tracing::LevelFilter\<close>: \<open>None\<close> is its \<open>OFF\<close>, otherwise the most verbose level
  that passes.\<close>

definition to_tracing_level_filter :: "log_level \<Rightarrow> tracing_level option" where
  "to_tracing_level_filter l =
     (case l of LogOff \<Rightarrow> None | LogError \<Rightarrow> Some ERROR | LogWarn \<Rightarrow> Some WARN
      | LogInfo \<Rightarrow> Some INFO | LogDebug \<Rightarrow> Some DEBUG | LogTrace \<Rightarrow> Some TRACE)"

datatype file_allocation = AllocNone | Prealloc

datatype checksum = Sha256 string | Sha1 string | Md5 string | Sha512 string

datatype slow_transfer_mode = Disabled | Adaptive | AdaptiveWithHedging

datatype range_scheduling_mode = Fixed | Dynamic

definition range_scheduling_mode_to_string :: "range_scheduling_mode \<Rightarrow> string" where
  "range_scheduling_mode_to_string m = (case m of Fixed \<Rightarrow> ''fixed'' | Dynamic \<Rightarrow> ''dynamic'')"

definition range_scheduling_mode_from_str :: "string \<Rightarrow> string + range_scheduling_mode" where
  "range_scheduling_mode_from_str value =
     (let l = map to_ascii_lower value
      in if l = ''fixed'' then Inr Fixed
         else if l = ''dynamic'' then Inr Dynamic
         else Inl (''invalid range scheduling mode: '' @ [CHR 0x27] @ value @ [CHR 0x27] @
                   ''; expected one of: fixed, dynamic''))"

section \<open>Request sizes\<close>

definition effective_dynamic_min_split_size :: "nat \<Rightarrow> nat \<Rightarrow> nat" where
  "effective_dynamic_min_split_size psize configured =
     (let ps = max psize 1
      in max (sat_mul_u64 (div_ceil (max configured ps) ps) ps) ps)"

definition effective_dynamic_max_request_size :: "nat \<Rightarrow> nat \<Rightarrow> nat" where
  "effective_dynamic_max_request_size psize configured = max configured (max psize 1)"

section \<open>The specification\<close>

record network_overrides =
  no_all_proxy :: "string option"
  no_http_proxy :: "string option"
  no_https_proxy :: "string option"
  no_ca_info :: "string option"
  no_ca_path :: "string option"
  no_client_cert :: "string option"
  no_client_key :: "string option"
  no_connect_timeout :: "nat option"
  no_idle_pool :: "(nat \<times> nat) option"

record retry_config =
  max_retries :: nat
  retry_base_delay :: nat
  retry_max_delay :: nat
  max_retry_elapsed :: "nat option"

record scheduling_config =
  sch_piece_size :: nat
  request_batch_size :: nat
  range_scheduling_mode :: range_scheduling_mode
  dynamic_min_split_size :: nat
  dynamic_max_request_size :: nat
  min_split_size :: nat
  min_segment_size :: nat

record recovery_config =
  slow_transfer_mode :: slow_transfer_mode
  low_speed_limit :: "nat option"
  low_speed_duration :: nat
  slow_start_grace :: nat
  slow_sample_window :: nat

record storage_config =
  memory_budget :: nat
  file_allocation :: file_allocation
  channel_buffer :: nat
  resume :: bool
  sto_checksum :: "checksum option"
  control_save_interval :: nat
  autosave_sync_every :: nat

record download_spec =
  storage :: storage_config
  recovery :: recovery_config
  scheduling :: scheduling_config
  retry :: retry_config
  spec_url :: string
  output_path :: "string option"
  output_dir :: "string option"
  spec_headers :: "string \<Rightarrow> string option"
  max_connections :: nat
  network_overrides :: network_overrides
  read_timeout :: nat
  request_headers_timeout :: "nat option"
  max_download_speed :: nat

definition no_overrides :: network_overrides where
  "no_overrides = \<lparr>no_all_proxy = None, no_http_proxy = None, no_https_proxy = None,
     no_ca_info = None, no_ca_path = None, no_client_cert = None, no_client_key = None,
     no_connect_timeout = None, no_idle_pool = None\<rparr>"

definition DEFAULT_HTTP_IDLE_POOL_MAX_PER_HOST :: nat where
  "DEFAULT_HTTP_IDLE_POOL_MAX_PER_HOST = 4"

definition DEFAULT_HTTP_IDLE_POOL_TIMEOUT :: nat where
  "DEFAULT_HTTP_IDLE_POOL_TIMEOUT = secs 30"

definition DEFAULT_REQUEST_BATCH_SIZE :: nat where
  "DEFAULT_REQUEST_BATCH_SIZE = 4 * 1024 * 1024"

definition DEFAULT_DYNAMIC_MIN_SPLIT_SIZE :: nat where
  "DEFAULT_DYNAMIC_MIN_SPLIT_SIZE = 1024 * 1024"

definition DEFAULT_DYNAMIC_MAX_REQUEST_SIZE :: nat where
  "DEFAULT_DYNAMIC_MAX_REQUEST_SIZE = 64 * 1024 * 1024"

definition download_spec_new :: "string \<Rightarrow> download_spec" where
  "download_spec_new url =
     \<lparr>storage = \<lparr>memory_budget = 64 * 1024 * 1024, file_allocation = Prealloc, channel_buffer = 64,
        resume = True, sto_checksum = None, control_save_interval = secs 5, autosave_sync_every = 2\<rparr>,
      recovery = \<lparr>slow_transfer_mode = Adaptive, low_speed_limit = None,
        low_speed_duration = secs 15, slow_start_grace = secs 5, slow_sample_window = secs 5\<rparr>,
      scheduling = \<lparr>sch_piece_size = 1024 * 1024, request_batch_size = DEFAULT_REQUEST_BATCH_SIZE,
        range_scheduling_mode = Dynamic, dynamic_min_split_size = DEFAULT_DYNAMIC_MIN_SPLIT_SIZE,
        dynamic_max_request_size = DEFAULT_DYNAMIC_MAX_REQUEST_SIZE,
        min_split_size = 10 * 1024 * 1024, min_segment_size = 256 * 1024\<rparr>,
      retry = \<lparr>max_retries = 5, retry_base_delay = secs 1, retry_max_delay = secs 30,
        max_retry_elapsed = None\<rparr>,
      spec_url = url, output_path = None, output_dir = None, spec_headers = (\<lambda>_. None),
      max_connections = 4, network_overrides = no_overrides, read_timeout = secs 60,
      request_headers_timeout = None, max_download_speed = 0\<rparr>"

definition get_connect_timeout :: "download_spec \<Rightarrow> nat" where
  "get_connect_timeout spec =
     (case no_connect_timeout (network_overrides spec) of Some t \<Rightarrow> t | None \<Rightarrow> secs 30)"

definition get_pool_max_idle_per_host :: "download_spec \<Rightarrow> nat" where
  "get_pool_max_idle_per_host spec =
     (case no_idle_pool (network_overrides spec) of
        None \<Rightarrow> DEFAULT_HTTP_IDLE_POOL_MAX_PER_HOST | Some pool \<Rightarrow> fst pool)"

definition get_pool_idle_timeout :: "download_spec \<Rightarrow> nat" where
  "get_pool_idle_timeout spec =
     (case no_idle_pool (network_overrides spec) of
        None \<Rightarrow> DEFAULT_HTTP_IDLE_POOL_TIMEOUT | Some pool \<Rightarrow> snd pool)"

definition has_connect_timeout_override :: "download_spec \<Rightarrow> bool" where
  "has_connect_timeout_override spec \<longleftrightarrow> no_connect_timeout (network_overrides spec) \<noteq> None"

definition has_proxy_override :: "download_spec \<Rightarrow> bool" where
  "has_proxy_override spec \<longleftrightarrow>
     no_all_proxy (network_overrides spec) \<noteq> None \<or>
     no_http_proxy (network_overrides spec) \<noteq> None \<or>
     no_https_proxy (network_overrides spec) \<noteq> None"

definition has_pool_override :: "download_spec \<Rightarrow> bool" where
  "has_pool_override spec \<longleftrightarrow> no_idle_pool (network_overrides spec) \<noteq> None"

definition get_effective_dynamic_min_split_size :: "download_spec \<Rightarrow> nat" where
  "get_effective_dynamic_min_split_size spec =
     effective_dynamic_min_split_size (sch_piece_size (scheduling spec))
       (dynamic_min_split_size (scheduling spec))"

definition get_effective_dynamic_max_request_size :: "download_spec \<Rightarrow> nat" where
  "get_effective_dynamic_max_request_size spec =
     effective_dynamic_max_request_size (sch_piece_size (scheduling spec))
       (dynamic_max_request_size (scheduling spec))"

section \<open>Builder methods\<close>

definition with_request_headers_timeout :: "nat \<Rightarrow> download_spec \<Rightarrow> download_spec" where
  "with_request_headers_timeout v spec = spec\<lparr>request_headers_timeout := Some v\<rparr>"

definition with_request_batch_size :: "nat \<Rightarrow> download_spec \<Rightarrow> download_spec" where
  "with_request_batch_size v spec = spec\<lparr>scheduling := (scheduling spec)\<lparr>request_batch_size := v\<rparr>\<rparr>"

definition with_range_scheduling_mode :: "range_scheduling_mode \<Rightarrow> download_spec \<Rightarrow> download_spec" where
  "with_range_scheduling_mode v spec = spec\<lparr>scheduling := (scheduling spec)\<lparr>range_scheduling_mode := v\<rparr>\<rparr>"

definition with_dynamic_min_split_size :: "nat \<Rightarrow> download_spec \<Rightarrow> download_spec" where
  "with_dynamic_min_split_size v spec = spec\<lparr>scheduling := (scheduling spec)\<lparr>dynamic_min_split_size := v\<rparr>\<rparr>"

definition with_dynamic_max_request_size :: "nat \<Rightarrow> download_spec \<Rightarrow> download_spec" where
  "with_dynamic_max_request_size v spec = spec\<lparr>scheduling := (scheduling spec)\<lparr>dynamic_max_request_size := v\<rparr>\<rparr>"

definition with_output_path :: "string \<Rightarrow> download_spec \<Rightarrow> download_spec" where
  "with_output_path v spec = spec\<lparr>output_path := Some v\<rparr>"

definition with_output_dir :: "string \<Rightarrow> download_spec \<Rightarrow> download_spec" where
  "with_output_dir v spec = spec\<lparr>output_dir := Some v\<rparr>"

definition with_headers :: "(string \<Rightarrow> string option) \<Rightarrow> download_spec \<Rightarrow> download_spec" where
  "with_headers v spec = spec\<lparr>spec_headers := v\<rparr>"

definition with_max_connections :: "nat \<Rightarrow> download_spec \<Rightarrow> download_spec" where
  "with_max_connections v spec = spec\<lparr>max_connections := v\<rparr>"

definition with_connect_timeout :: "nat \<Rightarrow> download_spec \<Rightarrow> download_spec" where
  "with_connect_timeout v spec = spec\<lparr>network_overrides := (network_overrides spec)\<lparr>no_connect_timeout := Some v\<rparr>\<rparr>"

definition with_all_proxy :: "string \<Rightarrow> download_spec \<Rightarrow> download_spec" where
  "with_all_proxy v spec = spec\<lparr>network_overrides := (network_overrides spec)\<lparr>no_all_proxy := Some v\<rparr>\<rparr>"

definition with_http_proxy :: "string \<Rightarrow> download_spec \<Rightarrow> download_spec" where
  "with_http_proxy v spec = spec\<lparr>network_overrides := (network_overrides spec)\<lparr>no_http_proxy := Some v\<rparr>\<rparr>"

definition with_https_proxy :: "string \<Rightarrow> download_spec \<Rightarrow> download_spec" where
  "with_https_proxy v spec = spec\<lparr>network_overrides := (network_overrides spec)\<lparr>no_https_proxy := Some v\<rparr>\<rparr>"

definition with_ca_info :: "string \<Rightarrow> download_spec \<Rightarrow> download_spec" where
  "with_ca_info v spec = spec\<lparr>network_overrides := (network_overrides spec)\<lparr>no_ca_info := Some v\<rparr>\<rparr>"

definition with_ca_path :: "string \<Rightarrow> download_spec \<Rightarrow> download_spec" where
  "with_ca_path v spec = spec\<lparr>network_overrides := (network_overrides spec)\<lparr>no_ca_path := Some v\<rparr>\<rparr>"

definition with_client_cert :: "string \<Rightarrow> download_spec \<Rightarrow> download_spec" where
  "with_client_cert v spec = spec\<lparr>network_overrides := (network_overrides spec)\<lparr>no_client_cert := Some v\<rparr>\<rparr>"

definition with_client_key :: "string \<Rightarrow> download_spec \<Rightarrow> download_spec" where
  "with_client_key v spec = spec\<lparr>network_overrides := (network_overrides spec)\<lparr>no_client_key := Some v\<rparr>\<rparr>"

definition with_read_timeout :: "nat \<Rightarrow> download_spec \<Rightarrow> download_spec" where
  "with_read_timeout v spec = spec\<lparr>read_timeout := v\<rparr>"

definition with_slow_transfer_mode :: "slow_transfer_mode \<Rightarrow> download_spec \<Rightarrow> download_spec" where
  "with_slow_transfer_mode v spec = spec\<lparr>recovery := (recovery spec)\<lparr>slow_transfer_mode := v\<rparr>\<rparr>"

definition with_low_speed_limit :: "nat \<Rightarrow> download_spec \<Rightarrow> download_spec" where
  "with_low_speed_limit v spec = spec\<lparr>recovery := (recovery spec)\<lparr>low_speed_limit := Some v\<rparr>\<rparr>"

definition with_low_speed_duration :: "nat \<Rightarrow> download_spec \<Rightarrow> download_spec" where
  "with_low_speed_duration v spec = spec\<lparr>recovery := (recovery spec)\<lparr>low_speed_duration := v\<rparr>\<rparr>"

definition with_slow_start_grace :: "nat \<Rightarrow> download_spec \<Rightarrow> download_spec" where
  "with_slow_start_grace v spec = spec\<lparr>recovery := (recovery spec)\<lparr>slow_start_grace := v\<rparr>\<rparr>"

definition with_slow_sample_window :: "nat \<Rightarrow> download_spec \<Rightarrow> download_spec" where
  "with_slow_sample_window v spec = spec\<lparr>recovery := (recovery spec)\<lparr>slow_sample_window := v\<rparr>\<rparr>"

definition with_memory_budget :: "nat \<Rightarrow> download_spec \<Rightarrow> download_spec" where
  "with_memory_budget v spec = spec\<lparr>storage := (storage spec)\<lparr>memory_budget := v\<rparr>\<rparr>"

definition with_file_allocation :: "file_allocation \<Rightarrow> download_spec \<Rightarrow> download_spec" where
  "with_file_allocation v spec = spec\<lparr>storage := (storage spec)\<lparr>file_allocation := v\<rparr>\<rparr>"

definition with_channel_buffer :: "nat \<Rightarrow> download_spec \<Rightarrow> download_spec" where
  "with_channel_buffer v spec = spec\<lparr>storage := (storage spec)\<lparr>channel_buffer := v\<rparr>\<rparr>"

definition with_resume :: "bool \<Rightarrow> download_spec \<Rightarrow> download_spec" where
  "with_resume v spec = spec\<lparr>storage := (storage spec)\<lparr>resume := v\<rparr>\<rparr>"

definition with_piece_size :: "nat \<Rightarrow> download_spec \<Rightarrow> download_spec" where
  "with_piece_size v spec = spec\<lparr>scheduling := (scheduling spec)\<lparr>sch_piece_size := v\<rparr>\<rparr>"

definition with_min_split_size :: "nat \<Rightarrow> download_spec \<Rightarrow> download_spec" where
  "with_min_split_size v spec = spec\<lparr>scheduling := (scheduling spec)\<lparr>min_split_size := v\<rparr>\<rparr>"

definition with_min_segment_size :: "nat \<Rightarrow> download_spec \<Rightarrow> download_spec" where
  "with_min_segment_size v spec = spec\<lparr>scheduling := (scheduling spec)\<lparr>min_segment_size := v\<rparr>\<rparr>"

definition with_max_retries :: "nat \<Rightarrow> download_spec \<Rightarrow> download_spec" where
  "with_max_retries v spec = spec\<lparr>retry := (retry spec)\<lparr>max_retries := v\<rparr>\<rparr>"

definition with_retry_base_delay :: "nat \<Rightarrow> download_spec \<Rightarrow> download_spec" where
  "with_retry_base_delay v spec = spec\<lparr>retry := (retry spec)\<lparr>retry_base_delay := v\<rparr>\<rparr>"

definition with_retry_max_delay :: "nat \<Rightarrow> download_spec \<Rightarrow> download_spec" where
  "with_retry_max_delay v spec = spec\<lparr>retry := (retry spec)\<lparr>retry_max_delay := v\<rparr>\<rparr>"

definition with_max_retry_elapsed :: "nat \<Rightarrow> download_spec \<Rightarrow> download_spec" where
  "with_max_retry_elapsed v spec = spec\<lparr>retry := (retry spec)\<lparr>max_retry_elapsed := Some v\<rparr>\<rparr>"

definition with_max_download_speed :: "nat \<Rightarrow> download_spec \<Rightarrow> download_spec" where
  "with_max_download_speed v spec = spec\<lparr>max_download_speed := v\<rparr>"

definition with_checksum :: "checksum \<Rightarrow> download_spec \<Rightarrow> download_spec" where
  "with_checksum v spec = spec\<lparr>storage := (storage spec)\<lparr>sto_checksum := Some v\<rparr>\<rparr>"

definition with_control_save_interval :: "nat \<Rightarrow> download_spec \<Rightarrow> download_spec" where
  "with_control_save_interval v spec = spec\<lparr>storage := (storage spec)\<lparr>control_save_interval := v\<rparr>\<rparr>"

definition with_autosave_sync_every :: "nat \<Rightarrow> download_spec \<Rightarrow> download_spec" where
  "with_autosave_sync_every v spec = spec\<lparr>storage := (storage spec)\<lparr>autosave_sync_every := v\<rparr>\<rparr>"

definition with_http_idle_pool :: "nat \<Rightarrow> nat \<Rightarrow> download_spec \<Rightarrow> download_spec" where
  "with_http_idle_pool max_idle_per_host idle_timeout spec =
     spec\<lparr>network_overrides :=
       (network_overrides spec)\<lparr>no_idle_pool := Some (max_idle_per_host, idle_timeout)\<rparr>\<rparr>"

definition disable_http_idle_pool :: "download_spec \<Rightarrow> download_spec" where
  "disable_http_idle_pool spec =
     spec\<lparr>network_overrides :=
       (network_overrides spec)\<lparr>no_idle_pool := Some (0, get_pool_idle_timeout spec)\<rparr>\<rparr>"

definition retry_policy :: "nat \<Rightarrow> nat \<Rightarrow> nat \<Rightarrow> download_spec \<Rightarrow> download_spec" where
  "retry_policy retries base_delay max_delay spec =
     spec\<lparr>retry := (retry spec)\<lparr>max_retries := retries, retry_base_delay := base_delay,
       retry_max_delay := max_delay\<rparr>\<rparr>"

section \<open>Validation\<close>

definition require_nonzero :: "string \<Rightarrow> nat \<Rightarrow> unit dl_result" where
  "require_nonzero field value =
     (if value = 0 then Inl (InvalidConfig (field @ '' must be >= 1'')) else Inr ())"

text \<open>\<open>?\<close> on a unit result: the first error ends the function.\<close>

fun and_then :: "unit dl_result \<Rightarrow> unit dl_result \<Rightarrow> unit dl_result" where
  "and_then (Inl e) r = Inl e"
| "and_then (Inr u) r = r"

fun all_ok :: "unit dl_result list \<Rightarrow> unit dl_result" where
  "all_ok [] = Inr ()"
| "all_ok (r # rs) = and_then r (all_ok rs)"

definition invalid_if :: "bool \<Rightarrow> string \<Rightarrow> unit dl_result" where
  "invalid_if b message = (if b then Inl (InvalidConfig message) else Inr ())"

definition blank :: "string \<Rightarrow> bool" where
  "blank s \<longleftrightarrow> trim s = []"

definition checksum_value :: "checksum \<Rightarrow> string" where
  "checksum_value c = (case c of Sha256 v \<Rightarrow> v | Sha1 v \<Rightarrow> v | Md5 v \<Rightarrow> v | Sha512 v \<Rightarrow> v)"

definition validate_span :: "string \<times> nat \<Rightarrow> unit dl_result" where
  "validate_span nv =
     (case nv of (name, value) \<Rightarrow>
        invalid_if (value = 0 \<or> secs 86400 < value) (name @ '' must be > 0 and <= 86400 seconds''))"

definition validate_proxy :: "string \<times> string option \<Rightarrow> unit dl_result" where
  "validate_proxy lv =
     (case lv of (label, value) \<Rightarrow>
        (case value of None \<Rightarrow> Inr () | Some v \<Rightarrow> invalid_if (blank v) (label @ '' cannot be empty'')))"

definition validate :: "(nat \<Rightarrow> bool) \<Rightarrow> download_spec \<Rightarrow> unit dl_result" where
  "validate deadline_ok spec =
     all_ok (
       [case low_speed_limit (recovery spec) of
          None \<Rightarrow> Inr () | Some limit \<Rightarrow> require_nonzero ''low_speed_limit'' limit] @
       map validate_span
         [(''low_speed_duration'', low_speed_duration (recovery spec)),
          (''slow_start_grace'', slow_start_grace (recovery spec)),
          (''slow_sample_window'', slow_sample_window (recovery spec))] @
       [invalid_if (control_save_interval (storage spec) = 0)
          ''control_save_interval must be > 0 seconds'',
        invalid_if (case request_headers_timeout spec of
                      None \<Rightarrow> False | Some t \<Rightarrow> t = 0 \<or> \<not> deadline_ok t)
          ''request_headers_timeout must be positive and representable as a deadline'',
        invalid_if (blank (spec_url spec)) ''url cannot be empty''] @
       map validate_proxy
         [(''all_proxy'', no_all_proxy (network_overrides spec)),
          (''http_proxy'', no_http_proxy (network_overrides spec)),
          (''https_proxy'', no_https_proxy (network_overrides spec))] @
       [require_nonzero ''max_connections'' (max_connections spec),
        require_nonzero ''memory_budget'' (memory_budget (storage spec)),
        require_nonzero ''channel_buffer'' (channel_buffer (storage spec)),
        require_nonzero ''piece_size'' (sch_piece_size (scheduling spec)),
        require_nonzero ''min_split_size'' (min_split_size (scheduling spec)),
        require_nonzero ''min_segment_size'' (min_segment_size (scheduling spec)),
        require_nonzero ''dynamic_min_split_size'' (dynamic_min_split_size (scheduling spec)),
        require_nonzero ''dynamic_max_request_size'' (dynamic_max_request_size (scheduling spec)),
        require_nonzero ''autosave_sync_every'' (autosave_sync_every (storage spec)),
        invalid_if (retry_max_delay (retry spec) < retry_base_delay (retry spec))
          ''retry_base_delay cannot exceed retry_max_delay'',
        case sto_checksum (storage spec) of
          None \<Rightarrow> Inr ()
        | Some c \<Rightarrow> invalid_if (blank (checksum_value c)) ''checksum value cannot be empty''])"

section \<open>Network configuration\<close>

record client_network_config =
  connect_timeout :: nat
  pool_max_idle_per_host :: nat
  pool_idle_timeout :: nat
  all_proxy :: "string option"
  http_proxy :: "string option"
  https_proxy :: "string option"
  ca_info :: "string option"
  ca_path :: "string option"
  client_cert :: "string option"
  client_key :: "string option"
  dns_servers :: "string list"
  doh_servers :: "string list"
  enable_ipv6 :: bool
  multi_ip :: bool

definition default_network_config :: client_network_config where
  "default_network_config =
     \<lparr>connect_timeout = secs 30, pool_max_idle_per_host = DEFAULT_HTTP_IDLE_POOL_MAX_PER_HOST,
      pool_idle_timeout = DEFAULT_HTTP_IDLE_POOL_TIMEOUT, all_proxy = None, http_proxy = None,
      https_proxy = None, ca_info = None, ca_path = None, client_cert = None, client_key = None,
      dns_servers = [], doh_servers = [], enable_ipv6 = True, multi_ip = False\<rparr>"

definition overriding :: "'a option \<Rightarrow> 'a option \<Rightarrow> 'a option" where
  "overriding new old = (case new of Some v \<Rightarrow> Some v | None \<Rightarrow> old)"

definition resolve_network_config ::
  "download_spec \<Rightarrow> client_network_config \<Rightarrow> client_network_config" where
  "resolve_network_config spec base =
     (let r0 = base;
          r1 = (if has_connect_timeout_override spec
                then r0\<lparr>connect_timeout := get_connect_timeout spec\<rparr> else r0);
          r2 = (if has_pool_override spec
                then let r = r1\<lparr>pool_max_idle_per_host := get_pool_max_idle_per_host spec\<rparr>
                     in if 0 < pool_max_idle_per_host r
                        then r\<lparr>pool_idle_timeout := get_pool_idle_timeout spec\<rparr> else r
                else r1);
          no = network_overrides spec;
          r3 = (if has_proxy_override spec
                then r2\<lparr>all_proxy := no_all_proxy no, http_proxy := no_http_proxy no,
                        https_proxy := no_https_proxy no\<rparr>
                else r2)
      in r3\<lparr>ca_info := overriding (no_ca_info no) (ca_info r3),
            ca_path := overriding (no_ca_path no) (ca_path r3),
            client_cert := overriding (no_client_cert no) (client_cert r3),
            client_key := overriding (no_client_key no) (client_key r3)\<rparr>)"

definition with_client_connect_timeout :: "client_network_config \<Rightarrow> nat \<Rightarrow> client_network_config" where
  "with_client_connect_timeout c t = c\<lparr>connect_timeout := t\<rparr>"

text \<open>\<open>env_proxy_value\<close>: the first of the named environment variables with a
  non-blank value.\<close>

fun env_proxy_value :: "(string \<Rightarrow> string option) \<Rightarrow> string list \<Rightarrow> string option" where
  "env_proxy_value env [] = None"
| "env_proxy_value env (name # names) =
     (case env name of
        Some value \<Rightarrow> if trim value \<noteq> [] then Some (trim value) else env_proxy_value env names
      | None \<Rightarrow> env_proxy_value env names)"

definition proxy_uri ::
  "(string \<Rightarrow> string option) \<Rightarrow> (string \<Rightarrow> string + string) \<Rightarrow> (string \<Rightarrow> string + 'uri) \<Rightarrow>
    string option \<Rightarrow> string list \<Rightarrow> string \<Rightarrow> 'uri option dl_result" where
  "proxy_uri env url_scheme parse_uri explicit env_names label =
     (let value = (case explicit of
                     Some v \<Rightarrow> if trim v \<noteq> [] then Some (trim v) else env_proxy_value env env_names
                   | None \<Rightarrow> env_proxy_value env env_names)
      in case value of
           None \<Rightarrow> Inr None
         | Some v \<Rightarrow>
             (case url_scheme v of
                Inl error \<Rightarrow> Inl (InvalidConfig (''invalid '' @ label @ '' URL '' @ [CHR 0x27] @ v @
                               [CHR 0x27] @ '': '' @ error))
              | Inr scheme \<Rightarrow>
                  if scheme \<noteq> ''http'' \<and> scheme \<noteq> ''https''
                  then Inl (InvalidConfig (label @ '' URL '' @ [CHR 0x27] @ v @ [CHR 0x27] @
                              '' must use http or https''))
                  else (case parse_uri v of
                          Inl error \<Rightarrow> Inl (InvalidConfig (''invalid '' @ label @ '' URL '' @
                                         [CHR 0x27] @ v @ [CHR 0x27] @ '': '' @ error))
                        | Inr uri \<Rightarrow> Inr (Some uri))))"

record 'uri effective_proxy_config =
  ep_all_proxy :: "'uri option"
  ep_http_proxy :: "'uri option"
  ep_https_proxy :: "'uri option"

definition has_proxy :: "'uri effective_proxy_config \<Rightarrow> bool" where
  "has_proxy c \<longleftrightarrow> ep_all_proxy c \<noteq> None \<or> ep_http_proxy c \<noteq> None \<or> ep_https_proxy c \<noteq> None"

definition effective_proxies ::
  "(string \<Rightarrow> string option) \<Rightarrow> (string \<Rightarrow> string + string) \<Rightarrow> (string \<Rightarrow> string + 'uri) \<Rightarrow>
    client_network_config \<Rightarrow> 'uri effective_proxy_config dl_result" where
  "effective_proxies env url_scheme parse_uri c =
     (case proxy_uri env url_scheme parse_uri (all_proxy c) [''ALL_PROXY'', ''all_proxy''] ''all_proxy'' of
        Inl e \<Rightarrow> Inl e
      | Inr a \<Rightarrow>
          (case proxy_uri env url_scheme parse_uri (http_proxy c) [''HTTP_PROXY'', ''http_proxy'']
                  ''http_proxy'' of
             Inl e \<Rightarrow> Inl e
           | Inr h \<Rightarrow>
               (case proxy_uri env url_scheme parse_uri (https_proxy c)
                       [''HTTPS_PROXY'', ''https_proxy''] ''https_proxy'' of
                  Inl e \<Rightarrow> Inl e
                | Inr hs \<Rightarrow> Inr \<lparr>ep_all_proxy = a, ep_http_proxy = h, ep_https_proxy = hs\<rparr>)))"

section \<open>Facts\<close>

lemma all_ok_iff: "all_ok rs = Inr () \<longleftrightarrow> (\<forall>r \<in> set rs. r = Inr ())"
proof (induction rs)
  case (Cons r rs)
  then show ?case by (cases r) simp_all
qed simp

lemma all_ok_error: "all_ok rs = Inl e \<Longrightarrow> Inl e \<in> set rs"
proof (induction rs)
  case (Cons r rs)
  then show ?case by (cases r) simp_all
qed simp

lemma require_nonzero_ok: "require_nonzero f v = Inr () \<longleftrightarrow> 0 < v"
  by (simp add: require_nonzero_def)

lemma invalid_if_ok: "invalid_if b m = Inr () \<longleftrightarrow> \<not> b"
  by (simp add: invalid_if_def)

lemma validate_span_ok: "validate_span (n, v) = Inr () \<longleftrightarrow> 0 < v \<and> v \<le> secs 86400"
  by (auto simp: validate_span_def invalid_if_ok)

lemma validate_proxy_ok: "validate_proxy (l, v) = Inr () \<longleftrightarrow> (\<forall>p. v = Some p \<longrightarrow> \<not> blank p)"
  by (simp add: validate_proxy_def invalid_if_ok split: option.split)

lemma min_split_aligned:
  assumes "0 < psize" "configured + psize \<le> u64_max"
  shows "psize dvd effective_dynamic_min_split_size psize configured"
    and "max configured psize \<le> effective_dynamic_min_split_size psize configured"
    and "effective_dynamic_min_split_size psize configured < max configured psize + psize"
proof -
  let ?c = "max configured psize"
  have m: "max psize 1 = psize" using assms(1) by simp
  have lo: "?c \<le> div_ceil ?c psize * psize" by (rule div_ceil_mult_ge [OF assms(1)])
  have hi: "div_ceil ?c psize * psize < ?c + psize" by (rule div_ceil_mult_less [OF assms(1)])
  have "div_ceil ?c psize * psize \<le> u64_max"
  proof (cases "configured \<le> psize")
    case True
    then have "?c = psize" by simp
    then have "div_ceil ?c psize * psize = psize" using assms(1) by (simp add: div_ceil_def)
    then show ?thesis using assms(2) by linarith
  next
    case False
    then show ?thesis using hi assms(2) by simp
  qed
  then have e: "effective_dynamic_min_split_size psize configured = div_ceil ?c psize * psize"
    unfolding effective_dynamic_min_split_size_def Let_def m sat_mul_u64_def
    using lo by (simp only: min.absorb1 max.absorb1 max.bounded_iff)
  show "psize dvd effective_dynamic_min_split_size psize configured" by (simp add: e)
  show "?c \<le> effective_dynamic_min_split_size psize configured" using lo by (simp add: e)
  show "effective_dynamic_min_split_size psize configured < ?c + psize" using hi by (simp add: e)
qed

lemma min_split_pos: "0 < effective_dynamic_min_split_size psize configured"
  by (simp add: effective_dynamic_min_split_size_def Let_def)

section \<open>Properties\<close>

text \<open>C20. Validation accepts a specification exactly when every documented bound
  holds; it never accepts a value the transfer code would panic on.\<close>

theorem validate_accepts_iff:
  "validate deadline_ok spec = Inr () \<longleftrightarrow>
     low_speed_limit (recovery spec) \<noteq> Some 0 \<and>
     low_speed_duration (recovery spec) \<in> {0<..secs 86400} \<and>
     slow_start_grace (recovery spec) \<in> {0<..secs 86400} \<and>
     slow_sample_window (recovery spec) \<in> {0<..secs 86400} \<and>
     0 < control_save_interval (storage spec) \<and>
     (case request_headers_timeout spec of None \<Rightarrow> True | Some t \<Rightarrow> 0 < t \<and> deadline_ok t) \<and>
     \<not> blank (spec_url spec) \<and>
     Option.is_none (Option.bind (no_all_proxy (network_overrides spec)) (\<lambda>p. if blank p then Some p else None)) \<and>
     Option.is_none (Option.bind (no_http_proxy (network_overrides spec)) (\<lambda>p. if blank p then Some p else None)) \<and>
     Option.is_none (Option.bind (no_https_proxy (network_overrides spec)) (\<lambda>p. if blank p then Some p else None)) \<and>
     0 < max_connections spec \<and> 0 < memory_budget (storage spec) \<and>
     0 < channel_buffer (storage spec) \<and> 0 < sch_piece_size (scheduling spec) \<and>
     0 < min_split_size (scheduling spec) \<and> 0 < min_segment_size (scheduling spec) \<and>
     0 < dynamic_min_split_size (scheduling spec) \<and> 0 < dynamic_max_request_size (scheduling spec) \<and>
     0 < autosave_sync_every (storage spec) \<and>
     retry_base_delay (retry spec) \<le> retry_max_delay (retry spec) \<and>
     (case sto_checksum (storage spec) of None \<Rightarrow> True | Some c \<Rightarrow> \<not> blank (checksum_value c))"
proof -
  have 1: "(case low_speed_limit (recovery spec) of
      None \<Rightarrow> Inr () | Some limit \<Rightarrow> require_nonzero ''low_speed_limit'' limit) = Inr ()
      \<longleftrightarrow> low_speed_limit (recovery spec) \<noteq> Some 0"
    by (simp add: require_nonzero_ok split: option.split)
  have 2: "(case sto_checksum (storage spec) of None \<Rightarrow> Inr ()
      | Some c \<Rightarrow> invalid_if (blank (checksum_value c)) ''checksum value cannot be empty'') = Inr ()
      \<longleftrightarrow> (case sto_checksum (storage spec) of None \<Rightarrow> True | Some c \<Rightarrow> \<not> blank (checksum_value c))"
    by (simp add: invalid_if_ok split: option.split)
  have 3: "(\<forall>p. v = Some p \<longrightarrow> \<not> blank p) \<longleftrightarrow>
      Option.is_none (Option.bind v (\<lambda>p. if blank p then Some p else None))" for v
    by (cases v) auto
  have 4: "\<not> (case request_headers_timeout spec of None \<Rightarrow> False | Some t \<Rightarrow> t = 0 \<or> \<not> deadline_ok t) \<longleftrightarrow>
      (case request_headers_timeout spec of None \<Rightarrow> True | Some t \<Rightarrow> 0 < t \<and> deadline_ok t)"
    by (auto split: option.split)
  show ?thesis
    unfolding validate_def all_ok_iff set_append list.map list.set ball_Un ball_simps
      1 2 validate_span_ok validate_proxy_ok invalid_if_ok require_nonzero_ok 3 4
    by (auto simp: not_less)
qed

text \<open>The defaults of \<open>DownloadSpec::new\<close> are valid for every URL that is not
  blank, and a blank URL is the only thing wrong with them otherwise.\<close>

theorem default_spec_valid:
  "validate deadline_ok (download_spec_new url) =
     (if blank url then Inl (InvalidConfig ''url cannot be empty'') else Inr ())"
  by (simp add: validate_def download_spec_new_def validate_span_def validate_proxy_def invalid_if_def
      require_nonzero_def no_overrides_def secs_def DEFAULT_DYNAMIC_MIN_SPLIT_SIZE_def
      DEFAULT_DYNAMIC_MAX_REQUEST_SIZE_def)

text \<open>Resolving a task's network configuration changes a field only where the
  task overrides it.  Proxies are replaced as a group: one override clears the other
  inherited proxies.  A disabled idle pool keeps the inherited idle timeout.\<close>

theorem resolve_network_config_fields:
  "let r = resolve_network_config spec base; no = network_overrides spec
   in connect_timeout r = (case no_connect_timeout no of None \<Rightarrow> connect_timeout base | Some t \<Rightarrow> t) \<and>
      pool_max_idle_per_host r =
        (case no_idle_pool no of None \<Rightarrow> pool_max_idle_per_host base | Some (n, _) \<Rightarrow> n) \<and>
      pool_idle_timeout r =
        (case no_idle_pool no of
           None \<Rightarrow> pool_idle_timeout base
         | Some (n, t) \<Rightarrow> if 0 < n then t else pool_idle_timeout base) \<and>
      (all_proxy r, http_proxy r, https_proxy r) =
        (if no_all_proxy no = None \<and> no_http_proxy no = None \<and> no_https_proxy no = None
         then (all_proxy base, http_proxy base, https_proxy base)
         else (no_all_proxy no, no_http_proxy no, no_https_proxy no)) \<and>
      ca_info r = overriding (no_ca_info no) (ca_info base) \<and>
      ca_path r = overriding (no_ca_path no) (ca_path base) \<and>
      client_cert r = overriding (no_client_cert no) (client_cert base) \<and>
      client_key r = overriding (no_client_key no) (client_key base) \<and>
      dns_servers r = dns_servers base \<and> doh_servers r = doh_servers base \<and>
      enable_ipv6 r = enable_ipv6 base \<and> multi_ip r = multi_ip base"
  by (auto simp: resolve_network_config_def Let_def has_connect_timeout_override_def
      has_pool_override_def has_proxy_override_def get_connect_timeout_def
      get_pool_max_idle_per_host_def get_pool_idle_timeout_def split: option.splits)

end
