(* ===== verification/Scheduler_Dynamic.thy ===== *)
theory Scheduler_Dynamic
  imports Scheduler_Batch Config
begin

text \<open>
  The dynamic scheduling mode of \<open>src/scheduler.rs\<close>: allocation candidates are the
  runs of untouched pieces; virtual request slots are spread over them so that the
  largest share per slot is cut first; the request that is finally issued is a
  prefix of the chosen run, limited by bytes, by leases and by the minimum split
  size.  A \<open>usize\<close> has 64 bits, so the conversions \<open>usize::try_from\<close> of the source
  never fail.
\<close>

section \<open>Model\<close>

record allocation_candidate =
  ac_start :: nat
  ac_end :: nat
  first_piece :: nat
  end_piece :: nat

definition ac_len :: "allocation_candidate \<Rightarrow> nat" where
  "ac_len c = ac_end c - ac_start c"

record dynamic_plan =
  dp_candidate :: allocation_candidate
  dp_candidate_slots :: nat
  dp_planned_ranges :: nat
  dp_candidate_shares :: "dynamic_candidate_share list option"

definition mk_candidate :: "scheduler_state \<Rightarrow> nat \<Rightarrow> nat \<Rightarrow> allocation_candidate" where
  "mk_candidate s a b =
     \<lparr>ac_start = fst (piece_range (pmap s) a), ac_end = snd (piece_range (pmap s) (b - 1)),
      first_piece = a, end_piece = b\<rparr>"

text \<open>The inner loop of \<open>dynamic_candidates\<close>: an available run is cut at its touched
  pieces.\<close>

fun cut_run :: "scheduler_state \<Rightarrow> nat \<Rightarrow> nat \<Rightarrow> nat list \<Rightarrow> allocation_candidate list" where
  "cut_run s fp available_end [] = (if fp < available_end then [mk_candidate s fp available_end] else [])"
| "cut_run s fp available_end (touched # rest) =
     (if fp < touched then [mk_candidate s fp touched] else []) @
     cut_run s (sat_add_u64 touched 1) available_end rest"

definition available_run_end :: "scheduler_state \<Rightarrow> nat \<Rightarrow> nat" where
  "available_run_end s first_available =
     (case first_zero (drop first_available (available_pieces s)) of
        None \<Rightarrow> piece_count (pmap s)
      | Some offset \<Rightarrow> first_available + offset)"

lemma available_run_end_gt:
  assumes "search_from < piece_count (pmap s)"
    "first_one (drop search_from (available_pieces s)) = Some offset"
  shows "search_from < available_run_end s (search_from + offset)"
proof (cases "first_zero (drop (search_from + offset) (available_pieces s))")
  case None
  then show ?thesis using assms(1) by (simp add: available_run_end_def)
next
  case (Some o2)
  have "drop search_from (available_pieces s) ! offset" "offset < length (drop search_from (available_pieces s))"
    using assms(2) by (simp_all add: first_one_Some)
  then have "drop (search_from + offset) (available_pieces s) ! 0" by (simp add: add.commute)
  then have "o2 \<noteq> 0" using Some by (metis first_zero_Some)
  then show ?thesis using Some by (simp add: available_run_end_def)
qed

function candidates_from :: "scheduler_state \<Rightarrow> nat \<Rightarrow> allocation_candidate list" where
  "candidates_from s search_from =
     (if search_from < piece_count (pmap s)
      then case first_one (drop search_from (available_pieces s)) of
             None \<Rightarrow> []
           | Some offset \<Rightarrow>
               let first_available = search_from + offset;
                   available_end = available_run_end s first_available
               in cut_run s first_available available_end
                    (filter (\<lambda>i. first_available \<le> i \<and> i < available_end) (map fst (pieces s))) @
                  candidates_from s available_end
      else [])"
  by pat_completeness auto

termination
proof (relation "measure (\<lambda>(s, i). piece_count (pmap s) - i)", goal_cases)
  case (2 s search_from offset first_available available_end)
  then show ?case using available_run_end_gt [of search_from s offset] by auto
qed simp

declare candidates_from.simps [simp del]

definition dynamic_candidates :: "scheduler_state \<Rightarrow> allocation_candidate list" where
  "dynamic_candidates s = candidates_from s 0"

definition aligned_dynamic_min_split_size :: "scheduler_state \<Rightarrow> nat \<Rightarrow> nat" where
  "aligned_dynamic_min_split_size s configured =
     effective_dynamic_min_split_size (piece_size (pmap s)) configured"

definition dynamic_legal_split_bounds ::
  "scheduler_state \<Rightarrow> allocation_candidate \<Rightarrow> nat \<Rightarrow> (nat \<times> nat) option" where
  "dynamic_legal_split_bounds s c min_split =
     (if end_piece c \<le> first_piece c + 1 \<or> min_split = 0 \<or> ac_len c div min_split < 2 then None
      else
        let psize = max (piece_size (pmap s)) 1;
            min_pieces = div_ceil min_split psize
        in case checked_add_u64 (first_piece c) min_pieces of
             None \<Rightarrow> None
           | Some first_legal_piece \<Rightarrow>
               let last_legal_piece = min ((ac_end c - min_split) div psize) (end_piece c - 1)
               in if first_legal_piece \<le> last_legal_piece
                  then Some (first_legal_piece, last_legal_piece) else None)"

definition max_dynamic_slots :: "scheduler_state \<Rightarrow> allocation_candidate \<Rightarrow> nat \<Rightarrow> nat" where
  "max_dynamic_slots s c min_split =
     (let count = sub_u64 (end_piece c) (first_piece c);
          by_minimum = (if min_split = 0 then count else max (ac_len c div min_split) 1)
      in if by_minimum < 2 \<or> dynamic_legal_split_bounds s c min_split = None then 1
         else max (min count by_minimum) 1)"

text \<open>\<open>compare_dynamic_shares(left, ..) == Greater\<close>; the products fit a \<open>u128\<close>.\<close>

definition share_gt :: "allocation_candidate \<Rightarrow> nat \<Rightarrow> allocation_candidate \<Rightarrow> nat \<Rightarrow> bool" where
  "share_gt left left_slots right right_slots \<longleftrightarrow>
     (let left_share = ac_len left * right_slots; right_share = ac_len right * left_slots
      in right_share < left_share \<or> left_share = right_share \<and> ac_start left < ac_start right)"

text \<open>The index \<open>Iterator::max_by\<close> picks among the given ones.\<close>

definition best_share :: "allocation_candidate list \<Rightarrow> nat list \<Rightarrow> nat list \<Rightarrow> nat option" where
  "best_share cands slots idxs =
     max_by (\<lambda>l r. share_gt (cands ! l) (slots ! l) (cands ! r) (slots ! r)) idxs"

fun allocate_slots ::
  "scheduler_state \<Rightarrow> allocation_candidate list \<Rightarrow> nat \<Rightarrow> nat \<Rightarrow> nat list \<Rightarrow> nat list" where
  "allocate_slots s cands min_split 0 slots = slots"
| "allocate_slots s cands min_split (Suc extra) slots =
     (case best_share cands slots
             (filter (\<lambda>i. slots ! i < max_dynamic_slots s (cands ! i) min_split) [0..<length cands]) of
        None \<Rightarrow> slots
      | Some i \<Rightarrow> allocate_slots s cands min_split extra (slots[i := slots ! i + 1]))"

definition plan_dynamic_share ::
  "scheduler_state \<Rightarrow> allocation_candidate list \<Rightarrow> nat \<Rightarrow> nat \<Rightarrow> bool \<Rightarrow> dynamic_plan option" where
  "plan_dynamic_share s cands requested min_split collect =
     (if requested = 0 \<or> cands = [] then None
      else if requested \<le> length cands
      then (case best_share cands (replicate (length cands) 1) [0..<length cands] of
              None \<Rightarrow> None
            | Some chosen \<Rightarrow>
                Some \<lparr>dp_candidate = cands ! chosen, dp_candidate_slots = 1,
                      dp_planned_ranges = requested,
                      dp_candidate_shares =
                        (if collect
                         then Some (map (\<lambda>c. \<lparr>dcs_start = ac_start c, dcs_end = ac_end c,
                                              dcs_slots = 1, dcs_share_bytes = ac_len c\<rparr>) cands)
                         else None)\<rparr>)
      else
        let slots = allocate_slots s cands min_split (requested - length cands)
                      (replicate (length cands) 1)
        in case best_share cands slots [0..<length cands] of
             None \<Rightarrow> None
           | Some chosen \<Rightarrow>
               Some \<lparr>dp_candidate = cands ! chosen, dp_candidate_slots = slots ! chosen,
                     dp_planned_ranges = sum_list slots,
                     dp_candidate_shares =
                       (if collect
                        then Some (map (\<lambda>(c, n). \<lparr>dcs_start = ac_start c, dcs_end = ac_end c,
                                                 dcs_slots = n, dcs_share_bytes = div_ceil (ac_len c) n\<rparr>)
                                   (zip cands slots))
                        else None)\<rparr>)"

definition clamp :: "nat \<Rightarrow> nat \<Rightarrow> nat \<Rightarrow> nat" where
  "clamp v lo hi = (if v < lo then lo else if hi < v then hi else v)"

definition dynamic_share_end_piece ::
  "scheduler_state \<Rightarrow> allocation_candidate \<Rightarrow> nat \<Rightarrow> nat \<Rightarrow> nat" where
  "dynamic_share_end_piece s c slots min_split =
     (if slots \<le> 1 then end_piece c
      else case dynamic_legal_split_bounds s c min_split of
        None \<Rightarrow> end_piece c
      | Some (first_legal_piece, last_legal_piece) \<Rightarrow>
          let psize = max (piece_size (pmap s)) 1;
              tend = add_u64 (ac_start c) (div_ceil (ac_len c) slots);
              ideal_piece = sat_add_u64 (tend div psize)
                              (if psize div 2 < tend mod psize then 1 else 0)
          in clamp ideal_piece first_legal_piece last_legal_piece)"

definition request_end_piece ::
  "scheduler_state \<Rightarrow> allocation_candidate \<Rightarrow> nat \<Rightarrow> nat \<Rightarrow> nat \<Rightarrow> nat \<times> string" where
  "request_end_piece s c desired_end_piece0 min_split configured_max =
     (let psize = max (piece_size (pmap s)) 1;
          max_request_size = max (max configured_max psize) 1;
          byte_bound = sat_add_u64 (ac_start c) max_request_size;
          desired_end_piece = min (max desired_end_piece0 (sat_add_u64 (first_piece c) 1)) (end_piece c);
          byte_end_piece =
            (if ac_end c \<le> byte_bound then end_piece c
             else min (max (byte_bound div psize) (sat_add_u64 (first_piece c) 1)) (end_piece c));
          lease_end_piece = min (sat_add_u64 (first_piece c) MAX_REQUEST_LEASES) desired_end_piece;
          raw_end_piece =
            min (max (min (min desired_end_piece byte_end_piece) lease_end_piece)
                     (sat_add_u64 (first_piece c) 1)) (end_piece c);
          bounds = (if raw_end_piece < end_piece c then dynamic_legal_split_bounds s c min_split else None);
          (end_piece', min_split_adjusted, min_split_conflict) =
            (case bounds of
               None \<Rightarrow> (raw_end_piece, False, False)
             | Some (first_legal_piece, last_legal_piece) \<Rightarrow>
                 if first_legal_piece \<le> raw_end_piece
                 then let legal_end_piece = min raw_end_piece last_legal_piece
                      in (legal_end_piece, legal_end_piece < raw_end_piece, False)
                 else (raw_end_piece, False, True));
          byte_limited = (byte_end_piece < desired_end_piece);
          lease_limited = (lease_end_piece < desired_end_piece);
          suffix = (if min_split_adjusted \<and> \<not> min_split_conflict then ''_and_min_split''
                    else if \<not> min_split_adjusted \<and> min_split_conflict then ''_and_min_split_conflict''
                    else '''');
          reason = (if byte_limited \<and> lease_limited then ''max_request_bytes_and_lease_limit'' @ suffix
                    else if byte_limited then ''max_request_bytes'' @ suffix
                    else if lease_limited then ''lease_limit'' @ suffix
                    else if min_split_adjusted \<and> \<not> min_split_conflict then ''min_split_boundary''
                    else if \<not> min_split_adjusted \<and> min_split_conflict then ''min_split_conflict''
                    else ''none'')
      in (end_piece', reason))"

definition dynamic_request_end ::
  "scheduler_state \<Rightarrow> allocation_candidate \<Rightarrow> nat \<Rightarrow> nat \<Rightarrow> nat \<Rightarrow> nat \<times> string" where
  "dynamic_request_end s c desired_end_piece min_split configured_max =
     (case request_end_piece s c desired_end_piece min_split configured_max of
        (e, reason) \<Rightarrow> (min (snd (piece_range (pmap s) (e - 1))) (ac_end c), reason))"

fun issue_dynamic_loop ::
  "scheduler_state \<Rightarrow> nat list \<Rightarrow> nat \<Rightarrow> nat \<Rightarrow> segment list \<Rightarrow> scheduler_state \<times> segment list option" where
  "issue_dynamic_loop s [] end' worker_id segs = (s, if segs = [] then None else Some segs)"
| "issue_dynamic_loop s (piece_id # rest) end' worker_id segs =
     (case piece_range (pmap s) piece_id of (start, piece_end) \<Rightarrow>
        if end' < piece_end then (s, if segs = [] then None else Some segs)
        else case issue_lease s piece_id \<lparr>br_start = start, br_end = piece_end\<rparr> worker_id of
               (s', None) \<Rightarrow> (rollback s' (rev segs), None)
             | (s', Some seg) \<Rightarrow> issue_dynamic_loop s' rest end' worker_id (segs @ [seg]))"

definition issue_dynamic_candidate ::
  "scheduler_state \<Rightarrow> allocation_candidate \<Rightarrow> nat \<Rightarrow> nat \<Rightarrow> scheduler_state \<times> segment list option" where
  "issue_dynamic_candidate s c end' worker_id =
     (if stopped s \<or> end' \<le> ac_start c then (s, None)
      else issue_dynamic_loop s [first_piece c..<end_piece c] end' worker_id [])"

definition assign_dynamic_request ::
  "scheduler_state \<Rightarrow> nat \<Rightarrow> nat \<Rightarrow> nat \<Rightarrow> nat \<Rightarrow> nat \<Rightarrow> bool \<Rightarrow>
    scheduler_state \<times> request_assignment option" where
  "assign_dynamic_request s worker_id occupied slots dyn_min dyn_max collect =
     (let candidates = dynamic_candidates s
      in if candidates = []
         then (case assign_to s worker_id of
                 (s', None) \<Rightarrow> (s', None)
               | (s', Some seg) \<Rightarrow> (s', Some (ra_single seg slots occupied)))
         else
           let min_split = aligned_dynamic_min_split_size s dyn_min
           in case plan_dynamic_share s candidates slots min_split collect of
                None \<Rightarrow> (s, None)
              | Some plan \<Rightarrow>
                  let c = dp_candidate plan;
                      desired = dynamic_share_end_piece s c (dp_candidate_slots plan) min_split;
                      tend = snd (piece_range (pmap s) (desired - 1));
                      (fend, reason) = dynamic_request_end s c desired min_split dyn_max
                  in case issue_dynamic_candidate s c fend worker_id of
                       (s', None) \<Rightarrow> (s', None)
                     | (s', Some segs) \<Rightarrow>
                         (s', if segs = [] then None
                              else Some \<lparr>ra_segments = segs, candidate_start = ac_start c,
                                         candidate_end = ac_end c, candidate_boundary_scanned = True,
                                         candidate_slots = dp_candidate_slots plan, target_end = tend,
                                         candidate_shares = dp_candidate_shares plan,
                                         final_start = seg_start (hd segs), final_end = seg_end (last segs),
                                         available_request_slots = slots, occupied_requests = occupied,
                                         planned_ranges = dp_planned_ranges plan,
                                         truncation_reason = reason\<rparr>))"

definition assign_request_with_trace ::
  "scheduler_state \<Rightarrow> nat \<Rightarrow> nat \<Rightarrow> nat \<Rightarrow> nat \<Rightarrow> range_scheduling_mode \<Rightarrow> nat \<Rightarrow> nat \<Rightarrow> nat \<Rightarrow>
    bool \<Rightarrow> bool \<Rightarrow> bool \<Rightarrow> scheduler_state \<times> request_assignment option" where
  "assign_request_with_trace s worker_id max_requests min_seg occupied mode batch_size dyn_min
     dyn_max allow_batch collect_diagnostics collect_shares =
     (let slots = max_requests - occupied
      in if slots = 0 \<or> available_range_count s = 0 then (s, None)
         else if \<not> allow_batch
         then (case assign_to s worker_id of
                 (s', None) \<Rightarrow> (s', None)
               | (s', Some seg) \<Rightarrow> (s', Some (ra_single seg slots occupied)))
         else case mode of
                Fixed \<Rightarrow> assign_fixed_request s worker_id max_requests min_seg occupied batch_size
                           slots collect_diagnostics
              | Dynamic \<Rightarrow> assign_dynamic_request s worker_id occupied slots dyn_min dyn_max
                             collect_shares)"

definition assign_request_with_diagnostics ::
  "scheduler_state \<Rightarrow> nat \<Rightarrow> nat \<Rightarrow> nat \<Rightarrow> nat \<Rightarrow> range_scheduling_mode \<Rightarrow> nat \<Rightarrow> nat \<Rightarrow> nat \<Rightarrow>
    bool \<Rightarrow> bool \<Rightarrow> scheduler_state \<times> request_assignment option" where
  "assign_request_with_diagnostics s worker_id max_requests min_seg occupied mode batch_size dyn_min
     dyn_max allow_batch collect_diagnostics =
     assign_request_with_trace s worker_id max_requests min_seg occupied mode batch_size dyn_min
       dyn_max allow_batch collect_diagnostics False"

definition assign_request ::
  "scheduler_state \<Rightarrow> nat \<Rightarrow> nat \<Rightarrow> nat \<Rightarrow> nat \<Rightarrow> range_scheduling_mode \<Rightarrow> nat \<Rightarrow> nat \<Rightarrow> nat \<Rightarrow>
    bool \<Rightarrow> scheduler_state \<times> request_assignment option" where
  "assign_request s worker_id max_requests min_seg occupied mode batch_size dyn_min dyn_max allow_batch =
     assign_request_with_diagnostics s worker_id max_requests min_seg occupied mode batch_size dyn_min
       dyn_max allow_batch True"

section \<open>Candidates are the maximal untouched runs\<close>

text \<open>\<open>runs_ok P lo hi rs\<close>: the intervals \<open>rs\<close> are the maximal runs of \<open>P\<close> inside
  \<open>{lo..<hi}\<close>, in ascending order.\<close>

definition runs_ok :: "(nat \<Rightarrow> bool) \<Rightarrow> nat \<Rightarrow> nat \<Rightarrow> (nat \<times> nat) list \<Rightarrow> bool" where
  "runs_ok P lo hi rs \<longleftrightarrow>
     (\<forall>(a, b) \<in> set rs. lo \<le> a \<and> a < b \<and> b \<le> hi \<and> (\<forall>i. a \<le> i \<and> i < b \<longrightarrow> P i) \<and>
        (b < hi \<longrightarrow> \<not> P b) \<and> (lo < a \<longrightarrow> \<not> P (a - 1))) \<and>
     (\<forall>i. lo \<le> i \<and> i < hi \<and> P i \<longrightarrow> (\<exists>(a, b) \<in> set rs. a \<le> i \<and> i < b)) \<and>
     sorted_wrt (\<lambda>x y. snd x < fst y) rs"

lemma runs_ok_Nil: "(\<And>i. lo \<le> i \<Longrightarrow> i < hi \<Longrightarrow> \<not> P i) \<Longrightarrow> runs_ok P lo hi []"
  by (auto simp: runs_ok_def)

lemma runs_ok_one:
  "lo < hi \<Longrightarrow> (\<And>i. lo \<le> i \<Longrightarrow> i < hi \<Longrightarrow> P i) \<Longrightarrow> runs_ok P lo hi [(lo, hi)]"
  by (auto simp: runs_ok_def)

lemma runs_ok_interval: "runs_ok P lo hi rs \<Longrightarrow> (a, b) \<in> set rs \<Longrightarrow> lo \<le> a \<and> a < b \<and> b \<le> hi"
  by (auto simp: runs_ok_def)

lemma runs_ok_append:
  assumes 1: "runs_ok P lo mid xs" and 2: "runs_ok P (Suc mid) hi ys" and mid: "\<not> P mid" "lo \<le> mid" "mid < hi"
  shows "runs_ok P lo hi (xs @ ys)"
  unfolding runs_ok_def
proof (intro conjI)
  show "\<forall>(a, b) \<in> set (xs @ ys). lo \<le> a \<and> a < b \<and> b \<le> hi \<and> (\<forall>i. a \<le> i \<and> i < b \<longrightarrow> P i) \<and>
        (b < hi \<longrightarrow> \<not> P b) \<and> (lo < a \<longrightarrow> \<not> P (a - 1))"
  proof clarify
    fix a b assume "(a, b) \<in> set (xs @ ys)"
    then consider "(a, b) \<in> set xs" | "(a, b) \<in> set ys" by auto
    then show "lo \<le> a \<and> a < b \<and> b \<le> hi \<and> (\<forall>i. a \<le> i \<and> i < b \<longrightarrow> P i) \<and>
        (b < hi \<longrightarrow> \<not> P b) \<and> (lo < a \<longrightarrow> \<not> P (a - 1))"
    proof cases
      case 1
      then have A: "lo \<le> a \<and> a < b \<and> b \<le> mid \<and> (\<forall>i. a \<le> i \<and> i < b \<longrightarrow> P i) \<and>
          (b < mid \<longrightarrow> \<not> P b) \<and> (lo < a \<longrightarrow> \<not> P (a - 1))"
        using assms(1) unfolding runs_ok_def by blast
      then have "\<not> P b" using mid(1) by (cases "b = mid") auto
      then show ?thesis using A mid by auto
    next
      case 2
      then have A: "Suc mid \<le> a \<and> a < b \<and> b \<le> hi \<and> (\<forall>i. a \<le> i \<and> i < b \<longrightarrow> P i) \<and>
          (b < hi \<longrightarrow> \<not> P b) \<and> (Suc mid < a \<longrightarrow> \<not> P (a - 1))"
        using assms(2) unfolding runs_ok_def by blast
      then have "\<not> P (a - 1)" using mid(1) by (cases "a = Suc mid") auto
      then show ?thesis using A mid by auto
    qed
  qed
  show "\<forall>i. lo \<le> i \<and> i < hi \<and> P i \<longrightarrow> (\<exists>(a, b) \<in> set (xs @ ys). a \<le> i \<and> i < b)"
  proof (intro allI impI)
    fix i assume i: "lo \<le> i \<and> i < hi \<and> P i"
    then have "i < mid \<or> Suc mid \<le> i" using mid(1) by (cases "i = mid") auto
    then show "\<exists>(a, b) \<in> set (xs @ ys). a \<le> i \<and> i < b"
    proof
      assume "i < mid"
      then have "\<exists>(a, b) \<in> set xs. a \<le> i \<and> i < b" using 1 i unfolding runs_ok_def by blast
      then show ?thesis by auto
    next
      assume "Suc mid \<le> i"
      then have "\<exists>(a, b) \<in> set ys. a \<le> i \<and> i < b" using 2 i unfolding runs_ok_def by blast
      then show ?thesis by auto
    qed
  qed
  show "sorted_wrt (\<lambda>x y. snd x < fst y) (xs @ ys)"
    using 1 2 runs_ok_interval [OF 1] runs_ok_interval [OF 2]
    by (fastforce simp: runs_ok_def sorted_wrt_append)
qed

lemma runs_ok_extend:
  assumes "runs_ok P mid hi rs" "lo \<le> mid" "mid \<le> hi" "\<And>i. lo \<le> i \<Longrightarrow> i < mid \<Longrightarrow> \<not> P i"
  shows "runs_ok P lo hi rs"
proof (cases "lo = mid")
  case False
  then have m: "Suc (mid - 1) = mid" "lo \<le> mid - 1" "mid - 1 < hi" using assms(2,3) by auto
  have np: "\<not> P (mid - 1)" using assms(4) [of "mid - 1"] m by linarith
  have "runs_ok P lo (mid - 1) []" using assms(4) by (intro runs_ok_Nil) auto
  then show ?thesis
    using runs_ok_append [of P lo "mid - 1" "[]" hi rs] np m assms(1) by simp
qed (use assms in simp)

lemma runs_ok_shrink:
  assumes r: "runs_ok P mid hi rs" and np: "\<not> P mid"
  shows "runs_ok P (Suc mid) hi rs"
proof -
  have "Suc mid \<le> a" if ab: "(a, b) \<in> set rs" for a b
  proof -
    have "mid \<le> a" "a < b" "P a" using ab r unfolding runs_ok_def by auto
    then show ?thesis using np by (cases "a = mid") auto
  qed
  then have "\<forall>(a, b) \<in> set rs. Suc mid \<le> a" by blast
  then show ?thesis using r unfolding runs_ok_def by fastforce
qed

definition cand_span :: "allocation_candidate \<Rightarrow> nat \<times> nat" where
  "cand_span c = (first_piece c, end_piece c)"

lemma cand_span_mk [simp]: "cand_span (mk_candidate s a b) = (a, b)"
  by (simp add: cand_span_def mk_candidate_def)

lemma cut_run_shape:
  "c \<in> set (cut_run s fp ae ts) \<Longrightarrow> c = mk_candidate s (first_piece c) (end_piece c)"
  by (induction s fp ae ts rule: cut_run.induct) (auto simp: mk_candidate_def split: if_splits)

lemma cut_run_runs:
  assumes "sorted_wrt (<) ts" "\<forall>t \<in> set ts. fp \<le> t \<and> t < ae" "fp \<le> ae" "ae \<le> u64_max"
    "\<forall>i. fp \<le> i \<and> i < ae \<longrightarrow> (P i \<longleftrightarrow> i \<notin> set ts)"
  shows "runs_ok P fp ae (map cand_span (cut_run s fp ae ts))"
  using assms
proof (induction s fp ae ts rule: cut_run.induct)
  case (1 s fp ae)
  then show ?case by (auto intro: runs_ok_one runs_ok_Nil)
next
  case (2 s fp ae t ts)
  have t: "fp \<le> t" "t < ae" "\<not> P t" using "2.prems"(2,5) by auto
  have sat: "sat_add_u64 t 1 = Suc t" using t(2) "2.prems"(4) by (simp add: sat_add_u64_def)
  have above: "\<forall>u \<in> set ts. t < u" using "2.prems"(1) by simp
  have below: "P i" if "fp \<le> i" "i < t" for i
  proof -
    have "i \<notin> set (t # ts)" using that above by auto
    then show ?thesis using "2.prems"(5) that t(2) by simp
  qed
  have left: "runs_ok P fp t (map cand_span (if fp < t then [mk_candidate s fp t] else []))"
    using below t(1) by (auto intro: runs_ok_one runs_ok_Nil)
  have right: "runs_ok P (Suc t) ae (map cand_span (cut_run s (sat_add_u64 t 1) ae ts))"
    unfolding sat
  proof (rule "2.IH" [unfolded sat])
    show "sorted_wrt (<) ts" using "2.prems"(1) by simp
    show "\<forall>u \<in> set ts. Suc t \<le> u \<and> u < ae" using above "2.prems"(2) by auto
    show "Suc t \<le> ae" "ae \<le> u64_max" using t(2) "2.prems"(4) by auto
    show "\<forall>i. Suc t \<le> i \<and> i < ae \<longrightarrow> P i = (i \<notin> set ts)" using "2.prems"(5) t(1) by auto
  qed
  show ?case using runs_ok_append [OF left right t(3,1,2)] by simp
qed

lemma available_run:
  assumes "length (available_pieces s) = piece_count (pmap s)" "fa < piece_count (pmap s)"
  shows "available_run_end s fa \<le> piece_count (pmap s)" "fa \<le> available_run_end s fa"
    "\<And>i. fa \<le> i \<Longrightarrow> i < available_run_end s fa \<Longrightarrow> available_pieces s ! i"
    "available_run_end s fa < piece_count (pmap s) \<Longrightarrow> \<not> available_pieces s ! available_run_end s fa"
proof -
  let ?d = "drop fa (available_pieces s)"
  have shift: "?d ! (i - fa) = available_pieces s ! i" if "fa \<le> i" for i using that assms by simp
  have "available_run_end s fa \<le> piece_count (pmap s) \<and> fa \<le> available_run_end s fa \<and>
    (\<forall>i. fa \<le> i \<and> i < available_run_end s fa \<longrightarrow> available_pieces s ! i) \<and>
    (available_run_end s fa < piece_count (pmap s) \<longrightarrow> \<not> available_pieces s ! available_run_end s fa)"
  proof (cases "first_zero ?d")
    case None
    then have "\<forall>j < length ?d. ?d ! j" by (simp add: first_zero_None)
    then have "available_pieces s ! i" if "fa \<le> i" "i < piece_count (pmap s)" for i
      using shift [OF that(1)] that assms by (elim allE [of _ "i - fa"]) auto
    then show ?thesis using None assms(2) by (simp add: available_run_end_def)
  next
    case (Some k)
    then have k: "k < length ?d" "\<not> ?d ! k" "\<forall>j<k. ?d ! j" by (simp_all add: first_zero_Some)
    have "available_pieces s ! i" if "fa \<le> i" "i < fa + k" for i
      using shift [OF that(1)] that k(3) by (elim allE [of _ "i - fa"]) auto
    then show ?thesis using Some k(1,2) assms by (simp add: available_run_end_def)
  qed
  then show "available_run_end s fa \<le> piece_count (pmap s)" "fa \<le> available_run_end s fa"
    "\<And>i. fa \<le> i \<Longrightarrow> i < available_run_end s fa \<Longrightarrow> available_pieces s ! i"
    "available_run_end s fa < piece_count (pmap s) \<Longrightarrow> \<not> available_pieces s ! available_run_end s fa"
    by simp_all
qed

lemma untouched_iff:
  assumes "sched_inv s"
  shows "is_untouched_piece s i \<longleftrightarrow>
    i < piece_count (pmap s) \<and> available_pieces s ! i \<and> i \<notin> set (map fst (pieces s))"
proof -
  have "available_pieces s ! i \<Longrightarrow> i < piece_count (pmap s) \<Longrightarrow> \<not> is_complete (pmap s) i"
    using available_not_complete [OF assms] by (simp add: is_complete_def)
  moreover have "bt_get (pieces s) i = None \<longleftrightarrow> i \<notin> set (map fst (pieces s))"
    by (simp add: map_of_eq_None_iff)
  ultimately show ?thesis unfolding is_untouched_piece_def by blast
qed

lemma candidates_from_cases:
  obtains "candidates_from s i = []" "first_one (drop i (available_pieces s)) = None \<or> piece_count (pmap s) \<le> i"
  | offset where "i < piece_count (pmap s)" "first_one (drop i (available_pieces s)) = Some offset"
    "candidates_from s i =
       cut_run s (i + offset) (available_run_end s (i + offset))
         (filter (\<lambda>j. i + offset \<le> j \<and> j < available_run_end s (i + offset)) (map fst (pieces s))) @
       candidates_from s (available_run_end s (i + offset))"
proof (cases "i < piece_count (pmap s)")
  case True
  then show ?thesis using that
    by (cases "first_one (drop i (available_pieces s))") (simp_all add: candidates_from.simps Let_def)
next
  case False
  then show ?thesis using that(1) by (simp add: candidates_from.simps)
qed

lemma candidates_from_shape:
  "c \<in> set (candidates_from s i) \<Longrightarrow> c = mk_candidate s (first_piece c) (end_piece c)"
proof (induction s i rule: candidates_from.induct)
  case (1 s i)
  show ?case
  proof (cases rule: candidates_from_cases [of s i])
    case 1
    then show ?thesis using "1.prems" by simp
  next
    case (2 offset)
    then show ?thesis using "1.prems" "1.IH" [OF 2(1,2) refl refl] cut_run_shape by auto
  qed
qed

lemma candidates_from_runs:
  assumes inv: "sched_inv s" and "i \<le> piece_count (pmap s)"
  shows "runs_ok (is_untouched_piece s) i (piece_count (pmap s)) (map cand_span (candidates_from s i))"
  using assms(2)
proof (induction "piece_count (pmap s) - i" arbitrary: i rule: less_induct)
  case less
  let ?P = "is_untouched_piece s" and ?n = "piece_count (pmap s)"
  have len: "length (available_pieces s) = ?n" using inv by (simp add: sched_inv_def)
  have un: "?P j \<longleftrightarrow> j < ?n \<and> available_pieces s ! j \<and> j \<notin> set (map fst (pieces s))" for j
    by (rule untouched_iff [OF inv])
  show ?case
  proof (cases rule: candidates_from_cases [of s i])
    case 1
    have "\<not> ?P j" if j: "i \<le> j" "j < ?n" for j
    proof -
      have "first_one (drop i (available_pieces s)) = None" using 1(2) j by simp
      then have "\<forall>x < length (drop i (available_pieces s)). \<not> drop i (available_pieces s) ! x"
        by (simp only: first_one_None) 
      then have "\<not> drop i (available_pieces s) ! (j - i)"
        using j len by (elim allE [of _ "j - i"]) simp
      then show ?thesis using j len un by simp
    qed
    then show ?thesis using 1(1) by (simp add: runs_ok_Nil)
  next
    case (2 k)
    let ?fa = "i + k" and ?ae = "available_run_end s (i + k)"
    have k: "k < length (drop i (available_pieces s))" "\<forall>j<k. \<not> drop i (available_pieces s) ! j"
      using 2(2) by (simp_all add: first_one_Some)
    then have fa: "?fa < ?n" using len by simp
    note ae = available_run [OF len fa]
    have gap: "\<not> ?P j" if "i \<le> j" "j < ?fa" for j
      using k(2) that len fa un by (elim allE [of _ "j - i"]) auto
    have cut: "runs_ok ?P ?fa ?ae (map cand_span (cut_run s ?fa ?ae
        (filter (\<lambda>j. ?fa \<le> j \<and> j < ?ae) (map fst (pieces s)))))"
    proof (rule cut_run_runs)
      show "sorted_wrt (<) (filter (\<lambda>j. ?fa \<le> j \<and> j < ?ae) (map fst (pieces s)))"
        using inv by (simp add: sched_inv_def bt_inv_def sorted_wrt_filter)
      show "?ae \<le> u64_max" using ae(1) piece_count_u64 [OF sched_inv_map [OF inv]] by simp
    qed (use ae un in auto)
    have rest: "runs_ok ?P ?ae ?n (map cand_span (candidates_from s ?ae))"
      by (rule less.hyps) (use available_run_end_gt [OF 2(1,2)] 2(1) ae(1) in auto)
    have "runs_ok ?P ?fa ?n (map cand_span (candidates_from s i))"
    proof (cases "?ae < ?n")
      case True
      then have "\<not> ?P ?ae" using ae(4) un by simp
      then show ?thesis
        using runs_ok_append [OF cut runs_ok_shrink [OF rest]] True ae(2) 2(3) by simp
    next
      case False
      then have "?ae = ?n" using ae(1) by simp
      then show ?thesis using cut 2(3) by (simp add: candidates_from.simps)
    qed
    then show ?thesis by (rule runs_ok_extend) (use gap fa in auto)
  qed
qed

end
