(* ===== verification/Dynamic_Requests.thy ===== *)
theory Dynamic_Requests
  imports Scheduler_Dynamic
begin

text \<open>
  What the dynamic mode of \<open>src/scheduler.rs\<close> guarantees: where a candidate may be
  split, how the virtual slots are spread, how far one request reaches, and that
  issuing it is a batch of leases of untouched pieces.
\<close>

section \<open>Candidates\<close>

definition cand_ok :: "scheduler_state \<Rightarrow> allocation_candidate \<Rightarrow> bool" where
  "cand_ok s c \<longleftrightarrow> c = mk_candidate s (first_piece c) (end_piece c) \<and>
     first_piece c < end_piece c \<and> end_piece c \<le> piece_count (pmap s)"

lemma dynamic_candidates_runs:
  assumes "sched_inv s"
  shows "runs_ok (is_untouched_piece s) 0 (piece_count (pmap s)) (map cand_span (dynamic_candidates s))"
  unfolding dynamic_candidates_def by (rule candidates_from_runs [OF assms]) simp

lemma dynamic_candidates_ok:
  assumes "sched_inv s" "c \<in> set (dynamic_candidates s)"
  shows "cand_ok s c" "\<And>i. first_piece c \<le> i \<Longrightarrow> i < end_piece c \<Longrightarrow> is_untouched_piece s i"
proof -
  have mem: "(first_piece c, end_piece c) \<in> set (map cand_span (dynamic_candidates s))"
    using assms(2) by (force simp: cand_span_def)
  have shape: "c = mk_candidate s (first_piece c) (end_piece c)"
    using assms(2) candidates_from_shape unfolding dynamic_candidates_def by blast
  note R = dynamic_candidates_runs [OF assms(1), unfolded runs_ok_def]
  show "cand_ok s c" using shape runs_ok_interval [OF dynamic_candidates_runs [OF assms(1)] mem]
    by (simp add: cand_ok_def)
  show "is_untouched_piece s i" if "first_piece c \<le> i" "i < end_piece c" for i
    using R mem that by blast
qed

lemma cand_bytes:
  assumes "pm_inv (pmap s)" "cand_ok s c"
  shows "ac_start c = first_piece c * piece_size (pmap s)"
    "ac_end c = min (end_piece c * piece_size (pmap s)) (total_size (pmap s))"
    "ac_start c < ac_end c"
proof -
  let ?p = "piece_size (pmap s)"
  have c: "first_piece c < end_piece c" "end_piece c \<le> piece_count (pmap s)"
    using assms(2) by (simp_all add: cand_ok_def)
  have m: "ac_start c = fst (piece_range (pmap s) (first_piece c))"
    "ac_end c = snd (piece_range (pmap s) (end_piece c - 1))"
    using assms(2) unfolding cand_ok_def by (metis mk_candidate_def allocation_candidate.simps(1,2))+
  show a: "ac_start c = first_piece c * ?p" using c m(1) by (simp add: piece_range_exact [OF assms(1)])
  have "Suc (end_piece c - 1) = end_piece c" using c(1) by simp
  then show b: "ac_end c = min (end_piece c * ?p) (total_size (pmap s))"
    using c m(2) by (simp add: piece_range_exact [OF assms(1)] del: mult_Suc)
  have "first_piece c * ?p < total_size (pmap s)" "0 < ?p"
    using c assms(1) geometry_bounds(1) by (auto simp: pm_inv_def geometry_ok_def)
  then show "ac_start c < ac_end c" using a b c(1) by simp
qed

lemma piece_geometry:
  assumes "pm_inv m"
  shows "0 < piece_size m" "total_size m + piece_size m \<le> u64_max + 1"
    "\<And>i. i < piece_count m \<Longrightarrow> i * piece_size m < total_size m"
  using assms geometry_bounds(1) by (auto simp: pm_inv_def geometry_ok_def)

section \<open>Legal split boundaries\<close>

text \<open>A boundary inside a candidate is legal when both sides keep the minimum.\<close>

definition legal_split :: "scheduler_state \<Rightarrow> allocation_candidate \<Rightarrow> nat \<Rightarrow> nat \<Rightarrow> bool" where
  "legal_split s c min_split p \<longleftrightarrow>
     first_piece c < p \<and> p < end_piece c \<and>
     ac_start c + min_split \<le> p * piece_size (pmap s) \<and>
     p * piece_size (pmap s) + min_split \<le> ac_end c"

lemma div_ceil_le_iff: "0 < b \<Longrightarrow> div_ceil a b \<le> k \<longleftrightarrow> a \<le> k * (b::nat)"
  using div_ceil_less_iff [of b k a] by linarith

lemma legal_split_bounds_iff:
  assumes inv: "pm_inv (pmap s)" and c: "cand_ok s c" and m: "0 < min_split"
  shows "legal_split s c min_split p \<longleftrightarrow>
    (\<exists>lo hi. dynamic_legal_split_bounds s c min_split = Some (lo, hi) \<and> lo \<le> p \<and> p \<le> hi)"
proof -
  let ?ps = "piece_size (pmap s)" and ?f = "first_piece c" and ?e = "end_piece c"
  let ?k = "div_ceil min_split ?ps" and ?hi = "min ((ac_end c - min_split) div ?ps) (?e - 1)"
  have ps: "0 < ?ps" and mx: "max ?ps 1 = ?ps" using piece_geometry(1) [OF inv] by auto
  have bounds: "dynamic_legal_split_bounds s c min_split =
    (if ?e \<le> ?f + 1 \<or> min_split = 0 \<or> ac_len c div min_split < 2 \<or> u64_max < ?f + ?k \<or> ?hi < ?f + ?k
     then None else Some (?f + ?k, ?hi))"
    unfolding dynamic_legal_split_bounds_def mx checked_add_u64_def Let_def by auto
  note B = cand_bytes [OF inv c]
  have fe: "?f < ?e" using c by (simp add: cand_ok_def)
  have k: "0 < ?k" using div_ceil_pos [OF m ps] .
  have left: "ac_start c + min_split \<le> p * ?ps \<longleftrightarrow> ?f + ?k \<le> p"
  proof -
    have "ac_start c + min_split \<le> p * ?ps \<longleftrightarrow> ?f \<le> p \<and> min_split \<le> (p - ?f) * ?ps"
    proof (cases "?f \<le> p")
      case True
      then show ?thesis by (auto simp: B(1) diff_mult_distrib le_diff_conv2 mult_le_mono1)
    next
      case False
      then have "p * ?ps \<le> ?f * ?ps" by (simp add: mult_le_mono1)
      then have "\<not> ?f * ?ps + min_split \<le> p * ?ps" using m by linarith
      then show ?thesis using False by (simp add: B(1))
    qed
    then show ?thesis using div_ceil_le_iff [OF ps, of min_split "p - ?f"] by auto
  qed
  have right: "p * ?ps + min_split \<le> ac_end c \<longleftrightarrow> min_split \<le> ac_end c \<and> p \<le> (ac_end c - min_split) div ?ps"
    using less_eq_div_iff_mult_less_eq [OF ps, of p "ac_end c - min_split"] by auto
  have legal: "legal_split s c min_split p \<longleftrightarrow> min_split \<le> ac_end c \<and> ?f + ?k \<le> p \<and> p \<le> ?hi"
    unfolding legal_split_def left right using k fe by auto
  have len: "2 \<le> ac_len c div min_split" "?f + 1 < ?e" "?f + ?k \<le> ?hi" "?f + ?k \<le> u64_max"
    if l: "legal_split s c min_split p"
  proof -
    have "ac_start c + 2 * min_split \<le> ac_end c" using l by (simp add: legal_split_def)
    then have "2 * min_split \<le> ac_len c" by (simp add: ac_len_def)
    then show "2 \<le> ac_len c div min_split" using less_eq_div_iff_mult_less_eq [OF m, of 2 "ac_len c"] by simp
    show "?f + 1 < ?e" using l by (simp add: legal_split_def)
    show h: "?f + ?k \<le> ?hi" using l legal by simp
    have "?e \<le> u64_max" using c piece_count_u64 [OF inv] by (simp add: cand_ok_def)
    then show "?f + ?k \<le> u64_max" using h fe by linarith
  qed
  have small: "min_split \<le> ac_end c" if "2 \<le> ac_len c div min_split"
    using that less_eq_div_iff_mult_less_eq [OF m, of 2 "ac_len c"] by (simp add: ac_len_def)
  show ?thesis
  proof
    assume l: "legal_split s c min_split p"
    then have "dynamic_legal_split_bounds s c min_split = Some (?f + ?k, ?hi)"
      using len [OF l] m by (simp add: bounds not_less)
    then show "\<exists>lo hi. dynamic_legal_split_bounds s c min_split = Some (lo, hi) \<and> lo \<le> p \<and> p \<le> hi"
      using l legal by auto
  next
    assume "\<exists>lo hi. dynamic_legal_split_bounds s c min_split = Some (lo, hi) \<and> lo \<le> p \<and> p \<le> hi"
    then have "\<not> ac_len c div min_split < 2" "?f + ?k \<le> p" "p \<le> ?hi"
      by (auto simp: bounds split: if_splits)
    then show "legal_split s c min_split p" using legal small by simp
  qed
qed

lemma legal_split_bounds_legal:
  assumes "pm_inv (pmap s)" "cand_ok s c" "0 < min_split"
    "dynamic_legal_split_bounds s c min_split = Some (lo, hi)"
  shows "lo \<le> hi" "\<And>p. legal_split s c min_split p \<longleftrightarrow> lo \<le> p \<and> p \<le> hi"
proof -
  show "lo \<le> hi" using assms(4)
    by (auto simp: dynamic_legal_split_bounds_def Let_def split: if_splits option.splits)
  show "legal_split s c min_split p \<longleftrightarrow> lo \<le> p \<and> p \<le> hi" for p
    using legal_split_bounds_iff [OF assms(1-3)] assms(4) by simp
qed

section \<open>Spreading the slots\<close>

lemma max_dynamic_slots_pos: "1 \<le> max_dynamic_slots s c m"
  by (simp add: max_dynamic_slots_def Let_def)

text \<open>A candidate gets more than one slot only when it can be split at all.\<close>

lemma max_dynamic_slots_splittable:
  assumes "pm_inv (pmap s)" "cand_ok s c" "0 < m" "1 < max_dynamic_slots s c m"
  shows "\<exists>p. legal_split s c m p"
proof -
  obtain lo hi where "dynamic_legal_split_bounds s c m = Some (lo, hi)"
    using assms(4) by (fastforce simp: max_dynamic_slots_def Let_def split: if_splits)
  note L = legal_split_bounds_legal [OF assms(1-3) this]
  then show ?thesis by blast
qed

lemma max_dynamic_slots_bytes:
  assumes "0 < m" "m \<le> ac_len c"
  shows "max_dynamic_slots s c m * m \<le> ac_len c"
proof -
  have "max_dynamic_slots s c m \<le> max (ac_len c div m) 1"
    using assms(1) by (auto simp: max_dynamic_slots_def Let_def)
  moreover have "max (ac_len c div m) 1 = ac_len c div m"
    using assms div_greater_zero_iff [of "ac_len c" m] by simp
  ultimately have "max_dynamic_slots s c m * m \<le> ac_len c div m * m" by simp
  then show ?thesis using div_times_less_eq_dividend [of "ac_len c" m] by linarith
qed

lemma best_share_mem: "best_share cands slots idxs = Some i \<Longrightarrow> i \<in> set idxs"
  unfolding best_share_def by (rule max_by_mem)

lemma sum_list_incr:
  "i < length xs \<Longrightarrow> sum_list (xs[i := xs ! i + 1]) = Suc (sum_list (xs :: nat list))"
  by (simp add: sum_list_update)

lemma allocate_slots_bounds:
  assumes "length slots = length cands"
    "\<forall>i < length cands. 1 \<le> slots ! i \<and> slots ! i \<le> max_dynamic_slots s (cands ! i) m"
  shows "length (allocate_slots s cands m extra slots) = length cands"
    "\<forall>i < length cands. 1 \<le> allocate_slots s cands m extra slots ! i \<and>
       allocate_slots s cands m extra slots ! i \<le> max_dynamic_slots s (cands ! i) m"
    "sum_list (allocate_slots s cands m extra slots) \<le> sum_list slots + extra"
proof -
  have "length (allocate_slots s cands m extra slots) = length cands \<and>
    (\<forall>i < length cands. 1 \<le> allocate_slots s cands m extra slots ! i \<and>
       allocate_slots s cands m extra slots ! i \<le> max_dynamic_slots s (cands ! i) m) \<and>
    sum_list (allocate_slots s cands m extra slots) \<le> sum_list slots + extra"
    using assms
  proof (induction s cands m extra slots rule: allocate_slots.induct)
    case (2 s cands m extra slots)
    let ?idx = "filter (\<lambda>i. slots ! i < max_dynamic_slots s (cands ! i) m) [0..<length cands]"
    show ?case
    proof (cases "best_share cands slots ?idx")
      case (Some i)
      then have i: "i < length cands" "slots ! i < max_dynamic_slots s (cands ! i) m"
        using best_share_mem [OF Some] by auto
      have "\<forall>j < length cands. 1 \<le> slots[i := slots ! i + 1] ! j \<and>
          slots[i := slots ! i + 1] ! j \<le> max_dynamic_slots s (cands ! j) m"
        using 2(3) i 2(2) by (auto simp: nth_list_update)
      then show ?thesis
        using "2.IH" [OF Some] 2(2) i(1) sum_list_incr [of i slots] Some by simp
    qed (use 2 in simp)
  qed simp
  then show "length (allocate_slots s cands m extra slots) = length cands"
    "\<forall>i < length cands. 1 \<le> allocate_slots s cands m extra slots ! i \<and>
       allocate_slots s cands m extra slots ! i \<le> max_dynamic_slots s (cands ! i) m"
    "sum_list (allocate_slots s cands m extra slots) \<le> sum_list slots + extra" by blast+
qed

lemma plan_dynamic_share_ok:
  assumes "plan_dynamic_share s cands requested m collect = Some plan"
  shows "dp_candidate plan \<in> set cands" "1 \<le> dp_candidate_slots plan"
    "dp_candidate_slots plan \<le> max_dynamic_slots s (dp_candidate plan) m"
    "dp_planned_ranges plan \<le> requested"
proof -
  have one: "\<forall>i < length cands. 1 \<le> replicate (length cands) (1::nat) ! i \<and>
      replicate (length cands) 1 ! i \<le> max_dynamic_slots s (cands ! i) m"
    using max_dynamic_slots_pos by simp
  define slots where "slots = (if requested \<le> length cands then replicate (length cands) 1
      else allocate_slots s cands m (requested - length cands) (replicate (length cands) 1))"
  have sl: "length slots = length cands"
    "\<forall>i < length cands. 1 \<le> slots ! i \<and> slots ! i \<le> max_dynamic_slots s (cands ! i) m"
    using one allocate_slots_bounds [OF _ one] by (simp_all add: slots_def)
  have total: "length cands < requested \<Longrightarrow> sum_list slots \<le> requested"
    using allocate_slots_bounds(3) [OF _ one, of "requested - length cands"]
    by (simp add: slots_def sum_list_replicate)
  obtain i where i: "best_share cands slots [0..<length cands] = Some i" "dp_candidate plan = cands ! i"
    "dp_candidate_slots plan = slots ! i"
    "dp_planned_ranges plan = (if requested \<le> length cands then requested else sum_list slots)"
    using assms
    by (cases "requested \<le> length cands")
      (auto simp: plan_dynamic_share_def slots_def Let_def split: if_splits option.splits
        dest: best_share_mem)
  then have "i < length cands" using best_share_mem by fastforce
  then show "dp_candidate plan \<in> set cands" "1 \<le> dp_candidate_slots plan"
    "dp_candidate_slots plan \<le> max_dynamic_slots s (dp_candidate plan) m"
    "dp_planned_ranges plan \<le> requested"
    using i sl total by auto
qed

lemma plan_dynamic_share_Some:
  "0 < requested \<Longrightarrow> cands \<noteq> [] \<Longrightarrow> plan_dynamic_share s cands requested m collect \<noteq> None"
  by (auto simp: plan_dynamic_share_def best_share_def Let_def split: option.splits)


section \<open>How far a request reaches\<close>

lemma share_end_piece_bounds:
  assumes "pm_inv (pmap s)" "cand_ok s c" "0 < m"
  shows "first_piece c < dynamic_share_end_piece s c slots m"
    "dynamic_share_end_piece s c slots m \<le> end_piece c"
    "dynamic_share_end_piece s c slots m < end_piece c \<Longrightarrow>
      legal_split s c m (dynamic_share_end_piece s c slots m)"
proof -
  let ?d = "dynamic_share_end_piece s c slots m"
  have fe: "first_piece c < end_piece c" using assms(2) by (simp add: cand_ok_def)
  have "first_piece c < ?d \<and> ?d \<le> end_piece c \<and> (?d < end_piece c \<longrightarrow> legal_split s c m ?d)"
  proof (cases "slots \<le> 1 \<or> dynamic_legal_split_bounds s c m = None")
    case True
    then have "?d = end_piece c" by (auto simp: dynamic_share_end_piece_def)
    then show ?thesis using fe by simp
  next
    case False
    then obtain lo hi where b: "dynamic_legal_split_bounds s c m = Some (lo, hi)" by auto
    note L = legal_split_bounds_legal [OF assms b]
    have "lo \<le> ?d \<and> ?d \<le> hi"
      using False b L(1) by (simp add: dynamic_share_end_piece_def Let_def clamp_def)
    then have "legal_split s c m ?d" using L(2) by simp
    then show ?thesis by (simp add: legal_split_def)
  qed
  then show "first_piece c < ?d" "?d \<le> end_piece c" "?d < end_piece c \<Longrightarrow> legal_split s c m ?d" by blast+
qed

text \<open>The end piece before the minimum split size is looked at.\<close>

definition raw_request_end :: "scheduler_state \<Rightarrow> allocation_candidate \<Rightarrow> nat \<Rightarrow> nat \<Rightarrow> nat" where
  "raw_request_end s c d configured_max =
     (let psize = max (piece_size (pmap s)) 1;
          byte_bound = sat_add_u64 (ac_start c) (max (max configured_max psize) 1);
          f1 = sat_add_u64 (first_piece c) 1;
          desired = min (max d f1) (end_piece c);
          byte_end = (if ac_end c \<le> byte_bound then end_piece c
                      else min (max (byte_bound div psize) f1) (end_piece c));
          lease_end = min (sat_add_u64 (first_piece c) MAX_REQUEST_LEASES) desired
      in min (max (min (min desired byte_end) lease_end) f1) (end_piece c))"

lemma request_end_piece_raw:
  "fst (request_end_piece s c d m mx) =
     (let raw = raw_request_end s c d mx
      in case (if raw < end_piece c then dynamic_legal_split_bounds s c m else None) of
           None \<Rightarrow> raw
         | Some (lo, hi) \<Rightarrow> if lo \<le> raw then min raw hi else raw)"
proof -
  have pick: "fst (case x of (e, a, b) \<Rightarrow> (e, h a b)) = fst x" for x :: "nat \<times> bool \<times> bool" and h :: "bool \<Rightarrow> bool \<Rightarrow> string"
    by (simp split: prod.split)
  have third: "fst (case o' of None \<Rightarrow> (r, False, False)
      | Some (lo, hi) \<Rightarrow> if lo \<le> r then (min r hi, min r hi < r, False) else (r, False, True)) =
      (case o' of None \<Rightarrow> r | Some (lo, hi) \<Rightarrow> if lo \<le> r then min r hi else r)"
    for o' :: "(nat \<times> nat) option" and r
    by (simp split: option.split)
  show ?thesis unfolding request_end_piece_def raw_request_end_def Let_def pick third by (rule refl)
qed

lemma raw_request_end_bounds:
  assumes inv: "pm_inv (pmap s)" and c: "cand_ok s c"
  shows "first_piece c < raw_request_end s c d mx" "raw_request_end s c d mx \<le> end_piece c"
    "raw_request_end s c d mx \<le> max d (Suc (first_piece c))"
    "raw_request_end s c d mx \<le> first_piece c + MAX_REQUEST_LEASES"
    "min (raw_request_end s c d mx * piece_size (pmap s)) (ac_end c) \<le>
      ac_start c + max mx (piece_size (pmap s))"
proof -
  let ?ps = "piece_size (pmap s)" and ?f = "first_piece c" and ?e = "end_piece c"
  let ?r = "raw_request_end s c d mx"
  let ?bb = "sat_add_u64 (ac_start c) (max mx ?ps)"
  let ?be = "if ac_end c \<le> ?bb then ?e else min (max (?bb div ?ps) (Suc ?f)) ?e"
  have ps: "0 < ?ps" "max ?ps 1 = ?ps" "max (max mx ?ps) 1 = max mx ?ps"
    using piece_geometry(1) [OF inv] by auto
  have fe: "?f < ?e" "?e \<le> u64_max"
    using c piece_count_u64 [OF inv] by (simp_all add: cand_ok_def)
  have f1: "sat_add_u64 ?f 1 = Suc ?f" using fe by (simp add: sat_add_u64_def)
  define D where "D = max d (Suc ?f)"
  define L where "L = sat_add_u64 ?f MAX_REQUEST_LEASES"
  define BE where "BE = ?be"
  define X where "X = min (min (min D ?e) BE) (min L (min D ?e))"
  have r: "?r = min (max X (Suc ?f)) ?e"
    unfolding raw_request_end_def ps f1 Let_def X_def D_def L_def BE_def by (rule refl)
  have X: "X \<le> D" "X \<le> BE" "X \<le> L" by (simp_all add: X_def)
  have D: "Suc ?f \<le> D" by (simp add: D_def)
  show "?f < ?r" "?r \<le> ?e" using fe(1) r by linarith+
  show "?r \<le> max d (Suc ?f)" using X(1) D r unfolding D_def [symmetric] by linarith
  have "L \<le> ?f + MAX_REQUEST_LEASES" "1 \<le> MAX_REQUEST_LEASES"
    by (simp_all add: L_def sat_add_u64_def MAX_REQUEST_LEASES_def)
  then show "?r \<le> ?f + MAX_REQUEST_LEASES" using r X(3) by linarith
  have be: "?r \<le> max BE (Suc ?f)" using r X(2) by linarith
  note B = cand_bytes [OF inv c]
  have one: "Suc ?f * ?ps \<le> ac_start c + max mx ?ps" by (simp add: B(1))
  show "min (?r * ?ps) (ac_end c) \<le> ac_start c + max mx ?ps"
  proof (cases "ac_end c \<le> ?bb")
    case True
    then show ?thesis by (simp add: sat_add_u64_def min.coboundedI2)
  next
    case False
    then have "BE \<le> max (?bb div ?ps) (Suc ?f)" by (simp add: BE_def)
    then have "?r \<le> max (?bb div ?ps) (Suc ?f)" using be by linarith
    then have "?r * ?ps \<le> max (?bb div ?ps) (Suc ?f) * ?ps" by (rule mult_le_mono1)
    also have "\<dots> = max (?bb div ?ps * ?ps) (Suc ?f * ?ps)" by (rule nat_mult_max_left)
    also have "\<dots> \<le> ac_start c + max mx ?ps"
    proof -
      have "?bb div ?ps * ?ps \<le> ?bb" by simp
      moreover have "?bb \<le> ac_start c + max mx ?ps" by (simp add: sat_add_u64_def)
      ultimately show ?thesis using one by linarith
    qed
    finally show ?thesis by (rule min.coboundedI1)
  qed
qed

lemma request_end_piece_bounds:
  assumes inv: "pm_inv (pmap s)" and c: "cand_ok s c" and m: "0 < m"
  shows "first_piece c < fst (request_end_piece s c d m mx)"
    "fst (request_end_piece s c d m mx) \<le> raw_request_end s c d mx"
    "fst (request_end_piece s c d m mx) < end_piece c \<Longrightarrow>
       legal_split s c m p \<Longrightarrow> p \<le> fst (request_end_piece s c d m mx) \<Longrightarrow>
       legal_split s c m (fst (request_end_piece s c d m mx))"
proof -
  let ?e = "fst (request_end_piece s c d m mx)" and ?r = "raw_request_end s c d mx"
  note R = raw_request_end_bounds [OF inv c]
  have "f < ?e \<and> ?e \<le> ?r \<and> (?e < end_piece c \<longrightarrow> legal_split s c m p \<longrightarrow> p \<le> ?e \<longrightarrow> legal_split s c m ?e)"
    if "f = first_piece c" for f
  proof (cases "?r < end_piece c")
    case False
    then show ?thesis using R(1,2) [of d mx] that by (simp add: request_end_piece_raw Let_def)
  next
    case True
    show ?thesis
    proof (cases "dynamic_legal_split_bounds s c m")
      case None
      then have "\<not> legal_split s c m p" using legal_split_bounds_iff [OF inv c m] by simp
      then show ?thesis using None R(1) [of d mx] True that by (simp add: request_end_piece_raw Let_def)
    next
      case (Some b)
      obtain lo hi where b: "b = (lo, hi)" by (cases b)
      note L = legal_split_bounds_legal [OF inv c m Some [unfolded b]]
      have e: "?e = (if lo \<le> ?r then min ?r hi else ?r)"
        using True Some b by (simp add: request_end_piece_raw Let_def)
      show ?thesis
      proof (cases "lo \<le> ?r")
        case T: True
        then have "legal_split s c m ?e" using e L by simp
        then show ?thesis using T e that by (simp add: legal_split_def)
      next
        case F: False
        then show ?thesis using e R(1) [of d mx] L(2) [of p] that by simp
      qed
    qed
  qed
  then show "first_piece c < ?e" "?e \<le> ?r"
    "?e < end_piece c \<Longrightarrow> legal_split s c m p \<Longrightarrow> p \<le> ?e \<Longrightarrow> legal_split s c m ?e" by blast+
qed


section \<open>Issuing the request\<close>

lemma issue_lease_pmap: "issue_lease s i r w = (s', o') \<Longrightarrow> pmap s' = pmap s"
  by (auto simp: issue_lease_def Let_def split: if_splits option.splits prod.splits)

lemma issue_dynamic_loop_all:
  assumes "\<forall>i \<in> set xs. snd (piece_range (pmap s) i) \<le> e"
    "ys = [] \<or> e < snd (piece_range (pmap s) (hd ys))"
  shows "issue_dynamic_loop s (xs @ ys) e w acc =
    (case issue_all s (map (\<lambda>i. (i, full_range s i)) xs) w acc of
       (s', Some segs) \<Rightarrow> (s', if segs = [] then None else Some segs)
     | (s', None) \<Rightarrow> (s', None))"
  using assms
proof (induction xs arbitrary: s acc)
  case Nil
  then show ?case by (cases ys) (auto split: prod.splits)
next
  case (Cons i xs)
  obtain a b where ab: "piece_range (pmap s) i = (a, b)" by (cases "piece_range (pmap s) i")
  obtain s1 o1 where iss: "issue_lease s i (full_range s i) w = (s1, o1)"
    by (cases "issue_lease s i (full_range s i) w")
  have pm: "pmap s1 = pmap s" by (rule issue_lease_pmap [OF iss])
  have fr: "full_range s1 = full_range s" by (rule ext) (simp add: full_range_def pm)
  have r: "full_range s i = \<lparr>br_start = a, br_end = b\<rparr>" by (simp add: full_range_def ab)
  show ?case
  proof (cases o1)
    case None
    then show ?thesis using Cons.prems(1) ab iss r by simp
  next
    case (Some seg)
    then show ?thesis using Cons.IH [of s1 "acc @ [seg]"] Cons.prems ab iss r by (simp add: pm fr)
  qed
qed

lemma piece_end_less:
  assumes "pm_inv m" "i < j" "j < piece_count m"
  shows "snd (piece_range m i) < snd (piece_range m j)"
proof -
  have "Suc i * piece_size m \<le> j * piece_size m" using assms(2) by (intro mult_le_mono1) simp
  moreover have "j * piece_size m < total_size m" "0 < piece_size m"
    using piece_geometry [OF assms(1)] assms(3) by auto
  ultimately show ?thesis using assms by (simp add: piece_range_exact)
qed

lemma piece_end_le:
  assumes "pm_inv m" "i \<le> j" "j < piece_count m"
  shows "snd (piece_range m i) \<le> snd (piece_range m j)"
  using piece_end_less [OF assms(1) _ assms(3), of i] assms(2) by (cases "i = j") auto

text \<open>The request of a candidate up to a piece boundary is a whole run of leases.\<close>

lemma issue_dynamic_candidate_run:
  assumes inv: "sched_inv s" and c: "cand_ok s c" and e: "first_piece c < e" "e \<le> end_piece c"
    and ns: "\<not> stopped s"
  shows "issue_dynamic_candidate s c (snd (piece_range (pmap s) (e - 1))) w =
    (case issue_all s (map (\<lambda>i. (i, full_range s i)) [first_piece c..<e]) w [] of
       (s', Some segs) \<Rightarrow> (s', if segs = [] then None else Some segs)
     | (s', None) \<Rightarrow> (s', None))"
proof -
  let ?m = "pmap s" and ?f = "first_piece c" and ?E = "snd (piece_range (pmap s) (e - 1))"
  note pm = sched_inv_map [OF inv]
  have n: "end_piece c \<le> piece_count ?m" using c by (simp add: cand_ok_def)
  have "ac_start c = fst (piece_range ?m ?f)"
    using c unfolding cand_ok_def by (metis mk_candidate_def allocation_candidate.simps(1))
  moreover have "fst (piece_range ?m ?f) < snd (piece_range ?m ?f)"
    by (rule piece_range_bounds [OF pm]) (use e n in simp)
  moreover have "snd (piece_range ?m ?f) \<le> ?E" by (rule piece_end_le [OF pm]) (use e n in auto)
  ultimately have start: "\<not> ?E \<le> ac_start c" by linarith
  have split: "[?f..<end_piece c] = [?f..<e] @ [e..<end_piece c]"
    using upt_add_eq_append [of ?f e "end_piece c - e"] e by simp
  have "\<forall>i \<in> set [?f..<e]. snd (piece_range ?m i) \<le> ?E"
    using piece_end_le [OF pm] e n by auto
  moreover have "[e..<end_piece c] = [] \<or> ?E < snd (piece_range ?m (hd [e..<end_piece c]))"
    using piece_end_less [OF pm, of "e - 1" e] e n by (cases "e < end_piece c") auto
  ultimately show ?thesis
    unfolding issue_dynamic_candidate_def split
    using issue_dynamic_loop_all [of "[?f..<e]" s ?E "[e..<end_piece c]" w "[]"] start ns by simp
qed


lemma untouched_facts:
  assumes "sched_inv s" "is_untouched_piece s i"
  shows "i < piece_count (pmap s)" "available_pieces s ! i" "\<not> completed (pmap s) ! i"
    "piece_free s i = br_bytes (full_range s i)" "issuable s (i, full_range s i)"
proof -
  show i: "i < piece_count (pmap s)" and a: "available_pieces s ! i"
    using assms untouched_iff by auto
  have un: "bt_get (pieces s) i = None" using assms(2) by (simp add: is_untouched_piece_def)
  show nc: "\<not> completed (pmap s) ! i" by (rule available_not_complete [OF assms(1) i a])
  show "piece_free s i = br_bytes (full_range s i)"
    using un nc by (simp add: piece_free_def full_range_bytes)
  show "issuable s (i, full_range s i)"
    using i nc full_range_ok [OF assms(1) i] by (simp add: issuable_def)
qed

lemma piece_adjacent:
  assumes "pm_inv m" "Suc i < piece_count m"
  shows "fst (piece_range m (Suc i)) = snd (piece_range m i)"
  using piece_geometry(3) [OF assms] assms by (simp add: piece_range_exact)

lemma full_range_ends:
  "br_start (full_range s i) = fst (piece_range (pmap s) i)"
  "br_end (full_range s i) = snd (piece_range (pmap s) i)"
  by (simp_all add: full_range_def split: prod.splits)

lemma run_segments:
  assumes inv: "pm_inv (pmap s)" and n: "e \<le> piece_count (pmap s)"
    and segs: "list_all2 (seg_for w) (map (\<lambda>i. (i, full_range s i)) [f..<e]) segs"
  shows "contiguous_segs segs" "\<forall>seg \<in> set segs. owner_worker_id seg = w" "length segs = e - f"
    "f < e \<Longrightarrow> seg_start (hd segs) = fst (piece_range (pmap s) f) \<and>
      seg_end (last segs) = snd (piece_range (pmap s) (e - 1))"
proof -
  show len: "length segs = e - f" using list_all2_lengthD [OF segs] by simp
  have at: "owner_worker_id (segs ! j) = w \<and> seg_start (segs ! j) = fst (piece_range (pmap s) (f + j)) \<and>
      seg_end (segs ! j) = snd (piece_range (pmap s) (f + j))" if j: "j < e - f" for j
  proof -
    have "seg_for w (f + j, full_range s (f + j)) (segs ! j)"
      using list_all2_nthD [OF segs, of j] j by simp
    then show ?thesis
      by (metis seg_for_def seg_range_def fst_conv snd_conv full_range_ends byte_range.simps(1,2))
  qed
  show "\<forall>seg \<in> set segs. owner_worker_id seg = w" using at len by (auto simp: in_set_conv_nth)
  show "contiguous_segs segs" unfolding contiguous_segs_def
  proof (intro allI impI)
    fix j assume j: "Suc j < length segs"
    then have "Suc (f + j) < piece_count (pmap s)" using len n by simp
    then show "seg_start (segs ! Suc j) = seg_end (segs ! j)"
      using at [of j] at [of "Suc j"] j len piece_adjacent [OF inv] by simp
  qed
  show "seg_start (hd segs) = fst (piece_range (pmap s) f) \<and>
      seg_end (last segs) = snd (piece_range (pmap s) (e - 1))" if "f < e"
  proof -
    have "segs \<noteq> []" using len that by auto
    then have "hd segs = segs ! 0" "last segs = segs ! (e - f - 1)"
      using len by (simp_all add: hd_conv_nth last_conv_nth)
    then show ?thesis using at [of 0] at [of "e - f - 1"] that by simp
  qed
qed

text \<open>A run of untouched pieces can always be issued.\<close>

lemma issue_untouched_run:
  assumes inv: "sched_inv s" and un: "\<And>i. f \<le> i \<Longrightarrow> i < e \<Longrightarrow> is_untouched_piece s i"
    and fe: "f < e" "e - f \<le> MAX_REQUEST_LEASES" and n: "e \<le> piece_count (pmap s)"
    and room: "next_lease_id s + MAX_REQUEST_LEASES \<le> u64_max" and ns: "\<not> stopped s"
  obtains s' segs where "issue_all s (map (\<lambda>i. (i, full_range s i)) [f..<e]) w [] = (s', Some segs)"
    "segs \<noteq> []" "batch_rel s s' segs" "next_lease_id s' \<le> next_lease_id s + MAX_REQUEST_LEASES"
    "list_all2 (seg_for w) (map (\<lambda>i. (i, full_range s i)) [f..<e]) segs"
proof -
  let ?ps = "map (\<lambda>i. (i, full_range s i)) [f..<e]"
  obtain s' res where iss: "issue_all s ?ps w [] = (s', res)" by (cases "issue_all s ?ps w []")
  have ok: "\<forall>pr \<in> set ?ps. issuable s pr" using untouched_facts(5) [OF inv un] by auto
  have r: "next_lease_id s + length ?ps \<le> u64_max" using room fe by simp
  have d: "distinct (map fst ?ps)" by (simp add: comp_def)
  have "\<forall>(i, r) \<in> set ?ps. br_bytes r \<subseteq> piece_free s i"
    using untouched_facts(4) [OF inv un] by auto
  then have "res \<noteq> None" using issue_all_succeeds [OF inv ok d r ns, of w "[]"] iss by simp
  moreover note B = issue_all_batch [OF batch_refl [OF inv] inv ok r iss]
  ultimately obtain segs where s: "res = Some segs" "batch_rel s s' segs" "list_all2 (seg_for w) ?ps segs"
    by auto
  moreover have "segs \<noteq> []" using s(3) fe by auto
  moreover have "next_lease_id s' \<le> next_lease_id s + MAX_REQUEST_LEASES" using B(2) fe by simp
  ultimately show ?thesis using that iss by blast
qed

text \<open>The whole step for one candidate.\<close>

lemma issue_candidate_ok:
  fixes s c d m mx
  assumes inv: "sched_inv s" and mem: "c \<in> set (dynamic_candidates s)" and m: "0 < m"
    and room: "next_lease_id s + MAX_REQUEST_LEASES \<le> u64_max" and ns: "\<not> stopped s"
  defines "fe \<equiv> fst (dynamic_request_end s c d m mx)"
  obtains s' segs where "issue_dynamic_candidate s c fe w = (s', Some segs)" "segs \<noteq> []"
    "batch_rel s s' segs" "next_lease_id s' \<le> next_lease_id s + MAX_REQUEST_LEASES"
    "contiguous_segs segs" "\<forall>seg \<in> set segs. owner_worker_id seg = w"
    "length segs \<le> MAX_REQUEST_LEASES" "seg_start (hd segs) = ac_start c" "seg_end (last segs) = fe"
    "fe \<le> ac_end c" "fe - ac_start c \<le> max mx (piece_size (pmap s))"
proof -
  note pm = sched_inv_map [OF inv] and C = dynamic_candidates_ok [OF inv mem]
  note B = cand_bytes [OF pm C(1)]
  define e where "e = fst (request_end_piece s c d m mx)"
  note E = request_end_piece_bounds(1,2) [OF pm C(1) m, of d mx, folded e_def]
  note R = raw_request_end_bounds [OF pm C(1), of d mx]
  have e: "first_piece c < e" "e \<le> end_piece c" "e - first_piece c \<le> MAX_REQUEST_LEASES"
    using E R by linarith+
  have n: "e \<le> piece_count (pmap s)" using e(2) C(1) by (simp add: cand_ok_def)
  have pe: "snd (piece_range (pmap s) (e - 1)) = min (e * piece_size (pmap s)) (total_size (pmap s))"
  proof -
    have "e - 1 < piece_count (pmap s)" "Suc (e - 1) = e" using e(1) n by auto
    then show ?thesis by (simp add: piece_range_exact [OF pm] del: mult_Suc)
  qed
  have "e * piece_size (pmap s) \<le> end_piece c * piece_size (pmap s)" using e(2) by (rule mult_le_mono1)
  then have le: "snd (piece_range (pmap s) (e - 1)) = min (e * piece_size (pmap s)) (ac_end c)"
    unfolding pe B(2) by linarith
  have fe: "fe = snd (piece_range (pmap s) (e - 1))"
    using le by (simp add: fe_def dynamic_request_end_def e_def split_def)
  have cap: "fe \<le> ac_start c + max mx (piece_size (pmap s))"
  proof -
    have "min (e * piece_size (pmap s)) (ac_end c) \<le> min (raw_request_end s c d mx * piece_size (pmap s)) (ac_end c)"
      using E(2) by (intro min.mono) simp_all
    then show ?thesis using R(5) fe le by linarith
  qed
  have un: "is_untouched_piece s i" if "first_piece c \<le> i" "i < e" for i
    using C(2) [of i] that e(2) by simp
  obtain s' segs where iss: "issue_all s (map (\<lambda>i. (i, full_range s i)) [first_piece c..<e]) w [] = (s', Some segs)"
    and S: "segs \<noteq> []" "batch_rel s s' segs" "next_lease_id s' \<le> next_lease_id s + MAX_REQUEST_LEASES"
    and all: "list_all2 (seg_for w) (map (\<lambda>i. (i, full_range s i)) [first_piece c..<e]) segs"
    by (rule issue_untouched_run [OF inv un e(1,3) n room ns, of w]) (assumption, assumption, rule that)
  note Q = run_segments [OF pm n all]
  have "ac_start c = fst (piece_range (pmap s) (first_piece c))"
    using C(1) unfolding cand_ok_def by (metis mk_candidate_def allocation_candidate.simps(1))
  then have ends: "seg_start (hd segs) = ac_start c" "seg_end (last segs) = fe" using Q(4) e(1) fe by simp_all
  have ok: "issue_dynamic_candidate s c fe w = (s', Some segs)"
    unfolding fe using issue_dynamic_candidate_run [OF inv C(1) e(1,2) ns, of w] iss S(1) by simp
  have le': "fe \<le> ac_end c" using fe le by simp
  have len: "length segs \<le> MAX_REQUEST_LEASES" using Q(3) e(3) by simp
  have cap': "fe - ac_start c \<le> max mx (piece_size (pmap s))" using cap by linarith
  show ?thesis by (rule that [OF ok S Q(1,2) len ends le' cap'])
qed


lemma request_room: "next_lease_id s + MAX_REQUEST_LEASES + 1 \<le> u64_max \<Longrightarrow>
    next_lease_id s < u64_max \<and> next_lease_id s + MAX_REQUEST_LEASES \<le> u64_max"
  by linarith

lemma dynamic_candidates_available:
  assumes "sched_inv s" "c \<in> set (dynamic_candidates s)"
  shows "available_range_count s \<noteq> 0"
proof -
  note C = dynamic_candidates_ok [OF assms]
  have "is_untouched_piece s (first_piece c)" using C by (simp add: cand_ok_def)
  then show ?thesis using untouched_facts(1,2) [OF assms(1)] available_range_count_zero [OF assms(1)] by blast
qed

lemma single_request_cases:
  assumes inv: "sched_inv s" and room: "next_lease_id s < u64_max"
    and asg: "(case assign_to s w of (s', None) \<Rightarrow> (s', None)
      | (s', Some seg) \<Rightarrow> (s', Some (ra_single seg slots occ))) = (s', res)"
  shows "(res = None \<and> s' = s \<and> (stopped s \<or> available_range_count s = 0)) \<or>
    (\<exists>ra. res = Some ra \<and> request_ok s w s' ra \<and> \<not> candidate_boundary_scanned ra)"
proof -
  obtain s1 o1 where a: "assign_to s w = (s1, o1)" by (cases "assign_to s w")
  show ?thesis
  proof (cases o1)
    case None
    then show ?thesis using assign_None [OF inv] a asg by (auto simp: assign_to_def)
  next
    case (Some seg)
    then have "request_ok s w s1 (ra_single seg slots occ)"
      using single_request_ok [OF inv room] a by (auto simp: assign_to_def)
    then show ?thesis using Some a asg by (auto simp: ra_single_def)
  qed
qed

lemma dynamic_request_cases:
  assumes inv: "sched_inv s" and room: "next_lease_id s + MAX_REQUEST_LEASES + 1 \<le> u64_max"
    and slots: "0 < slots"
    and asg: "assign_dynamic_request s w occ slots dmin dmax col = (s', res)"
  shows "(res = None \<and> s' = s \<and> (stopped s \<or> available_range_count s = 0)) \<or>
    (\<exists>ra. res = Some ra \<and> request_ok s w s' ra \<and>
      (candidate_boundary_scanned ra \<longrightarrow>
        final_end ra - final_start ra \<le> max dmax (piece_size (pmap s)) \<and>
        final_end ra \<le> candidate_end ra \<and> planned_ranges ra \<le> slots))"
proof (cases "dynamic_candidates s = []")
  case True
  note S = single_request_cases [OF inv conjunct1 [OF request_room [OF room]]]
  show ?thesis using S [OF asg [unfolded assign_dynamic_request_def Let_def if_P [OF True]]]
    by (elim disjE exE conjE) simp_all
next
  case False
  let ?m = "aligned_dynamic_min_split_size s dmin"
  have m: "0 < ?m" by (simp add: aligned_dynamic_min_split_size_def min_split_pos)
  obtain plan where plan: "plan_dynamic_share s (dynamic_candidates s) slots ?m col = Some plan"
    using plan_dynamic_share_Some [OF slots False] by blast
  note P = plan_dynamic_share_ok [OF plan]
  let ?c = "dp_candidate plan"
  let ?d = "dynamic_share_end_piece s ?c (dp_candidate_slots plan) ?m"
  obtain fend reason where re: "dynamic_request_end s ?c ?d ?m dmax = (fend, reason)"
    by (cases "dynamic_request_end s ?c ?d ?m dmax")
  note asg' = asg [unfolded assign_dynamic_request_def Let_def if_not_P [OF False] plan option.case re prod.case]
  show ?thesis
  proof (cases "stopped s")
    case True
    then show ?thesis using asg' by (simp add: issue_dynamic_candidate_def)
  next
    case ns: False
    note room' = conjunct2 [OF request_room [OF room]]
    obtain s1 segs where iss: "issue_dynamic_candidate s ?c fend w = (s1, Some segs)" "segs \<noteq> []"
      and S: "batch_rel s s1 segs" "next_lease_id s1 \<le> next_lease_id s + MAX_REQUEST_LEASES"
      "contiguous_segs segs" "\<forall>seg \<in> set segs. owner_worker_id seg = w"
      "length segs \<le> MAX_REQUEST_LEASES"
      and B: "seg_start (hd segs) = ac_start ?c" "seg_end (last segs) = fend"
      "fend \<le> ac_end ?c" "fend - ac_start ?c \<le> max dmax (piece_size (pmap s))"
      by (rule issue_candidate_ok [OF inv P(1) m room' ns, of ?d dmax w, unfolded re fst_conv])
        (rule that)
    define ra where "ra = \<lparr>ra_segments = segs, candidate_start = ac_start ?c, candidate_end = ac_end ?c,
      candidate_boundary_scanned = True, candidate_slots = dp_candidate_slots plan,
      target_end = snd (piece_range (pmap s) (?d - 1)), candidate_shares = dp_candidate_shares plan,
      final_start = seg_start (hd segs), final_end = seg_end (last segs),
      available_request_slots = slots, occupied_requests = occ,
      planned_ranges = dp_planned_ranges plan, truncation_reason = reason\<rparr>"
    have res: "res = Some ra" "s' = s1"
      using asg' [unfolded iss(1) option.case prod.case if_not_P [OF iss(2)]] by (simp_all add: ra_def)
    have "request_ok s w s' ra" using S iss(2) by (simp add: request_ok_def ra_def res(2))
    moreover have "final_end ra - final_start ra \<le> max dmax (piece_size (pmap s))"
      "final_end ra \<le> candidate_end ra" "planned_ranges ra \<le> slots"
      using B P(4) by (simp_all add: ra_def)
    ultimately show ?thesis using res(1) by simp
  qed
qed

lemma fixed_request_None:
  assumes inv: "sched_inv s" and asg: "assign_fixed_request s w mr ms occ cap slots diag = (s', None)"
  shows "s' = s \<and> (stopped s \<or> available_range_count s = 0)"
proof -
  let ?n = "sat_add_u64 (active_lease_count s) slots"
  obtain s1 o1 where a: "assign_to_with_split s w ?n ms = (s1, o1)" by (cases "assign_to_with_split s w ?n ms")
  have "o1 = None" using asg a
    by (cases o1) (auto simp: assign_fixed_request_def Let_def split: prod.splits if_splits)
  then show ?thesis using assign_None [OF inv] a asg by (auto simp: assign_fixed_request_def Let_def)
qed

text \<open>Every way of asking for a request: either it is granted as one batch of
  contiguous leases, or the state is untouched and there is a reason.\<close>

lemma assign_request_cases:
  assumes inv: "sched_inv s" and room: "next_lease_id s + MAX_REQUEST_LEASES + 1 \<le> u64_max"
    and asg: "assign_request_with_trace s w mr ms occ mode cap dmin dmax allow diag col = (s', res)"
  shows "(res = None \<and> s' = s \<and> (stopped s \<or> available_range_count s = 0 \<or> mr \<le> occ)) \<or>
    (\<exists>ra. res = Some ra \<and> request_ok s w s' ra)"
proof (cases "mr - occ = 0 \<or> available_range_count s = 0")
  case True
  then show ?thesis using asg by (auto simp: assign_request_with_trace_def)
next
  case False
  then have F: "0 < mr - occ" "available_range_count s \<noteq> 0" by auto
  show ?thesis
  proof (cases "allow")
    case False
    have "(case assign_to s w of (s', None) \<Rightarrow> (s', None)
      | (s', Some seg) \<Rightarrow> (s', Some (ra_single seg (mr - occ) occ))) = (s', res)"
      using asg F False by (simp add: assign_request_with_trace_def)
    from single_request_cases [OF inv conjunct1 [OF request_room [OF room]] this] show ?thesis by blast
  next
    case allow: True
    show ?thesis
    proof (cases mode)
      case Fixed
      then have a: "assign_fixed_request s w mr ms occ cap (mr - occ) diag = (s', res)"
        using asg F allow by (simp add: assign_request_with_trace_def)
      then show ?thesis using fixed_request_None [OF inv] assign_fixed_request_ok(1) [OF inv room]
        by (cases res) blast+
    next
      case Dynamic
      then have "assign_dynamic_request s w occ (mr - occ) dmin dmax col = (s', res)"
        using asg F allow by (simp add: assign_request_with_trace_def)
      then show ?thesis using dynamic_request_cases [OF inv room F(1)] by blast
    qed
  qed
qed


section \<open>Properties\<close>

lemma small_sched: "sched_inv (sched_new (the (pm_new 40 4)))" "pm_inv (pmap (sched_new (the (pm_new 40 4))))"
proof -
  show inv: "sched_inv (sched_new (the (pm_new 40 4)))"
    by (intro sched_inv_new pm_inv_new_the geometry_small) simp_all
  show "pm_inv (pmap (sched_new (the (pm_new 40 4))))" by (rule sched_inv_map [OF inv])
qed

definition sample_candidate :: allocation_candidate where
  "sample_candidate = \<lparr>ac_start = 0, ac_end = 40, first_piece = 0, end_piece = 10\<rparr>"

lemma sample_candidate_ok: "cand_ok (sched_new (the (pm_new 40 4))) sample_candidate"
  by (simp add: cand_ok_def mk_candidate_def sample_candidate_def sched_new_def pm_new_def Let_def
    piece_range_def piece_len_def div_ceil_def u64_defs)

text \<open>C17. The allocation candidates of the dynamic mode are exactly the maximal runs
  of untouched pieces, in ascending order and pairwise separated.\<close>

theorem dynamic_candidates_maximal:
  assumes "sched_inv s"
  shows "runs_ok (is_untouched_piece s) 0 (piece_count (pmap s)) (map cand_span (dynamic_candidates s)) \<and>
    (\<forall>c \<in> set (dynamic_candidates s). cand_ok s c)"
  using dynamic_candidates_runs [OF assms] dynamic_candidates_ok(1) [OF assms] by blast

theorem dynamic_candidates_maximal_witness:
  "let s = sched_new (the (pm_new 40 4))
   in runs_ok (is_untouched_piece s) 0 (piece_count (pmap s)) (map cand_span (dynamic_candidates s)) \<and>
      (\<forall>c \<in> set (dynamic_candidates s). cand_ok s c)"
  using dynamic_candidates_maximal [OF small_sched(1)] by (simp add: Let_def)

text \<open>C18. The computed split bounds are sound and complete: a piece boundary lies
  within them exactly when both sides of a cut there keep the minimum split size.\<close>

theorem dynamic_split_bounds_exact:
  assumes "pm_inv (pmap s)" "cand_ok s c" "0 < min_split"
  shows "legal_split s c min_split p \<longleftrightarrow>
    (\<exists>lo hi. dynamic_legal_split_bounds s c min_split = Some (lo, hi) \<and> lo \<le> p \<and> p \<le> hi)"
  by (rule legal_split_bounds_iff [OF assms])

theorem dynamic_split_bounds_exact_witness:
  "let s = sched_new (the (pm_new 40 4))
   in (legal_split s sample_candidate 12 5 \<longleftrightarrow>
        (\<exists>lo hi. dynamic_legal_split_bounds s sample_candidate 12 = Some (lo, hi) \<and> lo \<le> 5 \<and> 5 \<le> hi)) \<and>
      dynamic_legal_split_bounds s sample_candidate 12 = Some (3, 7)"
proof -
  have "dynamic_legal_split_bounds (sched_new (the (pm_new 40 4))) sample_candidate 12 = Some (3, 7)"
    by (simp add: dynamic_legal_split_bounds_def sample_candidate_def ac_len_def sched_new_def pm_new_def
      Let_def div_ceil_def checked_add_u64_def u64_max_def)
  then show ?thesis
    using dynamic_split_bounds_exact [OF small_sched(2) sample_candidate_ok, of 12 5] by (simp add: Let_def)
qed

text \<open>One dynamic request takes at least one piece of its candidate, at most 64
  leases and at most the configured byte limit (never less than a piece), and it
  cuts the candidate at an illegal boundary only when no legal boundary is in
  reach.\<close>

theorem dynamic_request_limits:
  assumes "pm_inv (pmap s)" "cand_ok s c" "0 < min_split"
  shows "let e = fst (request_end_piece s c d min_split mx)
    in first_piece c < e \<and> e \<le> end_piece c \<and> e \<le> first_piece c + MAX_REQUEST_LEASES \<and>
       min (e * piece_size (pmap s)) (ac_end c) \<le> ac_start c + max mx (piece_size (pmap s)) \<and>
       (\<forall>p \<le> e. e < end_piece c \<and> legal_split s c min_split p \<longrightarrow> legal_split s c min_split e)"
proof -
  let ?e = "fst (request_end_piece s c d min_split mx)"
  note R = raw_request_end_bounds [OF assms(1,2), of d mx] and E = request_end_piece_bounds [OF assms, of d mx]
  have "?e * piece_size (pmap s) \<le> raw_request_end s c d mx * piece_size (pmap s)"
    using E(2) by (rule mult_le_mono1)
  then have "min (?e * piece_size (pmap s)) (ac_end c) \<le> ac_start c + max mx (piece_size (pmap s))"
    using R(5) by linarith
  moreover have "?e \<le> end_piece c" "?e \<le> first_piece c + MAX_REQUEST_LEASES" using E(2) R(2,4) by linarith+
  ultimately show ?thesis using E(1,3) by (auto simp: Let_def)
qed

theorem dynamic_request_limits_witness:
  "let s = sched_new (the (pm_new 40 4)); c = sample_candidate;
       e = fst (request_end_piece s c 5 12 16)
   in first_piece c < e \<and> e \<le> end_piece c \<and> e \<le> first_piece c + MAX_REQUEST_LEASES \<and>
      min (e * piece_size (pmap s)) (ac_end c) \<le> ac_start c + max 16 (piece_size (pmap s)) \<and>
      (\<forall>p \<le> e. e < end_piece c \<and> legal_split s c 12 p \<longrightarrow> legal_split s c 12 e)"
  using dynamic_request_limits [OF small_sched(2) sample_candidate_ok, of 12 5 16] by (simp add: Let_def)

text \<open>The share plan gives every candidate at least one slot, never more slots
  than it has minimum-size parts, plans at most the requested number of ranges, and
  always produces a plan when there is a candidate and a slot.\<close>

theorem dynamic_plan_bounded:
  assumes "0 < requested" "cands \<noteq> []"
  shows "\<exists>plan. plan_dynamic_share s cands requested m collect = Some plan \<and>
    dp_candidate plan \<in> set cands \<and> 1 \<le> dp_candidate_slots plan \<and>
    dp_candidate_slots plan \<le> max_dynamic_slots s (dp_candidate plan) m \<and>
    dp_planned_ranges plan \<le> requested"
  using plan_dynamic_share_Some [OF assms, of s m collect] plan_dynamic_share_ok [of s cands requested m collect]
  by (metis option.exhaust)

theorem dynamic_plan_bounded_witness:
  "\<exists>plan. plan_dynamic_share (sched_new (the (pm_new 40 4))) [sample_candidate] 3 12 False = Some plan \<and>
    dp_candidate plan \<in> set [sample_candidate] \<and> 1 \<le> dp_candidate_slots plan \<and>
    dp_candidate_slots plan \<le> max_dynamic_slots (sched_new (the (pm_new 40 4))) (dp_candidate plan) 12 \<and>
    dp_planned_ranges plan \<le> 3"
  by (rule dynamic_plan_bounded) simp_all

end
