(* ===== verification/Scheduler_Run.thy ===== *)
theory Scheduler_Run
  imports Dynamic_Requests
begin

text \<open>
  Sequences of scheduler operations.  The workers, the recovery queue and the writer
  feedback of a download share one scheduler behind a mutex, so a download is some
  sequence of the operations below; every such sequence refines the byte ledger.
\<close>

section \<open>Operations\<close>

datatype sched_op =
    OpAssign nat nat nat
  | OpRequest nat nat nat nat range_scheduling_mode nat nat nat bool bool bool
  | OpSubrange nat nat nat nat
  | OpRecovery "(nat \<times> nat \<times> nat) list" nat
  | OpExtend segment nat nat nat nat
  | OpRetain lease_key nat
  | OpRenew lease_key nat
  | OpComplete lease_key
  | OpReclaim lease_key
  | OpStop lease_key
  | OpHints

fun sched_exec :: "sched_op \<Rightarrow> scheduler_state \<Rightarrow> scheduler_state" where
  "sched_exec (OpAssign w n m) s = fst (assign_to_with_split s w n m)"
| "sched_exec (OpRequest w mr ms occ mode cap dmin dmax allow diag col) s =
     fst (assign_request_with_trace s w mr ms occ mode cap dmin dmax allow diag col)"
| "sched_exec (OpSubrange i a b w) s = fst (assign_subrange s i a b w)"
| "sched_exec (OpRecovery ps w) s = fst (assign_recovery_batch s ps w)"
| "sched_exec (OpExtend first w mc occ cap) s = fst (extend_batch_with_occupied s first w mc occ cap)"
| "sched_exec (OpRetain k c) s = fst (retain_prefix s k c)"
| "sched_exec (OpRenew k w) s = fst (renew s k w)"
| "sched_exec (OpComplete k) s = fst (complete s k)"
| "sched_exec (OpReclaim k) s = fst (reclaim s k)"
| "sched_exec (OpStop k) s = stop_and_reclaim s k"
| "sched_exec OpHints s = fst (control_hints s)"

text \<open>The bytes an operation acknowledges as durable.\<close>

fun sched_acks :: "sched_op \<Rightarrow> scheduler_state \<Rightarrow> nat set list" where
  "sched_acks (OpRetain k c) s =
     (case lease_range s k of
        Some r \<Rightarrow> if br_start r < c \<and> c < br_end r then [{br_start r..<c}] else []
      | None \<Rightarrow> [])"
| "sched_acks (OpComplete k) s = (case lease_range s k of Some r \<Rightarrow> [br_bytes r] | None \<Rightarrow> [])"
| "sched_acks _ s = []"

section \<open>Every operation is a ledger run\<close>

definition OP_COST :: nat where "OP_COST = MAX_REQUEST_LEASES + 1"

definition op_ok :: "scheduler_state \<Rightarrow> nat set list \<Rightarrow> scheduler_state \<Rightarrow> bool" where
  "op_ok s As s' \<longleftrightarrow>
     sched_inv s' \<and> ledger_run (sched_ledger s) As (sched_ledger s') \<and>
     next_lease_id s' \<le> next_lease_id s + OP_COST \<and> total_size (pmap s') = total_size (pmap s) \<and>
     next_lease_id s \<le> next_lease_id s' \<and>
     (\<forall>k. lease_range s k = None \<and> lk_lease_id k < next_lease_id s \<longrightarrow> lease_range s' k = None)"

lemma ledger_eq_leases: "sched_ledger s = sched_ledger s' \<Longrightarrow> lease_range s = lease_range s'"
  by (metis lg_leases_ledger)

lemma op_ok_refl: "sched_inv s \<Longrightarrow> op_ok s [] s"
  by (simp add: op_ok_def ledger_run.run_refl)

lemma op_ok_batch:
  assumes "batch_rel s s' segs" "next_lease_id s' \<le> next_lease_id s + OP_COST"
  shows "op_ok s [] s'"
proof -
  note B = batch_relD [OF assms(1)]
  have "lease_range s' k = None" if k: "lease_range s k = None" "lk_lease_id k < next_lease_id s" for k
  proof -
    have "k \<notin> seg_lease_key ` set segs" using k(2) B(11) by (fastforce simp: seg_lease_key_def)
    then show ?thesis using k(1) add_leases_other B(5) by metis
  qed
  then show ?thesis using B(1,2,4,10) assms(2) by (simp add: op_ok_def)
qed

lemma op_ok_view:
  assumes "sched_inv s" "pieces s' = pieces s" "pmap s' = pmap s" "available_pieces s' = available_pieces s"
    "active_lease_count s' = active_lease_count s" "available_range_count s' = available_range_count s"
    "next_candidate s' = next_candidate s" "next_lease_id s' = next_lease_id s"
  shows "op_ok s [] s'"
proof -
  have "sched_inv s'" "sched_ledger s' = sched_ledger s"
    using assms sched_inv_next [OF assms(1)] sched_inv_view [of s s'] sched_ledger_view [of s s'] by auto
  moreover have "lease_range s' = lease_range s" using arg_cong [OF calculation(2), of lg_leases] by simp
  ultimately show ?thesis using assms by (simp add: op_ok_def ledger_run.run_refl)
qed
lemma op_ok_assign:
  assumes "sched_inv s" "next_lease_id s + OP_COST \<le> u64_max"
  shows "op_ok s [] (fst (assign_to_with_split s w n m))"
proof -
  obtain s' res where a: "assign_to_with_split s w n m = (s', res)" by (cases "assign_to_with_split s w n m")
  have room: "next_lease_id s < u64_max" using assms(2) by (simp add: OP_COST_def)
  show ?thesis
  proof (cases res)
    case None
    then show ?thesis using a assign_None(2) [OF assms(1)] op_ok_refl [OF assms(1)] by (metis fst_conv)
  next
    case (Some seg)
    note A = assign_batch(1,2) [OF assms(1) room a [unfolded Some]]
    show ?thesis using op_ok_batch [OF A(1)] A(2) a by (simp add: OP_COST_def)
  qed
qed

lemma op_ok_request:
  assumes "sched_inv s" "next_lease_id s + OP_COST \<le> u64_max"
  shows "op_ok s [] (fst (assign_request_with_trace s w mr ms occ mode cap dmin dmax allow diag col))"
proof -
  let ?r = "assign_request_with_trace s w mr ms occ mode cap dmin dmax allow diag col"
  have room: "next_lease_id s + MAX_REQUEST_LEASES + 1 \<le> u64_max" using assms(2) by (simp add: OP_COST_def)
  have "?r = (fst ?r, snd ?r)" by simp
  from assign_request_cases [OF assms(1) room this] show ?thesis
  proof (elim disjE exE conjE)
    fix ra assume "request_ok s w (fst ?r) ra"
    then show ?thesis using op_ok_batch [of s "fst ?r" "ra_segments ra"]
      by (simp add: request_ok_def OP_COST_def)
  qed (use op_ok_refl [OF assms(1)] in simp_all)
qed

lemma op_ok_subrange:
  assumes "sched_inv s" "next_lease_id s + OP_COST \<le> u64_max"
  shows "op_ok s [] (fst (assign_subrange s i a b w))"
proof (cases "i < piece_count (pmap s) \<and> \<not> is_complete (pmap s) i \<and> a < b \<and>
    fst (piece_range (pmap s) i) \<le> a \<and> b \<le> snd (piece_range (pmap s) i)")
  case False
  then have "fst (assign_subrange s i a b w) = s"
    by (auto simp: assign_subrange_def byte_range_new_def split: prod.splits)
  then show ?thesis using op_ok_refl [OF assms(1)] by simp
next
  case True
  let ?r = "\<lparr>br_start = a, br_end = b\<rparr>"
  have iss: "assign_subrange s i a b w = issue_lease s i ?r w"
    using True by (auto simp: assign_subrange_def byte_range_new_def split: prod.splits)
  have i: "i < piece_count (pmap s)" "\<not> completed (pmap s) ! i" "br_ok ?r"
    using True by (simp_all add: is_complete_def br_ok_def)
  have room: "next_lease_id s < u64_max" using assms(2) by (simp add: OP_COST_def)
  obtain s' res where o: "issue_lease s i ?r w = (s', res)" by (cases "issue_lease s i ?r w")
  show ?thesis
  proof (cases res)
    case None
    note N = issue_lease_None [OF assms(1) i(1,2) o [unfolded None]]
    show ?thesis
      using N o ledger_eq_leases [OF N(2)] by (simp add: iss op_ok_def ledger_run.run_refl)
  next
    case (Some seg)
    note S = issue_lease_Some [OF assms(1) i room o [unfolded Some]]
    show ?thesis using S(1,3,11,13) ledger_run_tau1 [OF S(2)] o by (auto simp: iss op_ok_def OP_COST_def)
  qed
qed

lemma op_ok_recovery:
  assumes "sched_inv s" "next_lease_id s + OP_COST \<le> u64_max"
  shows "op_ok s [] (fst (assign_recovery_batch s ps w))"
proof -
  let ?r = "assign_recovery_batch s ps w"
  have room: "next_lease_id s + MAX_REQUEST_LEASES \<le> u64_max" using assms(2) by (simp add: OP_COST_def)
  have e: "?r = (fst ?r, snd ?r)" by simp
  have n: "next_lease_id (fst ?r) \<le> next_lease_id s + OP_COST"
    using assign_recovery_batch_cases(2) [OF assms(1) room e] by (simp add: OP_COST_def)
  obtain segs where "batch_rel s (fst ?r) segs"
    using assign_recovery_batch_cases(1) [OF assms(1) room e] by blast
  then show ?thesis using op_ok_batch n by blast
qed

lemma op_ok_extend:
  assumes "sched_inv s" "next_lease_id s + OP_COST \<le> u64_max"
  shows "op_ok s [] (fst (extend_batch_with_occupied s first w mc occ cap))"
proof -
  have room: "next_lease_id s + MAX_REQUEST_LEASES \<le> u64_max" using assms(2) by (simp add: OP_COST_def)
  obtain s' add reason where e: "extend_batch_with_occupied s first w mc occ cap = (s', add, reason)"
    by (cases "extend_batch_with_occupied s first w mc occ cap")
  show ?thesis using extend_batch_ok [OF assms(1) room e] op_ok_batch [of s s' add] e
    by (simp add: extend_ok_def OP_COST_def)
qed

lemma op_ok_settle:
  assumes inv: "sched_inv s" and room: "next_lease_id s + OP_COST \<le> u64_max"
  shows "op_ok s (sched_acks (OpRetain k c) s) (fst (retain_prefix s k c))"
    and "op_ok s [] (fst (renew s k w))"
    and "op_ok s (sched_acks (OpComplete k) s) (fst (complete s k))"
    and "op_ok s [] (fst (reclaim s k))"
proof -
  have lt: "next_lease_id s < u64_max" using room by (simp add: OP_COST_def)
  have "op_ok s (sched_acks (OpRetain k c) s) (fst (retain_prefix s k c)) \<and> op_ok s [] (fst (renew s k w)) \<and>
    op_ok s (sched_acks (OpComplete k) s) (fst (complete s k)) \<and> op_ok s [] (fst (reclaim s k))"
  proof (cases "lease_range s k")
    case None
    then show ?thesis using settle_unknown [OF None] op_ok_refl [OF inv] by simp
  next
    case (Some r)
    have e: "retain_prefix s k c = (fst (retain_prefix s k c), snd (retain_prefix s k c))"
      "renew s k w = (fst (renew s k w), snd (renew s k w))"
      "complete s k = (fst (complete s k), snd (complete s k))"
      "reclaim s k = (fst (reclaim s k), snd (reclaim s k))" by simp_all
    note R = retain_known [OF inv Some e(1)] and N = renew_known [OF inv Some lt e(2)]
      and C = complete_known [OF inv Some e(3)] and L = reclaim_known [OF inv Some e(4)]
    have "op_ok s (sched_acks (OpRetain k c) s) (fst (retain_prefix s k c))"
    proof (cases "snd (retain_prefix s k c)")
      case True
      then show ?thesis using R(1,3,6,7) R(5) [OF True] ledger_run_ack1 [OF R(4) [OF True]] Some
        by (auto simp: op_ok_def)
    next
      case False
      then show ?thesis using R(1) R(2) [OF False] op_ok_refl [OF inv] Some by auto
    qed
    moreover have "op_ok s [] (fst (renew s k w))"
      using N(2,4-6) ledger_run_tau1 [OF N(3)] by (auto simp: op_ok_def OP_COST_def)
    moreover have "op_ok s (sched_acks (OpComplete k) s) (fst (complete s k))"
      using C(2,4,5) ledger_run_ack1 [OF C(3)] C(8) Some by (simp add: op_ok_def same_elsewhere_def)
    moreover have "op_ok s [] (fst (reclaim s k))"
      using L(2,4,6,7) ledger_run_tau1 [OF L(3)] by (simp add: op_ok_def)
    ultimately show ?thesis by blast
  qed
  then show "op_ok s (sched_acks (OpRetain k c) s) (fst (retain_prefix s k c))"
    "op_ok s [] (fst (renew s k w))" "op_ok s (sched_acks (OpComplete k) s) (fst (complete s k))"
    "op_ok s [] (fst (reclaim s k))" by blast+
qed

lemma sched_exec_ok:
  assumes inv: "sched_inv s" and room: "next_lease_id s + OP_COST \<le> u64_max"
  shows "op_ok s (sched_acks op s) (sched_exec op s)"
proof (cases op)
  case (OpStop k)
  let ?s = "s\<lparr>stopped := True\<rparr>"
  have "sched_inv ?s" and l: "sched_ledger ?s = sched_ledger s"
    using inv sched_inv_next [OF inv] sched_inv_view [of s ?s] sched_ledger_view [of s ?s] by auto
  then show ?thesis using ledger_eq_leases [OF l]
    using op_ok_settle(4) [of "s\<lparr>stopped := True\<rparr>" k] room OpStop
    by (simp add: op_ok_def stop_and_reclaim_def)
next
  case OpHints
  then show ?thesis using op_ok_view [OF inv] by (simp add: control_hints_def Let_def)
qed (use assms op_ok_assign op_ok_request op_ok_subrange op_ok_recovery op_ok_extend op_ok_settle in simp_all)

interpretation sched: ledger_refinement sched_exec sched_acks sched_ledger sched_inv next_lease_id
  "\<lambda>s. total_size (pmap s)" OP_COST u64_max
  by unfold_locales (use sched_exec_ok sched_ledger_inv in \<open>auto simp: op_ok_def\<close>)

section \<open>Completion\<close>

lemma piece_acked_all:
  assumes inv: "sched_inv s" and i: "i < piece_count (pmap s)"
  shows "piece_bytes (pmap s) i \<subseteq> piece_acked s i \<longleftrightarrow> completed (pmap s) ! i"
proof (cases "bt_get (pieces s) i")
  case None
  have "piece_bytes (pmap s) i \<noteq> {}"
    using piece_range_bounds(1) [OF sched_inv_map [OF inv] i] by (simp add: piece_bytes_def)
  then show ?thesis using None by (auto simp: piece_acked_def piece_free_def piece_leased_def)
next
  case (Some p)
  note P = sched_inv_piece [OF inv i, unfolded piece_ok_def Some option.case]
  have "piece_free s i \<noteq> {} \<or> piece_leased s i \<noteq> {}"
  proof (cases "missing_ranges p = []")
    case False
    then show ?thesis using available_iff [OF inv i] P by simp
  next
    case True
    then obtain lid al rest where al: "active_leases p = (lid, al) # rest" using P
      by (cases "active_leases p") auto
    then have "lease_of p lid = Some (al_range al)" by (simp add: lease_of_def)
    moreover have "br_ok (al_range al)"
      using P calculation unfolding ps_inv_def leases_ok_def by blast
    ultimately obtain b where "b \<in> br_bytes (al_range al)" "lease_of p lid = Some (al_range al)"
      using br_bytes_empty by auto
    then have "leased_bytes p \<noteq> {}" by (auto simp: leased_bytes_union lease_union_def)
    then show ?thesis using Some by (simp add: piece_leased_def)
  qed
  moreover have "piece_free s i \<subseteq> piece_bytes (pmap s) i" "piece_leased s i \<subseteq> piece_bytes (pmap s) i"
    using piece_free_subset [OF inv i] piece_leased_subset [OF inv i] by auto
  ultimately show ?thesis using P by (auto simp: piece_acked_def)
qed

lemma piece_acked_bytes: "piece_acked s i \<subseteq> piece_bytes (pmap s) i"
  by (auto simp: piece_acked_def)

lemma acked_all_iff:
  assumes inv: "sched_inv s"
  shows "lg_acked (sched_ledger s) = {0..<total_size (pmap s)} \<longleftrightarrow> sched_all_done s"
proof -
  note pm = sched_inv_map [OF inv]
  have tile: "(\<Union>i < piece_count (pmap s). piece_bytes (pmap s) i) = {0..<total_size (pmap s)}"
    using piece_bytes_mem [OF pm] piece_of_byte [OF pm] by auto
  have sub: "piece_bytes (pmap s) i \<subseteq> piece_acked s i \<longleftrightarrow>
      piece_bytes (pmap s) i \<subseteq> lg_acked (sched_ledger s)" if i: "i < piece_count (pmap s)" for i
  proof
    assume all: "piece_bytes (pmap s) i \<subseteq> lg_acked (sched_ledger s)"
    show "piece_bytes (pmap s) i \<subseteq> piece_acked s i"
    proof
      fix b assume b: "b \<in> piece_bytes (pmap s) i"
      then obtain j where j: "j < piece_count (pmap s)" "b \<in> piece_acked s j"
        using all by (auto simp: sched_ledger_def)
      then have "b \<in> piece_bytes (pmap s) j" using piece_acked_bytes by blast
      then have "j = i" using piece_bytes_mem [OF pm] b i j(1) by auto
      then show "b \<in> piece_acked s i" using j(2) by simp
    qed
  qed (use i in \<open>auto simp: sched_ledger_def\<close>)
  have "lg_acked (sched_ledger s) \<subseteq> {0..<total_size (pmap s)}"
    unfolding tile [symmetric] using piece_acked_bytes by (fastforce simp: sched_ledger_def)
  then have "lg_acked (sched_ledger s) = {0..<total_size (pmap s)} \<longleftrightarrow>
      (\<forall>i < piece_count (pmap s). piece_bytes (pmap s) i \<subseteq> lg_acked (sched_ledger s))"
    unfolding tile [symmetric] by blast
  also have "\<dots> \<longleftrightarrow> sched_all_done s"
    using sub piece_acked_all [OF inv] pm_all_done_iff [OF pm] by (simp add: sched_all_done_def)
  finally show ?thesis .
qed


section \<open>Progress\<close>

text \<open>One worker that is handed a range and delivers it.\<close>

definition serve :: "nat \<Rightarrow> scheduler_state \<Rightarrow> scheduler_state" where
  "serve w s =
     (case assign_to s w of
        (s', None) \<Rightarrow> s'
      | (s', Some seg) \<Rightarrow> fst (complete s' (seg_lease_key seg)))"

lemma free_empty_count:
  assumes "sched_inv s"
  shows "lg_free (sched_ledger s) = {} \<longleftrightarrow> available_range_count s = 0"
  using available_range_count_zero [OF assms] available_iff [OF assms] by (simp add: sched_ledger_def) blast

lemma free_finite: "sched_inv s \<Longrightarrow> finite (lg_free (sched_ledger s))"
  using ledger_inv_sets(5) [OF sched_ledger_inv, of s] by (metis finite_Un finite_atLeastLessThan)

lemma serve_step:
  assumes inv: "sched_inv s" and ns: "\<not> stopped s" and free: "lg_free (sched_ledger s) \<noteq> {}"
    and room: "next_lease_id s < u64_max"
  shows "sched_inv (serve w s)" "\<not> stopped (serve w s)" "lease_range (serve w s) = lease_range s"
    "lg_free (sched_ledger (serve w s)) \<subset> lg_free (sched_ledger s)"
    "next_lease_id (serve w s) = Suc (next_lease_id s)"
    "total_size (pmap (serve w s)) = total_size (pmap s)"
proof -
  have "\<exists>s' seg. assign_to s w = (s', Some seg)"
  proof (cases "snd (assign_to s w)")
    case None
    then have "assign_to_with_split s w 1 u64_max = (fst (assign_to s w), None)"
      by (simp add: assign_to_def prod_eq_iff)
    from assign_None(1) [OF inv this] show ?thesis using ns free free_empty_count [OF inv] by simp
  qed (metis prod.collapse)
  then obtain s' seg where asg: "assign_to s w = (s', Some seg)" by blast
  note A = assign_batch [OF inv room asg [unfolded assign_to_def]] and B = batch_relD [OF A(1)]
  let ?k = "seg_lease_key seg"
  have none: "lease_range s ?k = None" and sub: "br_bytes (seg_range seg) \<subseteq> lg_free (sched_ledger s)"
    and free': "lg_free (sched_ledger s') = lg_free (sched_ledger s) - br_bytes (seg_range seg)"
    and lr: "lease_range s' = (lease_range s)(?k \<mapsto> seg_range seg)"
    using A(1) by (simp_all add: batch_rel_def segs_bytes_def add_leases_def)
  obtain s2 b where com: "complete s' ?k = (s2, b)" by (cases "complete s' ?k")
  have k: "lease_range s' ?k = Some (seg_range seg)" using lr by simp
  note C = complete_known [OF B(1) k com]
  have sv: "serve w s = s2" using asg com by (simp add: serve_def)
  show "sched_inv (serve w s)" "\<not> stopped (serve w s)" "next_lease_id (serve w s) = Suc (next_lease_id s)"
    using C(2,5,6) B(3) ns A(2) sv by simp_all
  show "lease_range (serve w s) = lease_range s" using C(4) lr none sv by (simp add: fun_upd_idem)
  have "lg_free (sched_ledger s2) = lg_free (sched_ledger s')" using C(3) by cases simp_all
  moreover have "br_bytes (seg_range seg) \<noteq> {}" using A(4) by (simp add: seg_range_def br_bytes_def)
  ultimately show "lg_free (sched_ledger (serve w s)) \<subset> lg_free (sched_ledger s)"
    using free' sub sv by auto
  show "total_size (pmap (serve w s)) = total_size (pmap s)"
    using C(8) B(2) sv by (simp add: same_elsewhere_def)
qed

lemma serve_drains:
  assumes "sched_inv s" "\<not> stopped s" "next_lease_id s + card (lg_free (sched_ledger s)) \<le> u64_max"
  shows "\<exists>n \<le> card (lg_free (sched_ledger s)). sched_inv ((serve w ^^ n) s) \<and>
    lg_free (sched_ledger ((serve w ^^ n) s)) = {} \<and> lease_range ((serve w ^^ n) s) = lease_range s \<and>
    total_size (pmap ((serve w ^^ n) s)) = total_size (pmap s)"
  using assms
proof (induction "card (lg_free (sched_ledger s))" arbitrary: s rule: less_induct)
  case less
  show ?case
  proof (cases "lg_free (sched_ledger s) = {}")
    case True
    then show ?thesis using less.prems by (intro exI [of _ 0]) simp
  next
    case False
    have fin: "finite (lg_free (sched_ledger s))" by (rule free_finite [OF less.prems(1)])
    have "0 < card (lg_free (sched_ledger s))" using False fin by (simp add: card_gt_0_iff)
    then have room: "next_lease_id s < u64_max" using less.prems(3) by linarith
    note S = serve_step [OF less.prems(1,2) False room, of w]
    have lt: "card (lg_free (sched_ledger (serve w s))) < card (lg_free (sched_ledger s))"
      by (rule psubset_card_mono [OF fin S(4)])
    have "next_lease_id (serve w s) + card (lg_free (sched_ledger (serve w s))) \<le> u64_max"
      using S(5) lt less.prems(3) by linarith
    then obtain n where n: "n \<le> card (lg_free (sched_ledger (serve w s)))"
      "sched_inv ((serve w ^^ n) (serve w s))" "lg_free (sched_ledger ((serve w ^^ n) (serve w s))) = {}"
      "lease_range ((serve w ^^ n) (serve w s)) = lease_range (serve w s)"
      "total_size (pmap ((serve w ^^ n) (serve w s))) = total_size (pmap (serve w s))"
      using less.hyps [OF lt S(1,2)] by blast
    show ?thesis
      by (intro exI [of _ "Suc n"]) (use n S lt in \<open>simp add: funpow_swap1\<close>)
  qed
qed


section \<open>Settled leases stay settled\<close>

lemma run_key_dead:
  assumes "sched_inv s" "next_lease_id s + length ops * OP_COST \<le> u64_max"
    "lease_range s k = None" "lk_lease_id k < next_lease_id s"
  shows "lease_range (fold sched_exec ops s) k = None"
  using assms
proof (induction ops arbitrary: s)
  case (Cons op ops)
  have room: "next_lease_id s + OP_COST \<le> u64_max" using Cons.prems(2) by simp
  note K = sched_exec_ok [OF Cons.prems(1) room, of op, unfolded op_ok_def]
  show ?case using Cons.IH [of "sched_exec op s"] K Cons.prems(2-4) by simp
qed simp

lemma run_ids_bound:
  assumes "sched_inv s" "next_lease_id s + length ops * OP_COST \<le> u64_max"
  shows "next_lease_id (fold sched_exec ops s) \<le> next_lease_id s + length ops * OP_COST"
  using assms
proof (induction ops arbitrary: s)
  case (Cons op ops)
  have room: "next_lease_id s + OP_COST \<le> u64_max" using Cons.prems(2) by simp
  note K = sched_exec_ok [OF Cons.prems(1) room, of op, unfolded op_ok_def]
  show ?case using Cons.IH [of "sched_exec op s"] K Cons.prems(2) by simp
qed simp

text \<open>Nothing is handed out without a slot, without a range or after a stop.\<close>

lemma stopped_assign: "stopped s \<Longrightarrow> snd (assign_to_with_split s w n m) = None"
  by (auto simp: assign_to_with_split_def issue_lease_def Let_def split: option.splits)

lemma stopped_request:
  assumes "stopped s"
  shows "snd (assign_request_with_trace s w mr ms occ mode cap dmin dmax allow diag col) = None"
proof -
  have a: "snd (assign_to_with_split s w n m) = None" for n m by (rule stopped_assign [OF assms])
  have "snd (assign_fixed_request s w mr ms occ cap k diag) = None" for k
    using a by (auto simp: assign_fixed_request_def Let_def split: prod.splits option.splits)
      (metis option.distinct(1) snd_conv)+
  moreover have "snd (assign_dynamic_request s w occ k dmin dmax col) = None" for k
    using a assms by (auto simp: assign_dynamic_request_def assign_to_def issue_dynamic_candidate_def
      Let_def split: prod.splits option.splits) (metis option.distinct(1) snd_conv)+
  ultimately show ?thesis
    using a by (auto simp: assign_request_with_trace_def assign_to_def Let_def
      split: prod.splits option.splits range_scheduling_mode.splits) (metis option.distinct(1) snd_conv)+
qed

lemma request_refused:
  assumes inv: "sched_inv s" and room: "next_lease_id s + MAX_REQUEST_LEASES + 1 \<le> u64_max"
    and "\<not> has_available s \<or> mr \<le> occ"
  shows "snd (assign_request_with_trace s w mr ms occ mode cap dmin dmax allow diag col) = None"
proof (cases "stopped s")
  case True
  then show ?thesis by (rule stopped_request)
next
  case False
  then have "mr - occ = 0 \<or> available_range_count s = 0" using assms(3) by (auto simp: has_available_def)
  then show ?thesis by (auto simp: assign_request_with_trace_def)
qed

section \<open>Counters\<close>

lemma live_keys:
  assumes "sched_inv s"
  shows "{k. lease_range s k \<noteq> None} = (\<Union>i < piece_count (pmap s). {k. lk_piece_id k = i \<and> lease_range s k \<noteq> None})"
  using sched_inv_bound [OF assms] by (auto simp: lease_range_def split: option.splits)

lemma live_keys_piece:
  assumes inv: "sched_inv s" and i: "i < piece_count (pmap s)"
  shows "finite {k. lk_piece_id k = i \<and> lease_range s k \<noteq> None} \<and>
    card {k. lk_piece_id k = i \<and> lease_range s k \<noteq> None} = lease_count s i"
proof (cases "bt_get (pieces s) i")
  case None
  then have "{k. lk_piece_id k = i \<and> lease_range s k \<noteq> None} = {}" by (auto simp: lease_range_def)
  then show ?thesis using None by (simp only: finite.emptyI card.empty) (simp add: lease_count_def)
next
  case (Some p)
  have d: "distinct (map fst (active_leases p))"
    using ps_inv_active [OF piece_okD(3) [OF inv Some]] by (simp add: bt_inv_def strict_sorted_iff)
  have "{k. lk_piece_id k = i \<and> lease_range s k \<noteq> None} = LeaseKey i ` set (map fst (active_leases p))"
  proof (intro set_eqI iffI)
    fix k assume "k \<in> {k. lk_piece_id k = i \<and> lease_range s k \<noteq> None}"
    then have "lk_piece_id k = i" "map_of (active_leases p) (lk_lease_id k) \<noteq> None"
      using Some by (auto simp: lease_range_def lease_of_def)
    then show "k \<in> LeaseKey i ` set (map fst (active_leases p))"
      by (cases k) (simp add: map_of_eq_None_iff)
  next
    fix k assume "k \<in> LeaseKey i ` set (map fst (active_leases p))"
    then obtain l where l: "k = LeaseKey i l" "l \<in> set (map fst (active_leases p))" by blast
    then have "map_of (active_leases p) l \<noteq> None" by (simp add: map_of_eq_None_iff)
    then show "k \<in> {k. lk_piece_id k = i \<and> lease_range s k \<noteq> None}"
      using Some l(1) by (simp add: lease_range_def lease_of_def)
  qed
  moreover have "inj_on (LeaseKey i) A" for A by (simp add: inj_on_def)
  ultimately show ?thesis
    using Some d distinct_card [OF d] by (simp add: card_image lease_count_def)
qed

lemma active_count_live:
  assumes inv: "sched_inv s"
  shows "active_lease_count s = card {k. lease_range s k \<noteq> None}"
proof -
  have "card {k. lease_range s k \<noteq> None} = (\<Sum>i < piece_count (pmap s). lease_count s i)"
    unfolding live_keys [OF inv] using live_keys_piece [OF inv]
    by (subst card_UN_disjoint) auto
  then show ?thesis using inv by (simp add: sched_inv_def)
qed

section \<open>Properties\<close>

definition sched_reach :: "piece_map \<Rightarrow> sched_op list \<Rightarrow> scheduler_state" where
  "sched_reach m ops = fold sched_exec ops (sched_new m)"

lemma sched_reach_ok:
  assumes "pm_inv m" "1 + length ops * OP_COST \<le> u64_max"
  shows "sched_inv (sched_reach m ops)" "total_size (pmap (sched_reach m ops)) = total_size m"
    "ledger_run (sched_ledger (sched_new m)) (trace_acks sched_exec sched_acks ops (sched_new m))
       (sched_ledger (sched_reach m ops))"
proof -
  have "next_lease_id (sched_new m) + length ops * OP_COST \<le> u64_max" "pmap (sched_new m) = m"
    using assms(2) by (simp_all add: sched_new_def)
  then show "sched_inv (sched_reach m ops)" "total_size (pmap (sched_reach m ops)) = total_size m"
    "ledger_run (sched_ledger (sched_new m)) (trace_acks sched_exec sched_acks ops (sched_new m))
       (sched_ledger (sched_reach m ops))"
    using sched.run_refines [OF sched_inv_new [OF assms(1)], of ops] by (simp_all add: sched_reach_def)
qed


lemmas sched_eval =
  assign_to_with_split_def next_available_piece_def issue_lease_def complete_def assignment_range_for_def
  full_range_def piece_range_def missing_bitset_def first_missing_def remaining_count_def
  ps_new_def ps_issue_lease_def ps_complete_def missing_range_count_def next_assignable_range_def
  rs_new_full_def rs_first_def byte_range_new_def first_zero_def
  mark_complete_def is_complete_def pm_all_done_def sched_all_done_def piece_len_def
  advance_next_candidate_def bt_remove_def add_u64_def mul_u64_def sub_u64_def sat_add_u64_def u64_max_def

lemma small_map: "pm_inv (the (pm_new 10 4))" "1 + 2 * OP_COST \<le> u64_max" "1 + 1 * OP_COST \<le> u64_max"
  by (intro pm_inv_new_the geometry_small)
    (simp_all add: OP_COST_def MAX_REQUEST_LEASES_def u64_max_def)

text \<open>C11. Exactly-once delivery: over any sequence of scheduler operations on a fresh or
  resumed download, the byte sets acknowledged as written are pairwise disjoint,
  disjoint from what the control file already recorded, and add up to exactly what
  the scheduler holds as acknowledged.\<close>

theorem sched_exactly_once:
  assumes "pm_inv m" "1 + length ops * OP_COST \<le> u64_max"
  shows "let As = trace_acks sched_exec sched_acks ops (sched_new m)
    in pairwise_disjoint As \<and> lg_acked (sched_ledger (sched_new m)) \<inter> \<Union> (set As) = {} \<and>
       lg_acked (sched_ledger (sched_reach m ops)) = lg_acked (sched_ledger (sched_new m)) \<union> \<Union> (set As)"
  using ledger_run_sound [OF sched_reach_ok(3) [OF assms] sched_ledger_inv [OF sched_inv_new [OF assms(1)]]]
  by (simp add: Let_def)

theorem sched_exactly_once_witness:
  "let m = the (pm_new 10 4); ops = [OpAssign 0 1 1, OpComplete (LeaseKey 0 1)];
       As = trace_acks sched_exec sched_acks ops (sched_new m)
   in pairwise_disjoint As \<and> lg_acked (sched_ledger (sched_new m)) \<inter> \<Union> (set As) = {} \<and>
      lg_acked (sched_ledger (sched_reach m ops)) = lg_acked (sched_ledger (sched_new m)) \<union> \<Union> (set As)"
  using sched_exactly_once [of "the (pm_new 10 4)" "[OpAssign 0 1 1, OpComplete (LeaseKey 0 1)]"] small_map
  by (simp add: Let_def)

text \<open>C12. In every reachable scheduler state the file is partitioned: every byte is
  free, covered by exactly one live lease, or acknowledged; leases of different
  keys never overlap.\<close>

theorem sched_leases_partition:
  assumes "pm_inv m" "1 + length ops * OP_COST \<le> u64_max"
  shows "ledger_inv (total_size m) (sched_ledger (sched_reach m ops))"
  using sched_ledger_inv [OF sched_reach_ok(1) [OF assms]] sched_reach_ok(2) [OF assms] by simp

theorem sched_leases_partition_witness:
  "ledger_inv 10 (sched_ledger (sched_reach (the (pm_new 10 4)) [OpAssign 0 1 1, OpAssign 1 1 1]))"
  using sched_leases_partition [of "the (pm_new 10 4)" "[OpAssign 0 1 1, OpAssign 1 1 1]"] small_map
  by (simp add: pm_new_def Let_def)

text \<open>The scheduler reports completion exactly when every byte of the file has
  been acknowledged, and then the completed byte count is the file size.\<close>

theorem sched_all_done_exact:
  assumes "pm_inv m" "1 + length ops * OP_COST \<le> u64_max"
  shows "(sched_all_done (sched_reach m ops) \<longleftrightarrow>
      lg_acked (sched_ledger (sched_reach m ops)) = {0..<total_size m}) \<and>
    (sched_all_done (sched_reach m ops) \<longrightarrow> sched_completed_bytes (sched_reach m ops) = total_size m)"
  using acked_all_iff [OF sched_reach_ok(1) [OF assms]] sched_reach_ok(2) [OF assms]
    pm_all_done_bytes [OF sched_inv_map [OF sched_reach_ok(1) [OF assms]]]
  by (auto simp: sched_completed_bytes_def sched_all_done_def)

theorem sched_all_done_exact_witness:
  "let m = the (pm_new 4 4); s = sched_reach m [OpAssign 0 1 1, OpComplete (LeaseKey 0 1)]
   in sched_all_done s \<and> lg_acked (sched_ledger s) = {0..<4} \<and> sched_completed_bytes s = 4"
proof -
  let ?m = "the (pm_new 4 4)" and ?ops = "[OpAssign 0 1 1, OpComplete (LeaseKey 0 1)]"
  have inv: "pm_inv ?m" by (intro pm_inv_new_the geometry_small) simp_all
  have "sched_all_done (sched_reach ?m ?ops)"
    by (simp add: sched_reach_def sched_new_def pm_new_def Let_def div_ceil_def sched_eval)
  moreover have "total_size ?m = 4" by (simp add: pm_new_def Let_def)
  ultimately show ?thesis
    using sched_all_done_exact [OF inv, of ?ops] small_map(2) by (simp add: Let_def)
qed



text \<open>C14. A lease key that has been completed, reclaimed or renewed never becomes
  live again, whatever operations follow: a late acknowledgement of a superseded
  attempt changes nothing.\<close>

theorem sched_stale_key_ignored:
  assumes "pm_inv m" "1 + (length ops + length later) * OP_COST \<le> u64_max"
    "lease_range (sched_reach m ops) k = None" "lk_lease_id k < next_lease_id (sched_reach m ops)"
  shows "let s = sched_reach m (ops @ later)
    in complete s k = (s, False) \<and> reclaim s k = (s, False) \<and> retain_prefix s k c = (s, False) \<and>
       renew s k w = (s, None)"
proof -
  let ?s = "sched_reach m ops"
  have room: "1 + length ops * OP_COST \<le> u64_max" using assms(2) by (simp add: add_mult_distrib)
  have "next_lease_id ?s \<le> 1 + length ops * OP_COST"
    using run_ids_bound [OF sched_inv_new [OF assms(1)], of ops] room
    by (simp add: sched_reach_def sched_new_def)
  then have "next_lease_id ?s + length later * OP_COST \<le> u64_max"
    using assms(2) by (simp add: add_mult_distrib)
  then have "lease_range (sched_reach m (ops @ later)) k = None"
    using run_key_dead [OF sched_reach_ok(1) [OF assms(1) room], of later k] assms(3,4)
    by (simp add: sched_reach_def)
  then show ?thesis by (simp add: settle_unknown Let_def)
qed


theorem sched_stale_key_ignored_witness:
  "let m = the (pm_new 4 4); s = sched_reach m ([OpAssign 0 1 1, OpRenew (LeaseKey 0 1) 7] @ [OpHints])
   in complete s (LeaseKey 0 1) = (s, False) \<and> reclaim s (LeaseKey 0 1) = (s, False) \<and>
      retain_prefix s (LeaseKey 0 1) 2 = (s, False) \<and> renew s (LeaseKey 0 1) 0 = (s, None)"
proof -
  let ?m = "the (pm_new 4 4)" and ?ops = "[OpAssign 0 1 1, OpRenew (LeaseKey 0 1) 7]"
  have inv: "pm_inv ?m" by (intro pm_inv_new_the geometry_small) simp_all
  have s: "lease_range (sched_reach ?m ?ops) (LeaseKey 0 1) = None"
    "next_lease_id (sched_reach ?m ?ops) = 3"
    by (simp_all add: sched_reach_def sched_new_def pm_new_def Let_def div_ceil_def sched_eval
      renew_def ps_renew_def lease_range_def lease_of_def)
  have room: "1 + (length ?ops + length [OpHints]) * OP_COST \<le> u64_max"
    by (simp add: OP_COST_def MAX_REQUEST_LEASES_def u64_max_def)
  show ?thesis
    using sched_stale_key_ignored [OF inv room s(1), of 2 0] s(2) by (simp add: Let_def)
qed

text \<open>A request for work is never refused while there is work: with a free request
  slot and a range available in a running scheduler, every mode and every
  configuration yields a batch of at most 64 contiguous leases owned by the asking
  worker, taken from free bytes; otherwise the state does not change.\<close>

theorem sched_request_granted:
  assumes "sched_inv s" "next_lease_id s + MAX_REQUEST_LEASES + 1 \<le> u64_max"
  shows "case assign_request_with_trace s w mr ms occ mode cap dmin dmax allow diag col of
      (s', None) \<Rightarrow> s' = s \<and> (\<not> has_available s \<or> mr \<le> occ)
    | (s', Some ra) \<Rightarrow> request_ok s w s' ra \<and> has_available s \<and> occ < mr"
proof -
  let ?r = "assign_request_with_trace s w mr ms occ mode cap dmin dmax allow diag col"
  have r: "?r = (fst ?r, snd ?r)" by simp
  have some: "has_available s \<and> occ < mr" if "snd ?r = Some ra" for ra
    using that request_refused [OF assms(1,2), of mr occ w ms mode cap dmin dmax allow diag col] by fastforce
  show ?thesis
  proof (cases "snd ?r")
    case None
    then show ?thesis using assign_request_cases [OF assms r] by (subst r) (auto simp: has_available_def)
  next
    case (Some ra)
    then show ?thesis using assign_request_cases [OF assms r] some [OF Some] by (subst r) auto
  qed
qed


theorem sched_request_granted_witness:
  "let s = sched_new (the (pm_new 10 4))
   in case assign_request_with_trace s 0 4 1 0 Dynamic 8 4 8 True True False of
        (s', None) \<Rightarrow> s' = s \<and> (\<not> has_available s \<or> 4 \<le> (0::nat))
      | (s', Some ra) \<Rightarrow> request_ok s 0 s' ra \<and> has_available s \<and> 0 < (4::nat)"
proof -
  have "next_lease_id (sched_new (the (pm_new 10 4))) + MAX_REQUEST_LEASES + 1 \<le> u64_max"
    using small_map(3) by (simp add: sched_new_def OP_COST_def)
  then show ?thesis
    unfolding Let_def by (rule sched_request_granted [OF sched_inv_new [OF small_map(1)]])
qed



text \<open>C16. Recovery is all or nothing: a batch of unfinished ranges is re-leased exactly
  when the ranges are a valid contiguous run of at most 64 leases whose bytes are
  all still free; a refused batch leaves free bytes, leases and acknowledgements as
  they were.\<close>

theorem recovery_all_or_nothing:
  assumes "sched_inv s" "next_lease_id s + MAX_REQUEST_LEASES \<le> u64_max"
  shows "(snd (assign_recovery_batch s ps w) \<noteq> None \<longleftrightarrow>
      \<not> stopped s \<and> recovery_batch_ok s ps \<and> (\<forall>(i, a, e) \<in> set ps. {a..<e} \<subseteq> piece_free s i)) \<and>
    (case assign_recovery_batch s ps w of
       (s', None) \<Rightarrow> sched_ledger s' = sched_ledger s
     | (s', Some segs) \<Rightarrow> batch_rel s s' segs \<and> list_all2 (seg_for w) (piece_ranges ps) segs)"
proof -
  obtain s' res where e: "assign_recovery_batch s ps w = (s', res)" by (cases "assign_recovery_batch s ps w")
  have "case res of None \<Rightarrow> sched_ledger s' = sched_ledger s
     | Some segs \<Rightarrow> batch_rel s s' segs \<and> list_all2 (seg_for w) (piece_ranges ps) segs"
    using assign_recovery_batch_cases(1) [OF assms e] batch_empty [OF _ assms(1)] by (auto split: option.split)
  then show ?thesis using assign_recovery_batch_iff [OF assms, of ps w] e
    by (intro conjI) (simp_all split: option.splits)
qed

theorem recovery_all_or_nothing_witness:
  "let s = sched_new (the (pm_new 10 4)); ps = [(0, 2, 4), (1, 4, 8)]
   in (snd (assign_recovery_batch s ps 1) \<noteq> None \<longleftrightarrow>
        \<not> stopped s \<and> recovery_batch_ok s ps \<and> (\<forall>(i, a, e) \<in> set ps. {a..<e} \<subseteq> piece_free s i)) \<and>
      (case assign_recovery_batch s ps 1 of
         (s', None) \<Rightarrow> sched_ledger s' = sched_ledger s
       | (s', Some segs) \<Rightarrow> batch_rel s s' segs \<and> list_all2 (seg_for 1) (piece_ranges ps) segs)"
proof -
  have "next_lease_id (sched_new (the (pm_new 10 4))) + MAX_REQUEST_LEASES \<le> u64_max"
    by (simp add: sched_new_def MAX_REQUEST_LEASES_def u64_max_def)
  then show ?thesis
    unfolding Let_def by (rule recovery_all_or_nothing [OF sched_inv_new [OF small_map(1)]])
qed

end
