(* ===== verification/Filename.thy ===== *)
theory Filename
  imports Prelude
begin

text \<open>
  File names, \<open>src/filename.rs\<close>: names taken from a \<open>Content-Disposition\<close> header or
  from a URL, percent and RFC 5987 decoding, and the sanitising of names and relative
  paths.  Text is a list of Unicode scalar values; UTF-8, white space, control
  characters and path components follow the standard library (Unix paths).  The
  \<open>url\<close> crate is a parameter: the path segments of a URL, if it parses.
\<close>

section \<open>Text\<close>

type_synonym chars = "nat list"

definition ascii :: "string \<Rightarrow> chars" where
  "ascii s = map of_char s"

definition utf8_char :: "nat \<Rightarrow> nat list" where
  "utf8_char c =
     (if c < 0x80 then [c]
      else if c < 0x800 then [0xC0 + c div 64, 0x80 + c mod 64]
      else if c < 0x10000 then [0xE0 + c div 4096, 0x80 + c div 64 mod 64, 0x80 + c mod 64]
      else [0xF0 + c div 262144, 0x80 + c div 4096 mod 64, 0x80 + c div 64 mod 64, 0x80 + c mod 64])"

definition as_bytes :: "chars \<Rightarrow> nat list" where
  "as_bytes s = concat (map utf8_char s)"

definition str_len :: "chars \<Rightarrow> nat" where
  "str_len s = length (as_bytes s)"

definition is_scalar :: "nat \<Rightarrow> bool" where
  "is_scalar c \<longleftrightarrow> c < 0xD800 \<or> 0xE000 \<le> c \<and> c < 0x110000"

text \<open>The first character of a byte sequence: the only scalar value whose encoding is a
  prefix of it.\<close>

definition utf8_width :: "nat \<Rightarrow> nat" where
  "utf8_width b = (if b < 0x80 then 1 else if b < 0xE0 then 2 else if b < 0xF0 then 3 else 4)"

definition utf8_lead :: "nat \<Rightarrow> nat" where
  "utf8_lead b = b - (if b < 0x80 then 0 else if b < 0xE0 then 0xC0 else if b < 0xF0 then 0xE0 else 0xF0)"

definition utf8_first :: "nat list \<Rightarrow> (nat \<times> nat) option" where
  "utf8_first bs =
     (let n = utf8_width (hd bs);
          c = foldl (\<lambda>acc b. acc * 64 + (b - 0x80)) (utf8_lead (hd bs)) (take (n - 1) (tl bs))
      in if is_scalar c \<and> utf8_char c = take n bs then Some (c, n) else None)"

lemma utf8_first_pos: "utf8_first bs = Some (c, n) \<Longrightarrow> 0 < n"
proof -
  have "0 < utf8_width b" for b by (simp add: utf8_width_def)
  then show "utf8_first bs = Some (c, n) \<Longrightarrow> 0 < n" by (auto simp: utf8_first_def Let_def split: if_splits)
qed

function from_utf8 :: "nat list \<Rightarrow> chars option" where
  "from_utf8 bs =
     (if bs = [] then Some []
      else case utf8_first bs of
             None \<Rightarrow> None
           | Some (c, n) \<Rightarrow> map_option (Cons c) (from_utf8 (drop n bs)))"
  by pat_completeness auto
termination
  by (relation "measure length") (auto dest: utf8_first_pos)

declare from_utf8.simps [simp del]

definition is_whitespace :: "nat \<Rightarrow> bool" where
  "is_whitespace c \<longleftrightarrow>
     9 \<le> c \<and> c \<le> 13 \<or> c = 32 \<or> c = 0x85 \<or> c = 0xA0 \<or> c = 0x1680 \<or> 0x2000 \<le> c \<and> c \<le> 0x200A \<or>
     c = 0x2028 \<or> c = 0x2029 \<or> c = 0x202F \<or> c = 0x205F \<or> c = 0x3000"

definition is_control :: "nat \<Rightarrow> bool" where
  "is_control c \<longleftrightarrow> c < 32 \<or> 127 \<le> c \<and> c < 160"

definition ascii_lower :: "nat \<Rightarrow> nat" where
  "ascii_lower c = (if 65 \<le> c \<and> c \<le> 90 then c + 32 else c)"

definition eq_ascii_case :: "chars \<Rightarrow> chars \<Rightarrow> bool" where
  "eq_ascii_case s t \<longleftrightarrow> map ascii_lower s = map ascii_lower t"

definition trim_end_by :: "(nat \<Rightarrow> bool) \<Rightarrow> chars \<Rightarrow> chars" where
  "trim_end_by P s = rev (dropWhile P (rev s))"

definition trim_by :: "(nat \<Rightarrow> bool) \<Rightarrow> chars \<Rightarrow> chars" where
  "trim_by P s = trim_end_by P (dropWhile P s)"

fun split_on :: "nat \<Rightarrow> chars \<Rightarrow> chars list" where
  "split_on sep [] = [[]]"
| "split_on sep (c # cs) =
     (if c = sep then [] # split_on sep cs
      else case split_on sep cs of [] \<Rightarrow> [[c]] | p # ps \<Rightarrow> (c # p) # ps)"

definition strip_text :: "chars \<Rightarrow> chars \<Rightarrow> chars option" where
  "strip_text prefix s = (if take (length prefix) s = prefix then Some (drop (length prefix) s) else None)"

fun find_char :: "nat \<Rightarrow> chars \<Rightarrow> nat option" where
  "find_char c [] = None"
| "find_char c (x # xs) = (if x = c then Some 0 else map_option Suc (find_char c xs))"

definition rsplit_once :: "nat \<Rightarrow> chars \<Rightarrow> (chars \<times> chars) option" where
  "rsplit_once c s =
     (case find_char c (rev s) of
        None \<Rightarrow> None
      | Some i \<Rightarrow> Some (take (length s - Suc i) s, drop (length s - i) s))"

section \<open>Decoding\<close>

definition hex_value :: "nat \<Rightarrow> nat option" where
  "hex_value c =
     (if 48 \<le> c \<and> c \<le> 57 then Some (c - 48)
      else if 65 \<le> c \<and> c \<le> 70 then Some (c - 55)
      else if 97 \<le> c \<and> c \<le> 102 then Some (c - 87)
      else None)"

text \<open>\<open>u8::from_str_radix\<close> on two bytes; a leading plus sign is part of its grammar.\<close>

definition hex_pair :: "nat \<Rightarrow> nat \<Rightarrow> nat option" where
  "hex_pair a b =
     (if a = 43 then hex_value b
      else case (hex_value a, hex_value b) of (Some x, Some y) \<Rightarrow> Some (16 * x + y) | _ \<Rightarrow> None)"

fun percent_decode_bytes :: "nat list \<Rightarrow> nat list option" where
  "percent_decode_bytes [] = Some []"
| "percent_decode_bytes (c # rest) =
     (if c = 37
      then (case rest of
              a # b # rest' \<Rightarrow>
                (case hex_pair a b of
                   None \<Rightarrow> None
                 | Some byte \<Rightarrow> map_option (Cons byte) (percent_decode_bytes rest'))
            | _ \<Rightarrow> None)
      else map_option (Cons c) (percent_decode_bytes rest))"

definition percent_decode :: "chars \<Rightarrow> chars option" where
  "percent_decode value = Option.bind (percent_decode_bytes (as_bytes value)) from_utf8"

definition split_rfc5987_parts :: "chars \<Rightarrow> (chars \<times> chars \<times> chars) option" where
  "split_rfc5987_parts value =
     Option.bind (find_char 39 value) (\<lambda>first.
     Option.bind (find_char 39 (drop (first + 1) value)) (\<lambda>d.
       let second = d + first + 1
       in Some (take first value, take (second - (first + 1)) (drop (first + 1) value), drop (second + 1) value)))"

definition decode_rfc5987_value :: "chars \<Rightarrow> chars option" where
  "decode_rfc5987_value value =
     Option.bind (split_rfc5987_parts value) (\<lambda>(charset, language, encoded).
     Option.bind (percent_decode_bytes (as_bytes encoded)) (\<lambda>bytes.
       if eq_ascii_case charset (ascii ''utf-8'') then from_utf8 bytes
       else if eq_ascii_case charset (ascii ''iso-8859-1'') \<or> eq_ascii_case charset (ascii ''latin1'')
       then Some bytes
       else None))"

section \<open>Sanitising\<close>

definition WINDOWS_RESERVED_NAMES :: "chars list" where
  "WINDOWS_RESERVED_NAMES =
     map ascii [''CON'', ''PRN'', ''AUX'', ''NUL'', ''COM1'', ''COM2'', ''COM3'', ''COM4'', ''COM5'', ''COM6'',
       ''COM7'', ''COM8'', ''COM9'', ''LPT1'', ''LPT2'', ''LPT3'', ''LPT4'', ''LPT5'', ''LPT6'', ''LPT7'',
       ''LPT8'', ''LPT9'']"

definition forbidden :: "nat \<Rightarrow> bool" where
  "forbidden c \<longleftrightarrow> c \<in> {0x2F, 0x5C, 0x3A, 0x2A, 0x3F, 0x22, 0x3C, 0x3E, 0x7C} \<or> is_control c"

definition sanitize_char :: "nat \<Rightarrow> nat" where
  "sanitize_char c = (if forbidden c then 0x5F else c)"

definition trim_to_boundary :: "chars \<Rightarrow> nat \<Rightarrow> chars" where
  "trim_to_boundary value max_len = take max_len value"

definition sanitize_filename_component :: "chars \<Rightarrow> chars" where
  "sanitize_filename_component value =
     (let filtered = map sanitize_char value;
          trimmed = trim_end_by (\<lambda>c. c = 32) (trim_end_by (\<lambda>c. c = 46) (trim_by is_whitespace filtered))
      in if trimmed = [] then []
         else
           let sanitized = (if list_ex (eq_ascii_case trimmed) WINDOWS_RESERVED_NAMES then trimmed @ [0x5F] else trimmed)
           in if str_len sanitized > 255
              then (case (case rsplit_once 46 sanitized of
                            Some (stem, extension) \<Rightarrow>
                              if stem \<noteq> [] \<and> extension \<noteq> [] then (stem, Some extension) else (sanitized, None)
                          | None \<Rightarrow> (sanitized, None)) of
                      (stem, Some extension) \<Rightarrow>
                        trim_to_boundary stem (255 - (str_len extension + 1)) @ [46] @ extension
                    | (_, None) \<Rightarrow> trim_to_boundary sanitized 255)
              else sanitized)"

section \<open>Paths\<close>

datatype component = Normal chars | CurDir | ParentDir | RootDir

definition part_component :: "bool \<Rightarrow> chars \<Rightarrow> component option" where
  "part_component leading p =
     (if p = [] then None
      else if p = [46] then (if leading then Some CurDir else None)
      else if p = [46, 46] then Some ParentDir
      else Some (Normal p))"

definition components :: "chars \<Rightarrow> component list" where
  "components path =
     (let parts = split_on 47 path
      in if path \<noteq> [] \<and> hd path = 47 then RootDir # List.map_filter (part_component False) parts
         else List.map_filter id (part_component True (hd parts) # map (part_component False) (tl parts)))"

definition push_path :: "chars \<Rightarrow> chars \<Rightarrow> chars" where
  "push_path buf part =
     (if part \<noteq> [] \<and> hd part = 47 then part
      else if buf = [] \<or> last buf = 47 then buf @ part
      else buf @ [47] @ part)"

fun sanitize_components :: "chars \<Rightarrow> component list \<Rightarrow> chars option" where
  "sanitize_components buf [] = Some buf"
| "sanitize_components buf (Normal value # rest) =
     (let part = sanitize_filename_component value
      in sanitize_components (if part = [] then buf else push_path buf part) rest)"
| "sanitize_components buf (CurDir # rest) = sanitize_components buf rest"
| "sanitize_components buf (ParentDir # rest) = None"
| "sanitize_components buf (RootDir # rest) = None"

definition sanitize_relative_path :: "chars \<Rightarrow> chars option" where
  "sanitize_relative_path path =
     (case sanitize_components [] (components path) of
        None \<Rightarrow> None
      | Some sanitized \<Rightarrow> if sanitized = [] then None else Some sanitized)"

section \<open>Choosing a name\<close>

fun first_extended :: "chars list \<Rightarrow> chars option" where
  "first_extended [] = None"
| "first_extended (part # rest) =
     (case Option.bind (strip_text (ascii ''filename*='') part)
             (\<lambda>value. decode_rfc5987_value (trim_by (\<lambda>c. c = 34) value)) of
        Some decoded \<Rightarrow>
          (let sanitized = sanitize_filename_component decoded
           in if sanitized \<noteq> [] then Some sanitized else first_extended rest)
      | None \<Rightarrow> first_extended rest)"

fun first_plain :: "chars list \<Rightarrow> chars option" where
  "first_plain [] = None"
| "first_plain (part # rest) =
     (case strip_text (ascii ''filename='') part of
        Some value \<Rightarrow>
          (let sanitized = sanitize_filename_component (trim_by (\<lambda>c. c = 34) value)
           in if sanitized \<noteq> [] then Some sanitized else first_plain rest)
      | None \<Rightarrow> first_plain rest)"

definition parse_content_disposition :: "chars \<Rightarrow> chars option" where
  "parse_content_disposition header_value =
     (let parts = map (trim_by is_whitespace) (split_on 59 header_value)
      in case first_extended parts of Some n \<Rightarrow> Some n | None \<Rightarrow> first_plain parts)"

definition filename_from_url :: "(chars \<Rightarrow> chars list option) \<Rightarrow> chars \<Rightarrow> chars option" where
  "filename_from_url path_segments url =
     Option.bind (path_segments url) (\<lambda>segments.
     Option.bind (find (\<lambda>s. s \<noteq> []) (rev segments)) (\<lambda>segment.
     Option.bind (percent_decode segment) (\<lambda>decoded.
       let sanitized = sanitize_filename_component decoded
       in if sanitized = [] then None else Some sanitized)))"

definition detect_filename :: "(chars \<Rightarrow> chars list option) \<Rightarrow> chars option \<Rightarrow> chars \<Rightarrow> chars" where
  "detect_filename path_segments content_disposition url =
     (case (case Option.bind content_disposition parse_content_disposition of
              Some n \<Rightarrow> Some n | None \<Rightarrow> filename_from_url path_segments url) of
        Some value \<Rightarrow> if value \<noteq> [] then value else ascii ''download''
      | None \<Rightarrow> ascii ''download'')"

section \<open>UTF-8\<close>

lemma utf8_value_2: "(c div 64) * 64 + c mod 64 = (c::nat)" by simp

lemma utf8_value_3: "(c div 4096 * 64 + c div 64 mod 64) * 64 + c mod 64 = (c::nat)"
proof -
  have "c div 4096 * 64 + c div 64 mod 64 = c div 64"
    using div_mult_mod_eq [of "c div 64" 64] by (simp add: div_mult2_eq [symmetric])
  then show ?thesis by simp
qed

lemma utf8_value_4: "((c div 262144 * 64 + c div 4096 mod 64) * 64 + c div 64 mod 64) * 64 + c mod 64 = (c::nat)"
proof -
  have "c div 262144 * 64 + c div 4096 mod 64 = c div 4096"
    using div_mult_mod_eq [of "c div 4096" 64] by (simp add: div_mult2_eq [symmetric])
  then show ?thesis using utf8_value_3 by simp
qed

lemma utf8_firstI:
  assumes "utf8_char c = x # ys" "is_scalar c" "utf8_width x = Suc (length ys)"
    "foldl (\<lambda>acc b. acc * 64 + (b - 0x80)) (utf8_lead x) ys = c"
  shows "utf8_first (utf8_char c @ rest) = Some (c, length (utf8_char c))"
  using assms by (simp add: utf8_first_def Let_def)

lemma utf8_first_char:
  assumes "is_scalar c"
  shows "utf8_first (utf8_char c @ rest) = Some (c, length (utf8_char c))"
proof -
  consider (1) "c < 0x80" | (2) "0x80 \<le> c" "c < 0x800" | (3) "0x800 \<le> c" "c < 0x10000" | (4) "0x10000 \<le> c" "c < 0x110000"
    using assms unfolding is_scalar_def by linarith
  then show ?thesis
  proof cases
    case 1
    then show ?thesis using assms by (intro utf8_firstI [of c c "[]"]) (simp_all add: utf8_char_def utf8_width_def utf8_lead_def)
  next
    case 2
    have w: "utf8_width (192 + c div 64) = 2 \<and> utf8_lead (192 + c div 64) = c div 64"
      using 2 by (simp add: utf8_width_def utf8_lead_def)
    show ?thesis
      by (rule utf8_firstI [of c "192 + c div 64" "[128 + c mod 64]"])
        (use 2 assms w utf8_value_2 [of c] in \<open>simp_all add: utf8_char_def\<close>)
  next
    case 3
    have w: "utf8_width (224 + c div 4096) = 3 \<and> utf8_lead (224 + c div 4096) = c div 4096"
      using 3 by (simp add: utf8_width_def utf8_lead_def)
    show ?thesis
      by (rule utf8_firstI [of c "224 + c div 4096" "[128 + c div 64 mod 64, 128 + c mod 64]"])
        (use 3 assms w utf8_value_3 [of c] in \<open>simp_all add: utf8_char_def\<close>)
  next
    case 4
    have w: "utf8_width (240 + c div 262144) = 4 \<and> utf8_lead (240 + c div 262144) = c div 262144"
      by (simp add: utf8_width_def utf8_lead_def)
    show ?thesis
      by (rule utf8_firstI [of c "240 + c div 262144" "[128 + c div 4096 mod 64, 128 + c div 64 mod 64, 128 + c mod 64]"])
        (use 4 assms w utf8_value_4 [of c] in \<open>simp_all add: utf8_char_def\<close>)
  qed
qed

lemma utf8_roundtrip: "list_all is_scalar s \<Longrightarrow> from_utf8 (as_bytes s) = Some s"
proof (induction s)
  case Nil
  show ?case by (simp add: as_bytes_def from_utf8.simps)
next
  case (Cons c s)
  have ne: "utf8_char c \<noteq> []" by (simp add: utf8_char_def)
  show ?case using Cons utf8_first_char [of c "as_bytes s"] ne
    by (subst from_utf8.simps) (simp add: as_bytes_def)
qed

section \<open>Names\<close>

lemma set_trim_end: "set (trim_end_by P s) \<subseteq> set s"
  using set_dropWhileD [of _ P "rev s"] by (auto simp: trim_end_by_def)

lemma set_trim: "set (trim_by P s) \<subseteq> set s"
  using set_trim_end [of P "dropWhile P s"] set_dropWhileD [of _ P s] by (auto simp: trim_by_def)

lemma set_rsplit: "rsplit_once c s = Some (a, b) \<Longrightarrow> set a \<subseteq> set s \<and> set b \<subseteq> set s"
  by (auto simp: rsplit_once_def dest: in_set_takeD in_set_dropD split: option.splits)

lemma not_forbidden: "\<not> forbidden (sanitize_char c)" "\<not> forbidden 0x5F" "\<not> forbidden 46"
  by (simp_all add: sanitize_char_def forbidden_def is_control_def)

lemma sanitize_chars: "set (sanitize_filename_component v) \<subseteq> sanitize_char ` set v \<union> {0x5F, 46}"
proof -
  define t where "t = trim_end_by (\<lambda>c. c = 32) (trim_end_by (\<lambda>c. c = 46) (trim_by is_whitespace (map sanitize_char v)))"
  define u where "u = (if list_ex (eq_ascii_case t) WINDOWS_RESERVED_NAMES then t @ [0x5F] else t)"
  have "set t \<subseteq> sanitize_char ` set v"
    unfolding t_def using set_trim_end set_trim by (metis (no_types, lifting) list.set_map subset_trans)
  then have u: "set u \<subseteq> sanitize_char ` set v \<union> {0x5F, 46}" by (auto simp: u_def)
  have "set (sanitize_filename_component v) \<subseteq> set u \<union> {46}"
    unfolding sanitize_filename_component_def Let_def t_def [symmetric] u_def [symmetric]
    by (auto simp: trim_to_boundary_def dest: in_set_takeD set_rsplit split: option.splits prod.splits if_splits)
  then show ?thesis using u by blast
qed

lemma sanitize_allowed: "c \<in> set (sanitize_filename_component v) \<Longrightarrow> \<not> forbidden c"
  using sanitize_chars [of v] not_forbidden by blast

lemma forbidden_slash: "forbidden 47"
  by (simp add: forbidden_def)

lemma sanitize_no_slash: "47 \<notin> set (sanitize_filename_component v)"
  using sanitize_allowed forbidden_slash by blast

section \<open>Splitting and joining\<close>

fun join_path :: "chars list \<Rightarrow> chars" where
  "join_path [] = []"
| "join_path [p] = p"
| "join_path (p # ps) = p @ 47 # join_path ps"

lemma split_on_free: "c \<notin> set s \<Longrightarrow> split_on c s = [s]"
  by (induction s) auto

lemma split_on_append: "c \<notin> set s \<Longrightarrow> split_on c (s @ c # t) = s # split_on c t"
  by (induction s) auto

lemma split_join: "ps \<noteq> [] \<Longrightarrow> list_all (\<lambda>p. 47 \<notin> set p) ps \<Longrightarrow> split_on 47 (join_path ps) = ps"
  by (induction ps rule: join_path.induct) (auto simp: split_on_free split_on_append)

lemma join_snoc: "ps \<noteq> [] \<Longrightarrow> join_path (ps @ [p]) = join_path ps @ 47 # p"
  by (induction ps rule: join_path.induct) auto

definition good_part :: "chars \<Rightarrow> bool" where
  "good_part p \<longleftrightarrow> p \<noteq> [] \<and> 47 \<notin> set p"

lemma join_last: "ps \<noteq> [] \<Longrightarrow> list_all good_part ps \<Longrightarrow> join_path ps \<noteq> [] \<and> last (join_path ps) \<noteq> 47"
proof (induction ps rule: join_path.induct)
  case (3 p q ps)
  then show ?case by (simp add: good_part_def)
qed (auto simp: good_part_def dest: last_in_set)

lemma push_join: "list_all good_part ps \<Longrightarrow> good_part p \<Longrightarrow> push_path (join_path ps) p = join_path (ps @ [p])"
  by (cases "ps = []"; cases p) (use join_last [of ps] in \<open>auto simp: push_path_def join_snoc good_part_def\<close>)

definition part_names :: "component list \<Rightarrow> chars list" where
  "part_names cs = filter (\<lambda>p. p \<noteq> [])
     (List.map_filter (\<lambda>c. case c of Normal v \<Rightarrow> Some (sanitize_filename_component v) | _ \<Rightarrow> None) cs)"

lemma part_names_good: "list_all good_part (part_names cs)"
  by (auto simp: part_names_def list_all_iff good_part_def map_filter_def sanitize_no_slash split: component.splits)

lemma sanitize_components_join:
  assumes "sanitize_components (join_path ps) cs = Some out" "list_all good_part ps"
  shows "out = join_path (ps @ part_names cs)" "ParentDir \<notin> set cs \<and> RootDir \<notin> set cs"
proof -
  have "out = join_path (ps @ part_names cs) \<and> ParentDir \<notin> set cs \<and> RootDir \<notin> set cs"
    using assms
  proof (induction cs arbitrary: ps)
    case Nil
    then show ?case by (simp add: part_names_def map_filter_def)
  next
    case (Cons c cs)
    show ?case
    proof (cases c)
      case (Normal v)
      let ?p = "sanitize_filename_component v"
      show ?thesis
      proof (cases "?p = []")
        case True
        then have "sanitize_components (join_path ps) cs = Some out" using Cons.prems(1) Normal by simp
        from Cons.IH [OF this Cons.prems(2)] show ?thesis
          using Normal True by (simp add: part_names_def map_filter_simps)
      next
        case False
        then have g: "good_part ?p" by (simp add: good_part_def sanitize_no_slash)
        have "sanitize_components (join_path (ps @ [?p])) cs = Some out"
          using Cons.prems Normal False push_join [OF Cons.prems(2) g] by (simp add: Let_def)
        from Cons.IH [OF this] show ?thesis
          using Normal False g Cons.prems(2) by (simp add: part_names_def map_filter_simps)
      qed
    qed (use Cons in \<open>auto simp: part_names_def map_filter_simps\<close>)
  qed
  then show "out = join_path (ps @ part_names cs)" "ParentDir \<notin> set cs \<and> RootDir \<notin> set cs" by blast+
qed

lemma map_filter_id: "c \<in> set (List.map_filter id xs) \<longleftrightarrow> Some c \<in> set xs"
  by (induction xs) (simp_all add: eq_commute split: option.split)

lemma components_join:
  assumes "ps \<noteq> []" "list_all good_part ps"
  shows "components (join_path ps) =
    List.map_filter id (part_component True (hd ps) # map (part_component False) (tl ps))"
proof -
  have sp: "split_on 47 (join_path ps) = ps"
    using assms by (intro split_join) (auto simp: list_all_iff good_part_def)
  obtain p qs where ps: "ps = p # qs" using assms(1) by (cases ps) auto
  have "hd (join_path ps) \<in> set p"
    using assms(2) by (cases qs) (auto simp: ps good_part_def)
  then have "hd (join_path ps) \<noteq> 47" using assms(2) by (auto simp: ps good_part_def)
  then show ?thesis unfolding components_def sp by simp
qed

lemma components_single:
  "p \<noteq> [] \<Longrightarrow> 47 \<notin> set p \<Longrightarrow>
    components p = (if p = [46] then [CurDir] else if p = [46, 46] then [ParentDir] else [Normal p])"
  using components_join [of "[p]"] by (simp add: good_part_def part_component_def map_filter_simps)

lemma in_components:
  assumes "ps \<noteq> []" "list_all good_part ps"
  shows "c \<in> set (components (join_path ps)) \<longleftrightarrow>
    part_component True (hd ps) = Some c \<or> (\<exists>q \<in> set (tl ps). part_component False q = Some c)"
  unfolding components_join [OF assms] map_filter_id by (simp add: image_iff eq_commute [of "Some c"])

lemma component_cases:
  assumes "ps \<noteq> []" "list_all good_part ps" "c \<in> set (components (join_path ps))"
  shows "c = CurDir \<or> c = ParentDir \<and> [46, 46] \<in> set ps \<or> (\<exists>p. c = Normal p \<and> p \<in> set ps)"
proof -
  have "set ps = insert (hd ps) (set (tl ps))" using assms(1) by (cases ps) simp_all
  then obtain b q where "q \<in> set ps" "part_component b q = Some c" using in_components [OF assms(1,2)] assms(3) by blast
  then show ?thesis by (auto simp: part_component_def split: if_splits)
qed

lemma parent_component:
  assumes "ps \<noteq> []" "list_all good_part ps" "[46, 46] \<in> set ps"
  shows "ParentDir \<in> set (components (join_path ps))"
proof -
  have "part_component b [46, 46] = Some ParentDir" for b by (simp add: part_component_def)
  moreover have "[46, 46] = hd ps \<or> [46, 46] \<in> set (tl ps)" using assms(1,3) by (cases ps) auto
  ultimately show ?thesis using in_components [OF assms(1,2)] by metis
qed

lemma sanitize_relative_parts:
  assumes "sanitize_relative_path p = Some q"
  shows "part_names (components p) \<noteq> []" "q = join_path (part_names (components p))"
    "ParentDir \<notin> set (components p) \<and> RootDir \<notin> set (components p)"
proof -
  have s: "sanitize_components (join_path []) (components p) = Some q" "q \<noteq> []"
    using assms by (auto simp: sanitize_relative_path_def split: option.splits if_splits)
  note J = sanitize_components_join [OF s(1)]
  show "q = join_path (part_names (components p))" "ParentDir \<notin> set (components p) \<and> RootDir \<notin> set (components p)"
    using J by simp_all
  then show "part_names (components p) \<noteq> []" using s(2) by auto
qed

lemma parsed_name_sanitized:
  "parse_content_disposition h = Some n \<Longrightarrow> n \<noteq> [] \<and> (\<exists>v. n = sanitize_filename_component v)"
proof -
  have e: "first_extended ps = Some n \<Longrightarrow> n \<noteq> [] \<and> (\<exists>v. n = sanitize_filename_component v)" for ps
    by (induction ps) (auto simp: Let_def split: option.splits if_splits)
  have "first_plain ps = Some n \<Longrightarrow> n \<noteq> [] \<and> (\<exists>v. n = sanitize_filename_component v)" for ps
    by (induction ps) (auto simp: Let_def split: option.splits if_splits)
  with e show "parse_content_disposition h = Some n \<Longrightarrow> n \<noteq> [] \<and> (\<exists>v. n = sanitize_filename_component v)"
    by (auto simp: parse_content_disposition_def Let_def split: option.splits)
qed

lemma url_name_sanitized:
  "filename_from_url segs u = Some n \<Longrightarrow> n \<noteq> [] \<and> (\<exists>v. n = sanitize_filename_component v)"
  by (auto simp: filename_from_url_def Let_def bind_eq_Some_conv split: if_splits)

lemma detected_name:
  "detect_filename segs cd u \<noteq> [] \<and>
    (detect_filename segs cd u = ascii ''download'' \<or> (\<exists>v. detect_filename segs cd u = sanitize_filename_component v))"
  using parsed_name_sanitized url_name_sanitized
  by (auto simp: detect_filename_def ascii_def bind_eq_Some_conv split: option.splits)

lemmas filename_eval = sanitize_relative_path_def components_def ascii_def part_component_def map_filter_simps
  sanitize_filename_component_def trim_by_def trim_end_by_def is_whitespace_def sanitize_char_def forbidden_def
  is_control_def WINDOWS_RESERVED_NAMES_def eq_ascii_case_def ascii_lower_def str_len_def as_bytes_def utf8_char_def
  push_path_def Let_def

section \<open>Properties\<close>


text \<open>C37. A relative output path is confined: one with a root or a parent component is
  refused; the sanitised path has no root component and only names free of separators,
  reserved and control characters; and it has a parent component exactly when a
  component of the given path sanitises to the two-dot name.\<close>

theorem relative_path_confined:
  assumes "sanitize_relative_path p = Some q"
  shows "ParentDir \<notin> set (components p) \<and> RootDir \<notin> set (components p) \<and> RootDir \<notin> set (components q) \<and>
    (\<forall>n. Normal n \<in> set (components q) \<longrightarrow> list_all (\<lambda>c. \<not> forbidden c) n) \<and>
    (ParentDir \<in> set (components q) \<longleftrightarrow>
      (\<exists>v. Normal v \<in> set (components p) \<and> sanitize_filename_component v = [46, 46]))"
proof -
  let ?ps = "part_names (components p)"
  note R = sanitize_relative_parts [OF assms]
  note C = component_cases [OF R(1) part_names_good, folded R(2)]
  have parts: "n \<in> set ?ps \<longleftrightarrow> n \<noteq> [] \<and> (\<exists>v. Normal v \<in> set (components p) \<and> n = sanitize_filename_component v)" for n
    by (force simp: part_names_def map_filter_def split: component.splits)
  have "RootDir \<notin> set (components q)" using C by blast
  moreover have "list_all (\<lambda>c. \<not> forbidden c) n" if "Normal n \<in> set (components q)" for n
    using C [OF that] parts [of n] sanitize_allowed by (auto simp: list_all_iff)
  moreover have "ParentDir \<in> set (components q) \<longleftrightarrow> [46, 46] \<in> set ?ps"
    using C parent_component [OF R(1) part_names_good, folded R(2)] by blast
  ultimately show ?thesis using R(3) parts [of "[46, 46]"] by auto
qed

theorem relative_path_confined_witness:
  "RootDir \<notin> set (components (ascii ''d/a_b'')) \<and> ParentDir \<notin> set (components (ascii ''d/./a:b''))"
proof -
  have "sanitize_relative_path (ascii ''d/./a:b'') = Some (ascii ''d/a_b'')" by (simp add: filename_eval)
  from relative_path_confined [OF this] show ?thesis by blast
qed

text \<open>The two-dot case does occur: trimming dots before blanks leaves a two-dot name, so
  a sanitised relative path can leave the output directory.\<close>

lemma relative_path_escapes:
  "sanitize_relative_path (ascii ''a/.. ./.. ./x'') = Some (ascii ''a/../../x'')"
  by (simp add: filename_eval)

lemma plus_sign_decoded: "percent_decode (ascii ''%+5'') = Some [5]"
  by (simp add: filename_eval percent_decode_def hex_pair_def hex_value_def from_utf8.simps utf8_first_def utf8_width_def
      utf8_lead_def is_scalar_def)

text \<open>The length limit counts bytes but cuts characters.\<close>

lemma long_name_kept: "str_len (sanitize_filename_component (replicate 200 0x4E2D)) = 600"
proof -
  let ?s = "replicate 200 0x4E2D"
  have c: "sanitize_char 0x4E2D = 0x4E2D" "\<not> is_whitespace 0x4E2D"
    by (simp_all add: sanitize_char_def forbidden_def is_control_def is_whitespace_def)
  have "find_char 46 (replicate n 0x4E2D) = None" for n by (induction n) simp_all
  then have r: "rsplit_once 46 ?s = None" by (simp add: rsplit_once_def)
  have "length (ascii t) = length t" for t by (simp add: ascii_def)
  then have "\<not> eq_ascii_case ?s (ascii t)" if "length t < 200" for t
    using that by (auto simp: eq_ascii_case_def dest: arg_cong [of _ _ length])
  then have w: "\<not> list_ex (eq_ascii_case ?s) WINDOWS_RESERVED_NAMES"
    by (simp add: WINDOWS_RESERVED_NAMES_def)
  have len: "str_len ?s = 600"
    by (simp add: str_len_def as_bytes_def map_replicate length_concat sum_list_replicate utf8_char_def)
  have "sanitize_filename_component ?s = ?s"
    using w r len by (simp add: sanitize_filename_component_def Let_def trim_by_def trim_end_by_def map_replicate
      dropWhile_replicate c trim_to_boundary_def take_replicate)
  then show ?thesis using len by simp
qed

definition hex_digit :: "nat \<Rightarrow> nat" where
  "hex_digit n = (if n < 10 then n + 48 else n + 55)"

definition percent_encode :: "chars \<Rightarrow> chars" where
  "percent_encode s = concat (map (\<lambda>b. [37, hex_digit (b div 16), hex_digit (b mod 16)]) (as_bytes s))"

lemma hex_pair_digits: "b < 256 \<Longrightarrow> hex_pair (hex_digit (b div 16)) (hex_digit (b mod 16)) = Some b"
proof -
  assume "b < 256"
  then have "b div 16 < 16" by simp
  moreover have "hex_value (hex_digit n) = Some n \<and> hex_digit n \<noteq> 43" if "n < 16" for n
    using that by (auto simp: hex_digit_def hex_value_def)
  ultimately show ?thesis by (simp add: hex_pair_def)
qed

lemma as_bytes_small: "list_all is_scalar s \<Longrightarrow> list_all (\<lambda>b. b < 256) (as_bytes s)"
  by (induction s) (auto simp: as_bytes_def utf8_char_def is_scalar_def)

lemma decode_encoded_bytes:
  "list_all (\<lambda>b. b < 256) bs \<Longrightarrow>
    percent_decode_bytes (concat (map (\<lambda>b. [37, hex_digit (b div 16), hex_digit (b mod 16)]) bs)) = Some bs"
  by (induction bs) (auto simp: hex_pair_digits)

lemma as_bytes_ascii: "list_all (\<lambda>c. c < 0x80) s \<Longrightarrow> as_bytes s = s"
  by (induction s) (auto simp: as_bytes_def utf8_char_def)

text \<open>Percent decoding inverts percent encoding of any text.\<close>

theorem percent_decode_roundtrip:
  assumes "list_all is_scalar s"
  shows "percent_decode (percent_encode s) = Some s"
proof -
  have "list_all (\<lambda>b. b < 256) (as_bytes s)" by (rule as_bytes_small [OF assms])
  then have "list_all (\<lambda>c. c < 0x80) (percent_encode s)"
    by (auto simp: percent_encode_def list_all_iff hex_digit_def)
  then have "percent_decode (percent_encode s) = from_utf8 (as_bytes s)"
    using decode_encoded_bytes [OF \<open>list_all (\<lambda>b. b < 256) (as_bytes s)\<close>]
    by (simp add: percent_decode_def as_bytes_ascii percent_encode_def [of s])
  then show ?thesis using utf8_roundtrip [OF assms] by simp
qed

theorem percent_decode_roundtrip_witness:
  "percent_decode (percent_encode [0x41, 0xE9, 0x20AC, 0x1F600]) = Some [0x41, 0xE9, 0x20AC, 0x1F600]"
  by (rule percent_decode_roundtrip) (simp add: is_scalar_def)

end
