(* ===== verification/Checksum.thy ===== *)
theory Checksum
  imports Config
begin

text \<open>
  Verification of a finished file, \<open>src/checksum.rs\<close>.  The digest crates are a
  parameter: for each algorithm the digest of a byte sequence (feeding a hasher chunk by
  chunk and finalising it gives the digest of the concatenation).  The sizes of the
  reads, their failures, and the stop requests polled between them are inputs.
\<close>

datatype algorithm = SHA256 | SHA1 | MD5 | SHA512

fun checksum_algorithm :: "checksum \<Rightarrow> algorithm" where
  "checksum_algorithm (Sha256 _) = SHA256"
| "checksum_algorithm (Sha1 _) = SHA1"
| "checksum_algorithm (Md5 _) = MD5"
| "checksum_algorithm (Sha512 _) = SHA512"

definition hex_char :: "nat \<Rightarrow> char" where
  "hex_char n = char_of (if n < 10 then n + 48 else n + 87)"

definition hex_encode :: "nat list \<Rightarrow> string" where
  "hex_encode bytes = concat (map (\<lambda>b. [hex_char (b div 16), hex_char (b mod 16)]) bytes)"

definition HASH_BUFFER :: nat where
  "HASH_BUFFER = 64 * 1024"

text \<open>One read: an error, or some of the bytes left - at least one unless the end is
  reached, at most the buffer.\<close>

definition read_len :: "nat \<Rightarrow> nat list \<Rightarrow> nat" where
  "read_len k data = min (length data) (max 1 (min k HASH_BUFFER))"

lemma read_len_0 [simp]: "read_len k data = 0 \<longleftrightarrow> data = []"
proof -
  have "0 < max 1 (min k HASH_BUFFER)" by simp
  then show ?thesis by (cases data) (simp_all add: read_len_def del: One_nat_def)
qed

function hash_loop ::
  "(nat \<Rightarrow> download_error option) \<Rightarrow> (nat \<Rightarrow> download_error + nat) \<Rightarrow> nat \<Rightarrow> nat list \<Rightarrow> nat list \<Rightarrow>
    nat list dl_result" where
  "hash_loop stop rd i hashed data =
     (case stop i of
        Some e \<Rightarrow> Inl e
      | None \<Rightarrow>
          (case rd i of
             Inl e \<Rightarrow> Inl e
           | Inr k \<Rightarrow>
               let n = read_len k data
               in if n = 0 then Inr hashed
                  else hash_loop stop rd (Suc i) (hashed @ take n data) (drop n data)))"
  by pat_completeness auto
termination
  by (relation "measure (\<lambda>(stop, rd, i, hashed, data). length data)") (auto simp: read_len_0 [unfolded neq0_conv [symmetric]] simp flip: neq0_conv)

declare hash_loop.simps [simp del]

definition hash_and_compare ::
  "(nat list \<Rightarrow> nat list) \<Rightarrow> (nat \<Rightarrow> download_error option) \<Rightarrow> (nat \<Rightarrow> download_error + nat) \<Rightarrow>
    nat list \<Rightarrow> string \<Rightarrow> unit dl_result" where
  "hash_and_compare digest stop rd data expected_hex =
     (case hash_loop stop rd 0 [] data of
        Inl e \<Rightarrow> Inl e
      | Inr hashed \<Rightarrow>
          let actual_hex = hex_encode (digest hashed)
          in if actual_hex \<noteq> map to_ascii_lower expected_hex
             then Inl (ChecksumMismatch expected_hex actual_hex)
             else Inr ())"

definition verify_checksum ::
  "(algorithm \<Rightarrow> nat list \<Rightarrow> nat list) \<Rightarrow> (nat \<Rightarrow> download_error option) \<Rightarrow> (nat \<Rightarrow> download_error + nat) \<Rightarrow>
    nat list dl_result \<Rightarrow> checksum \<Rightarrow> unit dl_result" where
  "verify_checksum digest stop rd file expected =
     (case file of
        Inl e \<Rightarrow> Inl e
      | Inr data \<Rightarrow>
          hash_and_compare (digest (checksum_algorithm expected)) stop rd data (checksum_value expected))"

section \<open>Facts\<close>

lemma hash_loop_ok: "hash_loop stop rd i hashed data = Inr h \<Longrightarrow> h = hashed @ data"
proof (induction stop rd i hashed data rule: hash_loop.induct)
  case (1 stop rd i hashed data)
  from "1.prems" obtain k where k: "stop i = None" "rd i = Inr k"
    by (subst (asm) hash_loop.simps) (auto split: option.splits sum.splits)
  let ?n = "read_len k data"
  show ?case
  proof (cases "?n = 0")
    case True
    then have "data = []" by simp
    then show ?thesis using "1.prems" k True by (subst (asm) hash_loop.simps) simp
  next
    case False
    then have "hash_loop stop rd (Suc i) (hashed @ take ?n data) (drop ?n data) = Inr h"
      using "1.prems" k by (subst (asm) hash_loop.simps) (simp add: Let_def)
    from "1.IH" [OF k refl False this] show ?thesis by simp
  qed
qed

lemma hash_loop_runs:
  "(\<And>j. stop j = None) \<Longrightarrow> (\<And>j. \<exists>k. rd j = Inr k) \<Longrightarrow> \<exists>h. hash_loop stop rd i hashed data = Inr h"
proof (induction stop rd i hashed data rule: hash_loop.induct)
  case (1 stop rd i hashed data)
  obtain k where k: "rd i = Inr k" using "1.prems"(2) by blast
  show ?case
  proof (cases "read_len k data = 0")
    case True
    then show ?thesis using k "1.prems"(1) [of i] by (subst hash_loop.simps) simp
  next
    case False
    from "1.IH" [OF "1.prems"(1) k refl False "1.prems"] show ?thesis
      using k False "1.prems"(1) [of i] by (subst hash_loop.simps) (simp add: Let_def)
  qed
qed

lemma hash_loop_error: "hash_loop stop rd i hashed data = Inl e \<Longrightarrow> \<exists>j. stop j = Some e \<or> rd j = Inl e"
proof (induction stop rd i hashed data rule: hash_loop.induct)
  case (1 stop rd i hashed data)
  show ?case
  proof (cases "\<exists>k. stop i = None \<and> rd i = Inr k \<and> read_len k data \<noteq> 0")
    case True
    then obtain k where k: "stop i = None" "rd i = Inr k" "read_len k data \<noteq> 0" by blast
    then have "hash_loop stop rd (Suc i) (hashed @ take (read_len k data) data) (drop (read_len k data) data) = Inl e"
      using "1.prems" by (subst (asm) hash_loop.simps) (simp add: Let_def)
    from "1.IH" [OF k(1,2) refl k(3) this] show ?thesis .
  next
    case False
    then show ?thesis using "1.prems"
      by (subst (asm) hash_loop.simps) (auto simp: Let_def split: option.splits sum.splits if_splits)
  qed
qed

lemma hex_char_lower: "n < 16 \<Longrightarrow> to_ascii_lower (hex_char n) = hex_char n"
proof -
  assume "n < 16"
  then have "char_code (hex_char n) = (if n < 10 then n + 48 else n + 87)"
    by (simp add: char_code_def hex_char_def)
  then show ?thesis using \<open>n < 16\<close> by (simp add: to_ascii_lower_def split: if_splits)
qed

lemma hex_encode_lower: "list_all (\<lambda>b. b < 256) bs \<Longrightarrow> map to_ascii_lower (hex_encode bs) = hex_encode bs"
  by (induction bs) (simp_all add: hex_encode_def hex_char_lower less_mult_imp_div_less)

lemma verified_digest:
  "verify_checksum digest stop rd (Inr data) expected = Inr () \<Longrightarrow>
    hex_encode (digest (checksum_algorithm expected) data) = map to_ascii_lower (checksum_value expected)"
  by (auto simp: verify_checksum_def hash_and_compare_def Let_def dest: hash_loop_ok split: sum.splits if_splits)

section \<open>Properties\<close>

text \<open>C39. Verification succeeds exactly on a file whose digest, in lower-case hexadecimal,
  is the expected value up to case; it does not depend on how the reads cut the file.
  It reports a mismatch only for a different digest of the whole file, and every other
  error is that of a failed read or of a stop request.\<close>

theorem verify_checksum_exact:
  assumes "verify_checksum digest stop rd (Inr data) expected = res"
  shows "(res = Inr () \<longrightarrow>
      hex_encode (digest (checksum_algorithm expected) data) = map to_ascii_lower (checksum_value expected)) \<and>
    (\<forall>e. res = Inl e \<longrightarrow> (\<exists>j. stop j = Some e \<or> rd j = Inl e) \<or>
      e = ChecksumMismatch (checksum_value expected) (hex_encode (digest (checksum_algorithm expected) data)) \<and>
      hex_encode (digest (checksum_algorithm expected) data) \<noteq> map to_ascii_lower (checksum_value expected)) \<and>
    ((\<forall>j. stop j = None \<and> (\<exists>k. rd j = Inr k)) \<longrightarrow>
      hex_encode (digest (checksum_algorithm expected) data) = map to_ascii_lower (checksum_value expected) \<longrightarrow> res = Inr ())"
proof -
  have r: "res = (case hash_loop stop rd 0 [] data of Inl e \<Rightarrow> Inl e
      | Inr hashed \<Rightarrow> let actual_hex = hex_encode (digest (checksum_algorithm expected) hashed)
          in if actual_hex \<noteq> map to_ascii_lower (checksum_value expected)
             then Inl (ChecksumMismatch (checksum_value expected) actual_hex) else Inr ())"
    using assms by (simp add: verify_checksum_def hash_and_compare_def)
  have runs: "\<exists>h. hash_loop stop rd 0 [] data = Inr h" if "\<forall>j. stop j = None \<and> (\<exists>k. rd j = Inr k)"
    using hash_loop_runs [of stop rd 0 "[]" data] that by blast
  show ?thesis
  proof (cases "hash_loop stop rd 0 [] data")
    case (Inl e)
    then show ?thesis using r hash_loop_error [OF Inl] runs by auto
  next
    case (Inr h)
    then show ?thesis using r hash_loop_ok [OF Inr] by (simp add: Let_def)
  qed
qed

theorem verify_checksum_exact_witness:
  "verify_checksum (\<lambda>a d. [length d, 255]) (\<lambda>i. None) (\<lambda>i. Inr 2) (Inr [7, 8, 9]) (Sha256 (hex_encode [3, 255])) = Inr ()"
proof -
  have "map to_ascii_lower (hex_encode [3, 255]) = hex_encode [3, 255]" by (rule hex_encode_lower) simp
  then show ?thesis
    using verify_checksum_exact [of "\<lambda>a d. [length d, 255]" "\<lambda>i. None" "\<lambda>i. Inr 2" "[7, 8, 9]"
      "Sha256 (hex_encode [3, 255])", OF refl]
    by (simp add: checksum_value_def eval_nat_numeral)
qed

end
