(* ===== verification/Bincode.thy ===== *)
theory Bincode
  imports Control_File
begin

text \<open>
  An instance of the payload codec: the fixed-width little-endian format that the
  \<open>bincode\<close> crate documents - integers of eight bytes, sequences and strings with a
  length prefix, options with a tag byte, enum variants with a four-byte index, struct
  fields in order.  It discharges the contract of the control file for a full codec,
  and the properties of the control file are stated against that contract.
\<close>

section \<open>Field codecs\<close>

type_synonym 'a decoder = "nat list \<Rightarrow> ('a \<times> nat list) option"

definition take_exact :: "nat \<Rightarrow> nat list decoder" where
  "take_exact n bs = (if length bs < n then None else Some (take n bs, drop n bs))"

definition enc_uint :: "nat \<Rightarrow> nat \<Rightarrow> nat list" where
  "enc_uint k n = le_bytes k n"

definition dec_uint :: "nat \<Rightarrow> nat decoder" where
  "dec_uint k bs = Option.bind (take_exact k bs) (\<lambda>(x, rest). Some (from_le_bytes x, rest))"

definition enc_list :: "('a \<Rightarrow> nat list) \<Rightarrow> 'a list \<Rightarrow> nat list" where
  "enc_list e xs = enc_uint 8 (length xs) @ concat (map e xs)"

fun dec_many :: "'a decoder \<Rightarrow> nat \<Rightarrow> 'a list decoder" where
  "dec_many d 0 bs = Some ([], bs)"
| "dec_many d (Suc n) bs =
     Option.bind (d bs) (\<lambda>(x, rest). Option.bind (dec_many d n rest) (\<lambda>(xs, rest). Some (x # xs, rest)))"

definition dec_list :: "'a decoder \<Rightarrow> 'a list decoder" where
  "dec_list d bs = Option.bind (dec_uint 8 bs) (\<lambda>(n, rest). dec_many d n rest)"

fun enc_option :: "('a \<Rightarrow> nat list) \<Rightarrow> 'a option \<Rightarrow> nat list" where
  "enc_option e None = [0]"
| "enc_option e (Some x) = 1 # e x"

definition dec_option :: "'a decoder \<Rightarrow> 'a option decoder" where
  "dec_option d bs =
     (case bs of
        [] \<Rightarrow> None
      | t # rest \<Rightarrow>
          if t = 0 then Some (None, rest)
          else if t = 1 then Option.bind (d rest) (\<lambda>(x, rest). Some (Some x, rest))
          else None)"

definition enc_char :: "char \<Rightarrow> nat list" where
  "enc_char c = [of_char c]"

definition dec_char :: "char decoder" where
  "dec_char bs = (case bs of [] \<Rightarrow> None | b # rest \<Rightarrow> Some (char_of b, rest))"

definition dec_pair :: "'a decoder \<Rightarrow> 'b decoder \<Rightarrow> ('a \<times> 'b) decoder" where
  "dec_pair d d' bs =
     Option.bind (d bs) (\<lambda>(x, rest). Option.bind (d' rest) (\<lambda>(y, rest). Some ((x, y), rest)))"

definition enc_pair :: "('a \<Rightarrow> nat list) \<Rightarrow> ('b \<Rightarrow> nat list) \<Rightarrow> 'a \<times> 'b \<Rightarrow> nat list" where
  "enc_pair e e' p = e (fst p) @ e' (snd p)"

section \<open>Decoding what was encoded\<close>

definition codes :: "('a \<Rightarrow> bool) \<Rightarrow> ('a \<Rightarrow> nat list) \<Rightarrow> 'a decoder \<Rightarrow> bool" where
  "codes ok e d \<longleftrightarrow> (\<forall>x rest. ok x \<longrightarrow> d (e x @ rest) = Some (x, rest))"

named_theorems codec_rules

lemma codes_uint [codec_rules]: "codes (\<lambda>n. n < 256 ^ k) (enc_uint k) (dec_uint k)"
  by (simp add: codes_def enc_uint_def dec_uint_def take_exact_def le_bytes_roundtrip)

lemma codes_char [codec_rules]: "codes (\<lambda>c. True) enc_char dec_char"
  by (simp add: codes_def enc_char_def dec_char_def)

lemma codes_option [codec_rules]:
  "codes ok e d \<Longrightarrow> codes (pred_option ok) (enc_option e) (dec_option d)"
  unfolding codes_def
proof (intro allI impI)
  fix x :: "'a option" and rest
  assume "\<forall>x rest. ok x \<longrightarrow> d (e x @ rest) = Some (x, rest)" "pred_option ok x"
  then show "dec_option d (enc_option e x @ rest) = Some (x, rest)"
    by (cases x) (simp_all add: dec_option_def)
qed

lemma codes_pair [codec_rules]:
  "codes ok e d \<Longrightarrow> codes ok' e' d' \<Longrightarrow> codes (\<lambda>p. ok (fst p) \<and> ok' (snd p)) (enc_pair e e') (dec_pair d d')"
  by (simp add: codes_def enc_pair_def dec_pair_def)

lemma dec_many_map:
  assumes "codes ok e d" "list_all ok xs"
  shows "dec_many d (length xs) (concat (map e xs) @ rest) = Some (xs, rest)"
  using assms(2) by (induction xs) (use assms(1) in \<open>auto simp: codes_def\<close>)

lemma codes_list [codec_rules]:
  assumes "codes ok e d"
  shows "codes (\<lambda>xs. length xs < 256 ^ 8 \<and> list_all ok xs) (enc_list e) (dec_list d)"
  unfolding codes_def
proof (intro allI impI)
  fix xs rest assume xs: "length xs < 256 ^ 8 \<and> list_all ok xs"
  then have "dec_uint 8 (enc_uint 8 (length xs) @ concat (map e xs) @ rest) = Some (length xs, concat (map e xs) @ rest)"
    using codes_uint [of 8] unfolding codes_def by blast
  then show "dec_list d (enc_list e xs @ rest) = Some (xs, rest)"
    using dec_many_map [OF assms, of xs rest] xs by (simp add: dec_list_def enc_list_def)
qed

section \<open>The snapshot\<close>

type_synonym snapshot_fields =
  "(string \<times> nat \<times> nat \<times> nat \<times> nat list \<times> nat \<times> string option \<times> string option) \<times> nat list \<times> nat list \<times> nat"

fun payload_fields :: "control_payload \<Rightarrow> snapshot_fields" where
  "payload_fields (V2 p) =
     (let s = v2_snapshot p; h = v2_hints p
      in ((cs_url s, cs_total_size s, cs_piece_size s, cs_piece_count s, cs_completed_bitset s,
           cs_downloaded_bytes s, cs_etag s, cs_last_modified s),
          dirty_piece_ids h, inflight_piece_ids h, hint_snapshot_seq h))"

fun payload_of :: "snapshot_fields \<Rightarrow> control_payload" where
  "payload_of ((url, tot, psize, count, bits, done', et, lm), dirty, inflight, seq) =
     V2 \<lparr>v2_snapshot = \<lparr>cs_url = url, cs_total_size = tot, cs_piece_size = psize, cs_piece_count = count,
           cs_completed_bitset = bits, cs_downloaded_bytes = done', cs_etag = et, cs_last_modified = lm\<rparr>,
         v2_hints = \<lparr>dirty_piece_ids = dirty, inflight_piece_ids = inflight, hint_snapshot_seq = seq\<rparr>\<rparr>"

abbreviation enc_u64 :: "nat \<Rightarrow> nat list" where
  "enc_u64 \<equiv> enc_uint 8"

abbreviation dec_u64 :: "nat decoder" where
  "dec_u64 \<equiv> dec_uint 8"

definition enc_fields :: "snapshot_fields \<Rightarrow> nat list" where
  "enc_fields =
     enc_pair
       (enc_pair (enc_list enc_char) (enc_pair enc_u64 (enc_pair enc_u64 (enc_pair enc_u64
          (enc_pair (enc_list (enc_uint 1)) (enc_pair enc_u64
             (enc_pair (enc_option (enc_list enc_char)) (enc_option (enc_list enc_char)))))))))
       (enc_pair (enc_list enc_u64) (enc_pair (enc_list enc_u64) enc_u64))"

definition dec_fields :: "snapshot_fields decoder" where
  "dec_fields =
     dec_pair
       (dec_pair (dec_list dec_char) (dec_pair dec_u64 (dec_pair dec_u64 (dec_pair dec_u64
          (dec_pair (dec_list (dec_uint 1)) (dec_pair dec_u64
             (dec_pair (dec_option (dec_list dec_char)) (dec_option (dec_list dec_char)))))))))
       (dec_pair (dec_list dec_u64) (dec_pair (dec_list dec_u64) dec_u64))"

text \<open>Values outside their machine types do not occur in the program; here they are
  refused.\<close>

abbreviation fits_u64 :: "nat \<Rightarrow> bool" where
  "fits_u64 n \<equiv> n < 256 ^ 8"

abbreviation fits_list :: "('a \<Rightarrow> bool) \<Rightarrow> 'a list \<Rightarrow> bool" where
  "fits_list ok xs \<equiv> fits_u64 (length xs) \<and> list_all ok xs"

definition fields_fit :: "snapshot_fields \<Rightarrow> bool" where
  "fields_fit f =
     (case f of ((url, tot, psize, count, bits, done', et, lm), dirty, inflight, seq) \<Rightarrow>
        (fits_list (\<lambda>c. True) url \<and> fits_u64 tot \<and> fits_u64 psize \<and> fits_u64 count \<and>
         fits_list (\<lambda>b. b < 256 ^ 1) bits \<and> fits_u64 done' \<and>
         pred_option (fits_list (\<lambda>c. True)) et \<and> pred_option (fits_list (\<lambda>c. True)) lm) \<and>
        fits_list fits_u64 dirty \<and> fits_list fits_u64 inflight \<and> fits_u64 seq)"

definition bincode_serialize :: "control_payload \<Rightarrow> string + nat list" where
  "bincode_serialize p =
     (if fields_fit (payload_fields p) then Inr (enc_uint 4 0 @ enc_fields (payload_fields p))
      else Inl ''value out of range'')"

definition bincode_deserialize :: "nat list \<Rightarrow> string + control_payload" where
  "bincode_deserialize bytes =
     (case dec_pair (dec_uint 4) dec_fields bytes of
        None \<Rightarrow> Inl ''unexpected end of file''
      | Some ((variant, f), rest) \<Rightarrow> if variant = 0 then Inr (payload_of f) else Inl ''invalid variant'')"

lemma payload_of_fields: "payload_of (payload_fields p) = p"
  by (cases p) (simp add: Let_def)

lemma codes_fields: "codes fields_fit enc_fields dec_fields"
proof -
  have "codes (\<lambda>f. fields_fit f) enc_fields dec_fields \<longleftrightarrow>
    codes (\<lambda>f. (fits_list (\<lambda>c. True) (fst (fst f)) \<and> fits_u64 (fst (snd (fst f))) \<and>
       fits_u64 (fst (snd (snd (fst f)))) \<and> fits_u64 (fst (snd (snd (snd (fst f))))) \<and>
       fits_list (\<lambda>b. b < 256 ^ 1) (fst (snd (snd (snd (snd (fst f)))))) \<and>
       fits_u64 (fst (snd (snd (snd (snd (snd (fst f))))))) \<and>
       pred_option (fits_list (\<lambda>c. True)) (fst (snd (snd (snd (snd (snd (snd (fst f)))))))) \<and>
       pred_option (fits_list (\<lambda>c. True)) (snd (snd (snd (snd (snd (snd (snd (fst f))))))))) \<and>
      fits_list fits_u64 (fst (snd f)) \<and> fits_list fits_u64 (fst (snd (snd f))) \<and> fits_u64 (snd (snd (snd f))))
      enc_fields dec_fields"
    by (rule arg_cong [of _ _ "\<lambda>p. codes p enc_fields dec_fields"]) (simp add: fields_fit_def fun_eq_iff split_def)
  also have "\<dots>"
    unfolding enc_fields_def dec_fields_def by (intro codec_rules)
  finally show ?thesis .
qed

lemma bincode_codec: "bincode_serialize p = Inr bytes \<Longrightarrow> bincode_deserialize bytes = Inr p"
proof -
  assume s: "bincode_serialize p = Inr bytes"
  then have fit: "fields_fit (payload_fields p)" and b: "bytes = enc_uint 4 0 @ enc_fields (payload_fields p)"
    by (auto simp: bincode_serialize_def split: if_splits)
  have "dec_uint 4 (enc_uint 4 0 @ enc_fields (payload_fields p)) = Some (0, enc_fields (payload_fields p))"
    using codes_uint [of 4] by (simp add: codes_def)
  moreover have "dec_fields (enc_fields (payload_fields p) @ []) = Some (payload_fields p, [])"
    using codes_fields fit unfolding codes_def by blast
  ultimately show ?thesis by (simp add: bincode_deserialize_def b dec_pair_def payload_of_fields)
qed

text \<open>The checksum only has to be a 32-bit value; this one is the bitwise reflected
  CRC-32 with polynomial \<open>0xEDB88320\<close>.\<close>

definition crc_step :: "nat \<Rightarrow> nat" where
  "crc_step c = (if odd c then xor (c div 2) 0xEDB88320 else c div 2)"

definition crc32 :: "nat list \<Rightarrow> nat" where
  "crc32 bs = xor (fold (\<lambda>b c. (crc_step ^^ 8) (xor c (b mod 256))) bs u32_max) u32_max"

lemma xor_u32: "a \<le> u32_max \<Longrightarrow> b \<le> u32_max \<Longrightarrow> xor a b \<le> u32_max" for a b :: nat
proof -
  assume ab: "a \<le> u32_max" "b \<le> u32_max"
  have t: "take_bit 32 n = n" if "n \<le> u32_max" for n :: nat
    using that by (intro take_bit_nat_eq_self) (simp add: u32_max_def)
  have "take_bit 32 (xor a b) = xor a b" using t [OF ab(1)] t [OF ab(2)] by (simp add: take_bit_xor)
  then have "xor a b < 2 ^ 32" using take_bit_nat_less_exp [of 32 "xor a b"] by simp
  then show ?thesis by (simp add: u32_max_def)
qed

lemma crc_step_u32: "c \<le> u32_max \<Longrightarrow> crc_step c \<le> u32_max"
  by (auto simp: crc_step_def intro: xor_u32) (simp_all add: u32_max_def xor_u32 [unfolded u32_max_def])

lemma crc_steps_u32: "c \<le> u32_max \<Longrightarrow> (crc_step ^^ k) c \<le> u32_max"
  by (induction k) (simp_all add: crc_step_u32)

lemma crc32_u32: "crc32 bs \<le> u32_max"
proof -
  have "b mod 256 \<le> u32_max" for b by (rule order_trans [of _ 255]) (simp_all add: u32_max_def)
  then have "c \<le> u32_max \<Longrightarrow> fold (\<lambda>b c. (crc_step ^^ 8) (xor c (b mod 256))) bs c \<le> u32_max" for c
    by (induction bs arbitrary: c) (simp_all add: crc_steps_u32 xor_u32)
  then show ?thesis by (simp add: crc32_def xor_u32)
qed

interpretation bincode: payload_codec bincode_serialize bincode_deserialize crc32
  by unfold_locales (rule bincode_codec, assumption, rule crc32_u32)

section \<open>Properties\<close>

text \<open>C35. Saving a snapshot is atomic and lossless: if it succeeds, loading gives exactly
  the snapshot and hints back; if any file operation fails or the process dies at any
  point, the previous control file is untouched.  No file but the control file and its
  temporary file changes.  This holds for every encoding that decodes what it encoded
  and every 32-bit checksum.\<close>

theorem control_save_atomic:
  assumes "payload_codec serialize deserialize2 crc"
    and "save_sync serialize crc fault snapshot hints (control_path out) fs = (fs', res)"
    and "\<forall>bytes. serialize (V2 \<lparr>v2_snapshot = snapshot, v2_hints = hints\<rparr>) = Inr bytes \<longrightarrow> length bytes \<le> u32_max"
  shows "(res = Inr () \<and>
      load_sync_with_hints d1 deserialize2 crc (control_path out) fs' = Inr (snapshot, hints) \<or>
    (\<exists>e. res = Inl e) \<and> fs' (control_path out) = fs (control_path out)) \<and>
    (\<forall>p. p \<noteq> control_path out \<longrightarrow> p \<noteq> with_extension (control_path out) ''bytehaul.tmp'' \<longrightarrow> fs' p = fs p)"
proof (intro conjI allI impI)
  show "res = Inr () \<and> load_sync_with_hints d1 deserialize2 crc (control_path out) fs' = Inr (snapshot, hints) \<or>
    (\<exists>e. res = Inl e) \<and> fs' (control_path out) = fs (control_path out)"
    by (rule payload_codec.save_load [OF assms(1,2)]) (use assms(3) in blast)
  fix p assume p: "p \<noteq> control_path out" "p \<noteq> with_extension (control_path out) ''bytehaul.tmp''"
  show "fs' p = fs p"
  proof (cases "serialize (V2 \<lparr>v2_snapshot = snapshot, v2_hints = hints\<rparr>)")
    case (Inl e)
    then show ?thesis using assms(2) by (simp add: save_sync_def)
  next
    case (Inr payload)
    then have "run_fs_ops fault 0 (save_ops (control_path out) payload (crc payload)) fs = (fs', res)"
      using assms(2) by (simp add: save_sync_def)
    from save_ops_atomic(2) [OF tmp_path_distinct this p] show ?thesis .
  qed
qed

definition sample_snapshot :: control_snapshot where
  "sample_snapshot = \<lparr>cs_url = ''u'', cs_total_size = 9, cs_piece_size = 4, cs_piece_count = 3,
     cs_completed_bitset = [5], cs_downloaded_bytes = 5, cs_etag = Some ''e'', cs_last_modified = None\<rparr>"

lemma sample_encoded:
  "\<exists>bytes. bincode_serialize (V2 \<lparr>v2_snapshot = sample_snapshot, v2_hints = default_hints\<rparr>) = Inr bytes \<and>
    length bytes \<le> u32_max"
  by (simp add: bincode_serialize_def fields_fit_def sample_snapshot_def default_hints_def Let_def enc_fields_def
      enc_pair_def enc_list_def enc_uint_def enc_char_def u32_max_def)

theorem control_save_atomic_witness:
  "let (fs', res) = save_sync bincode_serialize crc32 (\<lambda>_. None) sample_snapshot default_hints (control_path ''f'') (\<lambda>_. None)
   in (res = Inr () \<and>
       load_sync_with_hints (\<lambda>_. Inl '''') bincode_deserialize crc32 (control_path ''f'') fs' = Inr (sample_snapshot, default_hints)) \<or>
      (\<exists>e. res = Inl e) \<and> fs' (control_path ''f'') = None"
proof -
  obtain fs' res where s: "save_sync bincode_serialize crc32 (\<lambda>_. None) sample_snapshot default_hints
      (control_path ''f'') (\<lambda>_. None) = (fs', res)" by fastforce
  show ?thesis
    using control_save_atomic [OF bincode.payload_codec_axioms s, of "\<lambda>_. Inl ''''"] sample_encoded
    unfolding s by auto
qed

text \<open>C36. A control file that was cut short at any byte is reported as corrupted, never
  decoded to something else.\<close>

theorem control_truncation_rejected:
  assumes "length payload \<le> u32_max" "n < length (frame payload c)" "fs path = Some (take n (frame payload c))"
  shows "\<exists>msg. load_sync_with_hints d1 d2 crc path fs = Inl (ControlFileCorrupted msg)"
  using load_truncated [OF assms(1,2)] assms(3) by (simp add: load_sync_with_hints_def)

theorem control_truncation_rejected_witness:
  "\<exists>msg. load_sync_with_hints (\<lambda>_. Inl '''') bincode_deserialize crc32 ''f''
     [''f'' \<mapsto> take 18 (frame [1, 2, 3] 7)] = Inl (ControlFileCorrupted msg)"
  by (rule control_truncation_rejected [of "[1, 2, 3]" 18 7]) (simp_all add: u32_max_def frame_fields HEADER_SIZE_def)

end
