(* ===== verification/Writer.thy ===== *)
theory Writer
  imports Piece_Lease Error_Model
begin

text \<open>
  The write-back cache of \<open>src/storage/cache.rs\<close> and the writer task of
  \<open>src/storage/writer.rs\<close>: body chunks are collected per lease, flushed to the file
  when a lease completes or the cache reaches its watermark, and discarded when an
  attempt fails.  The file is a map from offsets to bytes with a cursor; every seek,
  write and sync may fail, a write after any number of its bytes, as the \<open>fault\<close>
  parameter says.  Memory permits travel with the data as their sizes.
\<close>

section \<open>Write-back cache\<close>

record 'b cache_entry =
  ce_offset :: nat
  ce_data :: "'b list"

record 'b write_back_cache =
  wc_pieces :: "(lease_key, 'b cache_entry) btree"
  total_bytes :: nat

datatype non_contiguous_write = NonContiguousWrite (nc_expected: nat) (nc_actual: nat)

definition non_contiguous_text :: "non_contiguous_write \<Rightarrow> string" where
  "non_contiguous_text e =
     ''noncontiguous lease write: expected offset '' @ show_nat (nc_expected e) @ '', got '' @
     show_nat (nc_actual e)"

type_synonym 'b flush_block = "nat \<times> 'b list"

definition cache_new :: "'b write_back_cache" where
  "cache_new = \<lparr>wc_pieces = [], total_bytes = 0\<rparr>"

definition cache_insert ::
  "'b write_back_cache \<Rightarrow> lease_key \<Rightarrow> nat \<Rightarrow> 'b list \<Rightarrow> non_contiguous_write + 'b write_back_cache" where
  "cache_insert c lease_key offset data =
     (if data = [] then Inr c
      else
        let entry = (case bt_get (wc_pieces c) lease_key of
                       Some e \<Rightarrow> e | None \<Rightarrow> \<lparr>ce_offset = offset, ce_data = []\<rparr>);
            expected = add_u64 (ce_offset entry) (length (ce_data entry))
        in if offset \<noteq> expected then Inl (NonContiguousWrite expected offset)
           else Inr (c\<lparr>wc_pieces :=
                        bt_insert lease_key (entry\<lparr>ce_data := ce_data entry @ data\<rparr>) (wc_pieces c),
                      total_bytes := total_bytes c + length data\<rparr>))"

definition drain_lease ::
  "'b write_back_cache \<Rightarrow> lease_key \<Rightarrow> 'b flush_block list \<times> 'b write_back_cache" where
  "drain_lease c lease_key =
     (case bt_get (wc_pieces c) lease_key of
        Some entry \<Rightarrow>
          ([(ce_offset entry, ce_data entry)],
           c\<lparr>wc_pieces := bt_remove lease_key (wc_pieces c),
             total_bytes := total_bytes c - length (ce_data entry)\<rparr>)
      | None \<Rightarrow> ([], c))"

definition discard_lease :: "'b write_back_cache \<Rightarrow> lease_key \<Rightarrow> nat \<times> 'b write_back_cache" where
  "discard_lease c lease_key =
     (case bt_get (wc_pieces c) lease_key of
        Some entry \<Rightarrow>
          (length (ce_data entry),
           c\<lparr>wc_pieces := bt_remove lease_key (wc_pieces c),
             total_bytes := total_bytes c - length (ce_data entry)\<rparr>)
      | None \<Rightarrow> (0, c))"

text \<open>Entries of distinct leases start at distinct offsets, so the unstable sort of
  the source has one result.\<close>

definition drain_all :: "'b write_back_cache \<Rightarrow> 'b flush_block list \<times> 'b write_back_cache" where
  "drain_all c =
     (sort_key fst (map (\<lambda>(k, entry). (ce_offset entry, ce_data entry)) (wc_pieces c)),
      c\<lparr>wc_pieces := [], total_bytes := 0\<rparr>)"

section \<open>The file\<close>

type_synonym 'b contents = "nat \<Rightarrow> 'b option"

type_synonym io_fault = "nat \<Rightarrow> (download_error \<times> nat) option"

definition put :: "'b contents \<Rightarrow> nat \<Rightarrow> 'b list \<Rightarrow> 'b contents" where
  "put f offset data = (\<lambda>i. if offset \<le> i \<and> i < offset + length data then Some (data ! (i - offset)) else f i)"

record 'b disk =
  dk_bytes :: "'b contents"
  dk_cursor :: nat
  dk_ops :: nat

definition disk_seek :: "io_fault \<Rightarrow> nat \<Rightarrow> 'b disk \<Rightarrow> unit dl_result \<times> 'b disk" where
  "disk_seek flt offset d =
     (case flt (dk_ops d) of
        Some (e, _) \<Rightarrow> (Inl e, d\<lparr>dk_ops := Suc (dk_ops d)\<rparr>)
      | None \<Rightarrow> (Inr (), d\<lparr>dk_ops := Suc (dk_ops d), dk_cursor := offset\<rparr>))"

definition disk_write :: "io_fault \<Rightarrow> 'b list \<Rightarrow> 'b disk \<Rightarrow> unit dl_result \<times> 'b disk" where
  "disk_write flt data d =
     (case flt (dk_ops d) of
        Some (e, n) \<Rightarrow>
          (Inl e, d\<lparr>dk_ops := Suc (dk_ops d), dk_bytes := put (dk_bytes d) (dk_cursor d) (take n data),
                    dk_cursor := dk_cursor d + length (take n data)\<rparr>)
      | None \<Rightarrow>
          (Inr (), d\<lparr>dk_ops := Suc (dk_ops d), dk_bytes := put (dk_bytes d) (dk_cursor d) data,
                     dk_cursor := dk_cursor d + length data\<rparr>))"

definition disk_sync :: "io_fault \<Rightarrow> 'b disk \<Rightarrow> unit dl_result \<times> 'b disk" where
  "disk_sync flt d =
     (case flt (dk_ops d) of
        Some (e, _) \<Rightarrow> (Inl e, d\<lparr>dk_ops := Suc (dk_ops d)\<rparr>)
      | None \<Rightarrow> (Inr (), d\<lparr>dk_ops := Suc (dk_ops d)\<rparr>))"

section \<open>The writer task\<close>

record 'b writer_task =
  wt_disk :: "'b disk"
  written_bytes :: nat
  wt_cache :: "'b write_back_cache"
  wt_active_leases :: "lease_key \<Rightarrow> nat option option"
  wt_single :: "(nat \<times> 'b list) option"
  file_offset :: "nat option"
  permits :: "(lease_key option \<times> nat) list"
  cache_high_watermark :: nat

datatype 'b writer_command =
    BeginLease lease_key
  | Data nat "'b list" "nat option" "lease_key option"
  | FlushLease lease_key
  | DiscardLease lease_key
  | FlushAll bool

datatype writer_ack = NoAck | LeaseFlushed | LeaseDiscarded nat | AllFlushed nat bool

definition writer_new :: "'b disk \<Rightarrow> nat \<Rightarrow> 'b writer_task" where
  "writer_new d watermark =
     \<lparr>wt_disk = d, written_bytes = 0, wt_cache = cache_new, wt_active_leases = (\<lambda>_. None),
      wt_single = None, file_offset = None, permits = [], cache_high_watermark = watermark\<rparr>"

fun wr_then :: "unit dl_result \<times> 's \<Rightarrow> ('s \<Rightarrow> 'a dl_result \<times> 's) \<Rightarrow> 'a dl_result \<times> 's" where
  "wr_then (Inl e, s) f = (Inl e, s)"
| "wr_then (Inr _, s) f = f s"

definition on_disk :: "('b disk \<Rightarrow> unit dl_result \<times> 'b disk) \<Rightarrow> 'b writer_task \<Rightarrow> unit dl_result \<times> 'b writer_task" where
  "on_disk f w = (case f (wt_disk w) of (r, d) \<Rightarrow> (r, w\<lparr>wt_disk := d\<rparr>))"

definition write_block :: "io_fault \<Rightarrow> nat \<Rightarrow> 'b list \<Rightarrow> 'b writer_task \<Rightarrow> unit dl_result \<times> 'b writer_task" where
  "write_block flt offset data w =
     wr_then
       (if file_offset w \<noteq> Some offset then on_disk (disk_seek flt offset) w else (Inr (), w))
       (\<lambda>w. wr_then (on_disk (disk_write flt data) (w\<lparr>file_offset := None\<rparr>))
         (\<lambda>w. let e = add_u64 offset (length data)
               in (Inr (), w\<lparr>file_offset := Some e, written_bytes := max (written_bytes w) e\<rparr>)))"

fun write_blocks :: "io_fault \<Rightarrow> 'b flush_block list \<Rightarrow> 'b writer_task \<Rightarrow> unit dl_result \<times> 'b writer_task" where
  "write_blocks flt [] w = (Inr (), w)"
| "write_blocks flt ((offset, data) # rest) w =
     wr_then (write_block flt offset data w) (write_blocks flt rest)"

definition single_bytes :: "'b writer_task \<Rightarrow> nat" where
  "single_bytes w = (case wt_single w of Some (_, data) \<Rightarrow> length data | None \<Rightarrow> 0)"

definition flush_single :: "io_fault \<Rightarrow> 'b writer_task \<Rightarrow> unit dl_result \<times> 'b writer_task" where
  "flush_single flt w =
     (case wt_single w of
        Some (offset, data) \<Rightarrow> write_block flt offset data (w\<lparr>wt_single := None\<rparr>)
      | None \<Rightarrow> (Inr (), w))"

definition retain_keyed :: "'b writer_task \<Rightarrow> 'b writer_task" where
  "retain_keyed w = w\<lparr>permits := filter (\<lambda>(key, _). key \<noteq> None) (permits w)\<rparr>"

definition retain_other :: "lease_key option \<Rightarrow> 'b writer_task \<Rightarrow> 'b writer_task" where
  "retain_other lease_key w = w\<lparr>permits := filter (\<lambda>(key, _). key \<noteq> lease_key) (permits w)\<rparr>"

definition flush_lease :: "io_fault \<Rightarrow> lease_key \<Rightarrow> 'b writer_task \<Rightarrow> unit dl_result \<times> 'b writer_task" where
  "flush_lease flt lease_key w =
     (case drain_lease (wt_cache w) lease_key of
        (blocks, c) \<Rightarrow>
          wr_then (write_blocks flt blocks (w\<lparr>wt_cache := c\<rparr>))
            (\<lambda>w. (Inr (), retain_other (Some lease_key) w)))"

definition flush_all :: "io_fault \<Rightarrow> 'b writer_task \<Rightarrow> unit dl_result \<times> 'b writer_task" where
  "flush_all flt w =
     wr_then (flush_single flt w)
       (\<lambda>w. case drain_all (wt_cache w) of
              (blocks, c) \<Rightarrow>
                wr_then (write_blocks flt blocks (w\<lparr>wt_cache := c\<rparr>)) (\<lambda>w. (Inr (), w\<lparr>permits := []\<rparr>)))"

definition sync_file :: "io_fault \<Rightarrow> 'b writer_task \<Rightarrow> unit dl_result \<times> 'b writer_task" where
  "sync_file flt w = wr_then (on_disk (disk_sync flt) w) (on_disk (disk_sync flt))"

definition SINGLE_LIMIT :: nat where
  "SINGLE_LIMIT = 256 * 1024"

definition buffer_single :: "io_fault \<Rightarrow> nat \<Rightarrow> 'b list \<Rightarrow> 'b writer_task \<Rightarrow> unit dl_result \<times> 'b writer_task" where
  "buffer_single flt offset data w =
     (if data = [] then (Inr (), w)
      else if min SINGLE_LIMIT (cache_high_watermark w) \<le> length data
      then wr_then (flush_single flt w)
             (\<lambda>w. wr_then (write_block flt offset data w) (\<lambda>w. (Inr (), retain_keyed w)))
      else
        let (o', buffered) = (case wt_single w of Some p \<Rightarrow> p | None \<Rightarrow> (offset, []));
            w1 = w\<lparr>wt_single := Some (o', buffered @ data)\<rparr>
        in if SINGLE_LIMIT \<le> single_bytes w1
           then wr_then (flush_single flt w1) (\<lambda>w. (Inr (), retain_keyed w))
           else (Inr (), w1))"

text \<open>Storing the chunk, after the earlier buffers have been settled.\<close>

definition store_data ::
  "io_fault \<Rightarrow> nat \<Rightarrow> 'b list \<Rightarrow> lease_key option \<Rightarrow> 'b writer_task \<Rightarrow> unit dl_result \<times> 'b writer_task" where
  "store_data flt offset data lease_key w =
     (case lease_key of
        Some key \<Rightarrow>
          (case wt_active_leases w key of
             Some expected_opt \<Rightarrow>
               if data = [] then (Inr (), w)
               else (case (case expected_opt of
                       Some expected \<Rightarrow>
                         if offset \<noteq> expected
                         then Some (Internal (non_contiguous_text (NonContiguousWrite expected offset)))
                         else None
                     | None \<Rightarrow> None) of
                       Some e \<Rightarrow> (Inl e, w)
                     | None \<Rightarrow>
                         (case cache_insert (wt_cache w) key offset data of
                            Inl e \<Rightarrow> (Inl (Internal (non_contiguous_text e)), w)
                          | Inr c \<Rightarrow>
                              (Inr (), w\<lparr>wt_cache := c, wt_active_leases := (wt_active_leases w)
                                 (key := Some (Some (add_u64 offset (length data))))\<rparr>)))
           | None \<Rightarrow> (Inr (), retain_other (Some key) w))
      | None \<Rightarrow> buffer_single flt offset data w)"

definition settle_before ::
  "io_fault \<Rightarrow> nat \<Rightarrow> 'b list \<Rightarrow> lease_key option \<Rightarrow> 'b writer_task \<Rightarrow> unit dl_result \<times> 'b writer_task" where
  "settle_before flt offset data lease_key w =
     wr_then
       (if data \<noteq> [] \<and>
           (case wt_single w of
              Some (start, buffered) \<Rightarrow> lease_key \<noteq> None \<or> add_u64 start (length buffered) \<noteq> offset
            | None \<Rightarrow> False)
        then wr_then (flush_single flt w) (\<lambda>w. (Inr (), retain_keyed w))
        else (Inr (), w))
       (\<lambda>w. if lease_key = None \<and> 0 < total_bytes (wt_cache w) then flush_all flt w else (Inr (), w))"

definition push_permit :: "lease_key option \<Rightarrow> nat option \<Rightarrow> 'b writer_task \<Rightarrow> 'b writer_task" where
  "push_permit lease_key permit w =
     (case permit of Some n \<Rightarrow> w\<lparr>permits := permits w @ [(lease_key, n)]\<rparr> | None \<Rightarrow> w)"

definition flush_at_watermark :: "io_fault \<Rightarrow> 'b writer_task \<Rightarrow> unit dl_result \<times> 'b writer_task" where
  "flush_at_watermark flt w =
     (if cache_high_watermark w \<le> total_bytes (wt_cache w) + single_bytes w then flush_all flt w
      else (Inr (), w))"

fun handle :: "io_fault \<Rightarrow> 'b writer_command \<Rightarrow> 'b writer_task \<Rightarrow> writer_ack dl_result \<times> 'b writer_task" where
  "handle flt (BeginLease lease_key) w =
     (Inr NoAck, w\<lparr>wt_active_leases := (wt_active_leases w)(lease_key := Some None)\<rparr>)"
| "handle flt (Data offset data permit lease_key) w =
     wr_then (settle_before flt offset data lease_key w)
       (\<lambda>w. wr_then (store_data flt offset data lease_key (push_permit lease_key permit w))
         (\<lambda>w. wr_then (flush_at_watermark flt w) (\<lambda>w. (Inr NoAck, w))))"
| "handle flt (FlushLease lease_key) w =
     wr_then (flush_lease flt lease_key w)
       (\<lambda>w. (Inr LeaseFlushed, w\<lparr>wt_active_leases := (wt_active_leases w)(lease_key := None)\<rparr>))"
| "handle flt (DiscardLease lease_key) w =
     (case discard_lease (wt_cache w) lease_key of
        (n, c) \<Rightarrow>
          (Inr (LeaseDiscarded n),
           retain_other (Some lease_key)
             (w\<lparr>wt_active_leases := (wt_active_leases w)(lease_key := None), wt_cache := c\<rparr>)))"
| "handle flt (FlushAll sync_data) w =
     wr_then (flush_all flt w)
       (\<lambda>w. wr_then (if sync_data then sync_file flt w else (Inr (), w))
         (\<lambda>w. (Inr (AllFlushed (written_bytes w) sync_data), w)))"

text \<open>The task: commands until the channel closes, then the final flush and sync.  An
  error ends it.\<close>

fun run_writer :: "io_fault \<Rightarrow> 'b writer_command list \<Rightarrow> 'b writer_task \<Rightarrow> unit dl_result \<times> 'b writer_task" where
  "run_writer flt [] w =
     wr_then (flush_all flt w) (\<lambda>w. wr_then (on_disk (disk_sync flt) w) (on_disk (disk_sync flt)))"
| "run_writer flt (cmd # rest) w =
     (case handle flt cmd w of
        (Inl e, w') \<Rightarrow> (Inl e, w')
      | (Inr _, w') \<Rightarrow> run_writer flt rest w')"

end
