(* ===== verification/Writer_View.thy ===== *)
theory Writer_View
  imports Writer
begin

text \<open>
  What the writer task guarantees.  The view of a writer is the file with the
  buffered bytes laid over it.  A chunk that is accepted changes the view exactly at
  its offsets, flushing changes no byte of the view, and an acknowledged flush has
  moved the buffered bytes into the file.  Permits never exceed the buffered bytes,
  so a producer always finds room for its next chunk.
\<close>

section \<open>Buffers and their owners\<close>

definition covers :: "nat \<Rightarrow> 'b flush_block \<Rightarrow> bool" where
  "covers i b \<longleftrightarrow> fst b \<le> i \<and> i < fst b + length (snd b)"

definition byte_at :: "'b flush_block \<Rightarrow> nat \<Rightarrow> 'b" where
  "byte_at b i = snd b ! (i - fst b)"

definition entry_block :: "'b cache_entry \<Rightarrow> 'b flush_block" where
  "entry_block e = (ce_offset e, ce_data e)"

text \<open>The unkeyed buffer belongs to \<open>None\<close>, a cache entry to its lease.\<close>

fun block_of :: "'b writer_task \<Rightarrow> lease_key option \<Rightarrow> 'b flush_block option" where
  "block_of w None = wt_single w"
| "block_of w (Some k) = map_option entry_block (bt_get (wc_pieces (wt_cache w)) k)"

definition covered :: "'b writer_task \<Rightarrow> lease_key option \<Rightarrow> nat \<Rightarrow> bool" where
  "covered w a i = (case block_of w a of Some b \<Rightarrow> covers i b | None \<Rightarrow> False)"

definition view :: "'b writer_task \<Rightarrow> 'b contents" where
  "view w i =
     (if \<exists>a. covered w a i
      then Some (byte_at (the (block_of w (SOME a. covered w a i))) i)
      else dk_bytes (wt_disk w) i)"

definition disjoint_buffers :: "'b writer_task \<Rightarrow> bool" where
  "disjoint_buffers w \<longleftrightarrow> (\<forall>a b i. covered w a i \<longrightarrow> covered w b i \<longrightarrow> a = b)"

definition cursor_ok :: "'b writer_task \<Rightarrow> bool" where
  "cursor_ok w \<longleftrightarrow> (\<forall>p. file_offset w = Some p \<longrightarrow> dk_cursor (wt_disk w) = p)"

definition block_fits :: "'b flush_block \<Rightarrow> bool" where
  "block_fits b \<longleftrightarrow> fst b + length (snd b) \<le> u64_max"

definition wr_inv :: "'b writer_task \<Rightarrow> bool" where
  "wr_inv w \<longleftrightarrow>
     cursor_ok w \<and> bt_inv (wc_pieces (wt_cache w)) \<and> disjoint_buffers w \<and>
     (\<forall>a b. block_of w a = Some b \<longrightarrow> block_fits b) \<and>
     total_bytes (wt_cache w) = sum_list (map (\<lambda>(k, e). length (ce_data e)) (wc_pieces (wt_cache w)))"

lemma view_covered:
  assumes "disjoint_buffers w" "covered w a i" "block_of w a = Some b"
  shows "view w i = Some (byte_at b i)"
proof -
  have "(SOME c. covered w c i) = a"
    using assms(1,2) unfolding disjoint_buffers_def by (metis someI)
  then show ?thesis using assms(2,3) by (auto simp: view_def)
qed

lemma view_free: "(\<And>a. \<not> covered w a i) \<Longrightarrow> view w i = dk_bytes (wt_disk w) i"
  by (simp add: view_def)

lemma covered_block: "covered w a i \<longleftrightarrow> (\<exists>b. block_of w a = Some b \<and> covers i b)"
  by (cases "block_of w a") (auto simp: covered_def)

lemma put_covers: "put f (fst b) (snd b) i = (if covers i b then Some (byte_at b i) else f i)"
  by (simp add: put_def covers_def byte_at_def)

section \<open>Changing one buffer\<close>

text \<open>A buffer is written out and released.\<close>

lemma retire_buffer:
  assumes d: "disjoint_buffers w" and b: "block_of w a = Some b"
    and bo: "block_of w' = (block_of w)(a := None)"
    and f: "dk_bytes (wt_disk w') = put (dk_bytes (wt_disk w)) (fst b) (snd b)"
  shows "disjoint_buffers w'" "view w' = view w"
proof -
  have c: "covered w' c i \<longleftrightarrow> c \<noteq> a \<and> covered w c i" for c i by (simp add: covered_def bo)
  then show d': "disjoint_buffers w'" using d unfolding disjoint_buffers_def by blast
  show "view w' = view w"
  proof
    fix i
    show "view w' i = view w i"
    proof (cases "\<exists>e. covered w e i")
      case False
      then have "\<not> covers i b" using b covered_block [of w a i] by blast
      then show ?thesis using False c f by (simp add: view_def put_covers)
    next
      case True
      then obtain e where e: "covered w e i" by blast
      then obtain be where be: "block_of w e = Some be" by (auto simp: covered_block)
      show ?thesis
      proof (cases "e = a")
        case True
        then have "\<not> covered w' x i" for x using c d e unfolding disjoint_buffers_def by blast
        then have "view w' i = put (dk_bytes (wt_disk w)) (fst b) (snd b) i"
          using f by (simp add: view_free)
        moreover have "covers i b" using e True b by (auto simp: covered_block)
        ultimately show ?thesis using view_covered [OF d e be] True b be by (simp add: put_covers)
      next
        case False
        then have "covered w' e i" "block_of w' e = Some be" using e be c bo by auto
        then show ?thesis using view_covered [OF d' _] view_covered [OF d e be] by simp
      qed
    qed
  qed
qed

text \<open>A buffer is extended by a chunk that no other buffer overlaps.\<close>

lemma extend_buffer:
  assumes d: "disjoint_buffers w"
    and b: "block_of w a = None \<and> b' = (off, data) \<or>
      (\<exists>b. block_of w a = Some b \<and> off = fst b + length (snd b) \<and> b' = (fst b, snd b @ data))"
    and bo: "block_of w' = (block_of w)(a \<mapsto> b')"
    and f: "dk_bytes (wt_disk w') = dk_bytes (wt_disk w)"
    and free: "\<And>e i. off \<le> i \<Longrightarrow> i < off + length data \<Longrightarrow> \<not> covered w e i"
  shows "disjoint_buffers w'" "view w' = put (view w) off data"
proof -
  have cov: "covers i b' \<longleftrightarrow> covered w a i \<or> off \<le> i \<and> i < off + length data" for i
    using b by (auto simp: covered_def covers_def)
  have old: "byte_at b' i = byte_at b0 i" if "block_of w a = Some b0" "covers i b0" for i b0
    using b that by (auto simp: byte_at_def covers_def nth_append)
  have new: "byte_at b' i = data ! (i - off)" if "off \<le> i" "i < off + length data" for i
    using b that by (auto simp: byte_at_def nth_append)
  have c: "covered w' e i \<longleftrightarrow> (if e = a then covers i b' else covered w e i)" for e i
    by (simp add: covered_def bo)
  show d': "disjoint_buffers w'"
    unfolding disjoint_buffers_def
  proof (intro allI impI)
    fix x y i assume "covered w' x i" "covered w' y i"
    then show "x = y" using c cov d free [of i x] free [of i y] unfolding disjoint_buffers_def
      by (metis (full_types))
  qed
  show "view w' = put (view w) off data"
  proof
    fix i
    consider (new) "off \<le> i \<and> i < off + length data" | (own) "covered w a i" "\<not> (off \<le> i \<and> i < off + length data)"
      | (other) "\<not> covered w a i" "\<not> (off \<le> i \<and> i < off + length data)" by blast
    then show "view w' i = put (view w) off data i"
    proof cases
      case 1: new
      then have "covered w' a i" "block_of w' a = Some b'" using c cov bo by auto
      then show ?thesis using view_covered [OF d'] new 1 by (simp add: put_def)
    next
      case own
      then obtain b0 where b0: "block_of w a = Some b0" "covers i b0" by (auto simp: covered_block)
      have "covered w' a i" "block_of w' a = Some b'" using own(1) c cov bo by auto
      then show ?thesis
        using view_covered [OF d', of a i b'] view_covered [OF d own(1) b0(1)] old [OF b0] own(2)
        by (auto simp: put_def)
    next
      case other
      show ?thesis
      proof (cases "\<exists>e. covered w e i")
        case True
        then obtain e be where e: "covered w e i" "block_of w e = Some be" "e \<noteq> a"
          using other(1) covered_block [of w _ i] by metis
        then have "covered w' e i" "block_of w' e = Some be" using c bo by auto
        then show ?thesis
          using view_covered [OF d'] view_covered [OF d e(1,2)] other(2) by (auto simp: put_def)
      next
        case False
        then have "\<not> covered w' e i" for e using c cov other by auto
        then show ?thesis using False f other(2) by (auto simp: view_def put_def)
      qed
    qed
  qed
qed

text \<open>A chunk goes straight to the file.\<close>

lemma direct_write:
  assumes d: "disjoint_buffers w" and bo: "block_of w' = block_of w"
    and f: "dk_bytes (wt_disk w') = put (dk_bytes (wt_disk w)) off data"
    and free: "\<And>e i. off \<le> i \<Longrightarrow> i < off + length data \<Longrightarrow> \<not> covered w e i"
  shows "disjoint_buffers w'" "view w' = put (view w) off data"
proof -
  have c: "covered w' = covered w" by (intro ext) (simp add: covered_def bo)
  show "disjoint_buffers w'" using d by (simp add: disjoint_buffers_def c)
  show "view w' = put (view w) off data"
    using f free by (auto simp: view_def c bo put_def fun_eq_iff)
qed

lemma same_buffers_view:
  assumes "block_of w' = block_of w" "dk_bytes (wt_disk w') = dk_bytes (wt_disk w)"
  shows "view w' = view w" "disjoint_buffers w' = disjoint_buffers w"
proof -
  have c: "covered w' = covered w" by (intro ext) (simp add: covered_def assms(1))
  show "view w' = view w" by (simp add: view_def c assms fun_eq_iff)
  show "disjoint_buffers w' = disjoint_buffers w" by (simp add: disjoint_buffers_def c)
qed

section \<open>Writing out\<close>

text \<open>What writing does not touch.\<close>

definition same_state :: "'b writer_task \<Rightarrow> 'b writer_task \<Rightarrow> bool" where
  "same_state w w' \<longleftrightarrow>
     wt_cache w' = wt_cache w \<and> wt_active_leases w' = wt_active_leases w \<and> wt_single w' = wt_single w \<and>
     permits w' = permits w \<and> cache_high_watermark w' = cache_high_watermark w"

lemma block_of_same: "wt_cache w' = wt_cache w \<Longrightarrow> wt_single w' = wt_single w \<Longrightarrow> block_of w' = block_of w"
  by (rule ext) (case_tac x; simp)

lemma same_state_blocks: "same_state w w' \<Longrightarrow> block_of w' = block_of w"
  by (rule block_of_same) (simp_all add: same_state_def)

lemma wr_then_ok: "wr_then p f = (Inr x, w') \<longleftrightarrow> (\<exists>u w1. p = (Inr u, w1) \<and> f w1 = (Inr x, w'))"
  by (cases p; cases "fst p") auto

lemma write_block_ok:
  assumes "write_block flt off data w = (Inr u, w')" "cursor_ok w" "off + length data \<le> u64_max"
  shows "same_state w w'" "cursor_ok w'" "dk_bytes (wt_disk w') = put (dk_bytes (wt_disk w)) off data"
    "off + length data \<le> written_bytes w'" "written_bytes w \<le> written_bytes w'"
proof -
  obtain w1 where w1: "(if file_offset w \<noteq> Some off then on_disk (disk_seek flt off) w else (Inr (), w)) = (Inr (), w1)"
    and w2: "wr_then (on_disk (disk_write flt data) (w1\<lparr>file_offset := None\<rparr>))
         (\<lambda>w. let e = add_u64 off (length data)
               in (Inr (), w\<lparr>file_offset := Some e, written_bytes := max (written_bytes w) e\<rparr>)) = (Inr u, w')"
    using assms(1) unfolding write_block_def wr_then_ok by auto
  have s1: "same_state w w1" "dk_cursor (wt_disk w1) = off" "dk_bytes (wt_disk w1) = dk_bytes (wt_disk w)"
    "written_bytes w1 = written_bytes w"
    using w1 assms(2) by (auto simp: same_state_def on_disk_def disk_seek_def cursor_ok_def
      split: if_splits option.splits prod.splits)
  have e: "add_u64 off (length data) = off + length data" using assms(3) by (rule add_u64_exact)
  show "same_state w w'" "cursor_ok w'" "dk_bytes (wt_disk w') = put (dk_bytes (wt_disk w)) off data"
    "off + length data \<le> written_bytes w'" "written_bytes w \<le> written_bytes w'"
    using w2 s1 unfolding wr_then_ok
    by (auto simp: same_state_def on_disk_def disk_write_def cursor_ok_def Let_def e
      split: option.splits prod.splits)
qed

fun put_all :: "'b contents \<Rightarrow> 'b flush_block list \<Rightarrow> 'b contents" where
  "put_all f [] = f"
| "put_all f (b # bs) = put_all (put f (fst b) (snd b)) bs"

lemma put_all_at:
  assumes "\<And>b. b \<in> set bs \<Longrightarrow> covers i b \<Longrightarrow> byte_at b i = v"
  shows "put_all f bs i = (if \<exists>b \<in> set bs. covers i b then Some v else f i)"
  using assms
proof (induction bs arbitrary: f)
  case (Cons b bs)
  have "put_all (put f (fst b) (snd b)) bs i =
      (if \<exists>b \<in> set bs. covers i b then Some v else put f (fst b) (snd b) i)"
    by (rule Cons.IH) (simp add: Cons.prems)
  then show ?case using Cons.prems [of b] by (simp add: put_covers)
qed simp

lemma same_state_trans: "same_state a b \<Longrightarrow> same_state b c \<Longrightarrow> same_state a c"
  by (simp add: same_state_def)

lemma write_blocks_ok:
  assumes "write_blocks flt bs w = (Inr u, w')" "cursor_ok w" "\<forall>b \<in> set bs. block_fits b"
  shows "same_state w w' \<and> cursor_ok w' \<and> dk_bytes (wt_disk w') = put_all (dk_bytes (wt_disk w)) bs"
  using assms
proof (induction flt bs w rule: write_blocks.induct)
  case (1 flt w)
  then show ?case by (simp add: same_state_def)
next
  case (2 flt off data rest w)
  obtain v w1 where w1: "write_block flt off data w = (Inr v, w1)" and w2: "write_blocks flt rest w1 = (Inr u, w')"
    using 2(2) by (auto simp: wr_then_ok)
  have "off + length data \<le> u64_max" using 2(4) by (simp add: block_fits_def)
  note W = write_block_ok [OF w1 2(3) this]
  have "same_state w1 w' \<and> cursor_ok w' \<and> dk_bytes (wt_disk w') = put_all (dk_bytes (wt_disk w1)) rest"
    using 2(1) [OF w2 W(2)] 2(4) by simp
  then show ?case using W same_state_trans by auto
qed


section \<open>Flushing\<close>

lemma wr_invD:
  assumes "wr_inv w"
  shows "cursor_ok w" "bt_inv (wc_pieces (wt_cache w))" "disjoint_buffers w"
    "\<And>a b. block_of w a = Some b \<Longrightarrow> block_fits b"
    "total_bytes (wt_cache w) = sum_list (map (\<lambda>(k, e). length (ce_data e)) (wc_pieces (wt_cache w)))"
  using assms unfolding wr_inv_def by blast+

lemma flush_single_ok:
  assumes inv: "wr_inv w" and fl: "flush_single flt w = (Inr u, w')"
  shows "wr_inv w'" "view w' = view w" "wt_single w' = None" "wt_cache w' = wt_cache w"
    "wt_active_leases w' = wt_active_leases w" "permits w' = permits w"
    "cache_high_watermark w' = cache_high_watermark w"
proof -
  note I = wr_invD [OF inv]
  have "wr_inv w' \<and> view w' = view w \<and> wt_single w' = None \<and> wt_cache w' = wt_cache w \<and>
    wt_active_leases w' = wt_active_leases w \<and> permits w' = permits w \<and>
    cache_high_watermark w' = cache_high_watermark w"
  proof (cases "wt_single w")
    case None
    then show ?thesis using fl inv by (simp add: flush_single_def)
  next
    case (Some b)
    let ?w0 = "w\<lparr>wt_single := None\<rparr>"
    have wb: "write_block flt (fst b) (snd b) ?w0 = (Inr u, w')"
      using fl Some by (simp add: flush_single_def split_def)
    have fits: "fst b + length (snd b) \<le> u64_max" using I(4) [of None b] Some by (simp add: block_fits_def)
    have "cursor_ok ?w0" using I(1) by (simp add: cursor_ok_def)
    note W = write_block_ok [OF wb this fits]
    have bo: "block_of w' = (block_of w)(None := None)"
      using W(1) by (intro ext) (case_tac x; simp add: same_state_def)
    note R = retire_buffer [OF I(3) _ bo, of b]
    have "disjoint_buffers w'" "view w' = view w" using R Some W(3) by simp_all
    moreover have "wr_inv w'"
      using calculation(1) W(1,2) I(2,4,5) bo by (auto simp: wr_inv_def same_state_def split: if_splits)
    ultimately show ?thesis using W(1) by (simp add: same_state_def)
  qed
  then show "wr_inv w'" "view w' = view w" "wt_single w' = None" "wt_cache w' = wt_cache w"
    "wt_active_leases w' = wt_active_leases w" "permits w' = permits w"
    "cache_high_watermark w' = cache_high_watermark w" by blast+
qed

lemma drain_all_blocks:
  assumes "wr_inv w"
  shows "b \<in> set (fst (drain_all (wt_cache w))) \<longleftrightarrow> (\<exists>k. block_of w (Some k) = Some b)"
  using bt_get_set [OF wr_invD(2) [OF assms]]
  by (force simp: drain_all_def entry_block_def)

lemma flush_all_ok:
  assumes inv: "wr_inv w" and fl: "flush_all flt w = (Inr u, w')"
  shows "wr_inv w'" "view w' = view w" "dk_bytes (wt_disk w') = view w" "wt_single w' = None"
    "wc_pieces (wt_cache w') = []" "total_bytes (wt_cache w') = 0"
    "wt_active_leases w' = wt_active_leases w" "permits w' = []"
    "cache_high_watermark w' = cache_high_watermark w"
proof -
  obtain v w1 where w1: "flush_single flt w = (Inr v, w1)"
    and w2: "wr_then (write_blocks flt (fst (drain_all (wt_cache w1))) (w1\<lparr>wt_cache := snd (drain_all (wt_cache w1))\<rparr>))
      (\<lambda>w. (Inr (), w\<lparr>permits := []\<rparr>)) = (Inr u, w')"
    using fl by (auto simp: flush_all_def wr_then_ok split_def)
  note F = flush_single_ok [OF inv w1]
  note I = wr_invD [OF F(1)]
  let ?bs = "fst (drain_all (wt_cache w1))" and ?w0 = "w1\<lparr>wt_cache := snd (drain_all (wt_cache w1))\<rparr>"
  obtain w3 where w3: "write_blocks flt ?bs ?w0 = (Inr (), w3)" and w': "w' = w3\<lparr>permits := []\<rparr>"
    using w2 by (auto simp: wr_then_ok)
  have "\<forall>b \<in> set ?bs. block_fits b" using drain_all_blocks [OF F(1)] I(4) by blast
  moreover have "cursor_ok ?w0" using I(1) by (simp add: cursor_ok_def)
  ultimately have W: "same_state ?w0 w3 \<and> cursor_ok w3 \<and> dk_bytes (wt_disk w3) = put_all (dk_bytes (wt_disk ?w0)) ?bs"
    using write_blocks_ok [OF w3] by blast
  have empty: "wt_single w' = None" "wc_pieces (wt_cache w') = []" "total_bytes (wt_cache w') = 0"
    using W w' F(3) by (simp_all add: same_state_def drain_all_def)
  then have bo: "block_of w' a = None" for a by (cases a) simp_all
  have "dk_bytes (wt_disk w') i = view w1 i" for i
  proof (cases "\<exists>a. covered w1 a i")
    case True
    then obtain a b where a: "covered w1 a i" "block_of w1 a = Some b" "covers i b" by (auto simp: covered_block)
    have mem: "\<exists>b \<in> set ?bs. covers i b"
    proof (cases a)
      case (Some k)
      then have "b \<in> set ?bs" using a(2) drain_all_blocks [OF F(1)] by blast
      then show ?thesis using a(3) by blast
    qed (use a(2) F(3) in simp)
    have same: "byte_at x i = byte_at b i" if x: "x \<in> set ?bs" "covers i x" for x
    proof -
      obtain k where k: "block_of w1 (Some k) = Some x" using x(1) drain_all_blocks [OF F(1)] by blast
      then have "covered w1 (Some k) i" using x(2) covered_block [of w1 "Some k" i] by blast
      then have "Some k = a" using I(3) a(1) unfolding disjoint_buffers_def by blast
      then show ?thesis using k a(2) by simp
    qed
    have "put_all (dk_bytes (wt_disk ?w0)) ?bs i = Some (byte_at b i)"
      using put_all_at [of ?bs i "byte_at b i" "dk_bytes (wt_disk ?w0)", OF same] mem by simp
    then show ?thesis using view_covered [OF I(3) a(1,2)] W w' by simp
  next
    case False
    have none: "\<not> covers i b" if "b \<in> set ?bs" for b
      using that drain_all_blocks [OF F(1)] covered_block [of w1 _ i] False by blast
    then have "put_all (dk_bytes (wt_disk ?w0)) ?bs i = dk_bytes (wt_disk ?w0) i"
      using put_all_at [of ?bs i undefined "dk_bytes (wt_disk ?w0)"] by simp
    then show ?thesis using False W w' by (simp add: view_def)
  qed
  then have fl: "dk_bytes (wt_disk w') = view w" using F(2) by (simp add: fun_eq_iff)
  have nc: "\<not> covered w' a i" for a i by (simp add: covered_def bo)
  then have v: "view w' = dk_bytes (wt_disk w')" by (simp add: view_def fun_eq_iff)
  have "cursor_ok w'" using W w' by (simp add: cursor_ok_def)
  then show "wr_inv w'" using empty nc by (simp add: wr_inv_def disjoint_buffers_def bo)
  show "view w' = view w" "dk_bytes (wt_disk w') = view w" using v fl by simp_all
  show "wt_single w' = None" "wc_pieces (wt_cache w') = []" "total_bytes (wt_cache w') = 0" by (rule empty)+
  show "wt_active_leases w' = wt_active_leases w" "permits w' = []"
    "cache_high_watermark w' = cache_high_watermark w"
    using W w' F(5,7) by (simp_all add: same_state_def)
qed


lemma bt_remove_absent: "k \<notin> fst ` set m \<Longrightarrow> bt_remove k m = m"
  unfolding bt_remove_def by (rule filter_True) force

lemma total_remove:
  assumes "bt_inv m" "bt_get m k = Some e"
  shows "sum_list (map (\<lambda>(k, e). len e) (bt_remove k m)) = sum_list (map (\<lambda>(k, e). len e) m) - (len e :: nat)"
    "len e \<le> sum_list (map (\<lambda>(k, e). len e) m)"
proof -
  have "sum_list (map (\<lambda>(k, e). len e) (bt_remove k m)) + len e = sum_list (map (\<lambda>(k, e). len e) m)"
    using assms
  proof (induction m)
    case (Cons p m)
    obtain k' e' where p: "p = (k', e')" by (cases p)
    have "bt_inv m \<and> (\<forall>x \<in> fst ` set m. k' < x)" using Cons.prems(1) unfolding p bt_inv_Cons by blast
    then have inv: "bt_inv m" "k' \<notin> fst ` set m" by blast+
    show ?case
    proof (cases "k = k'")
      case True
      then have "bt_remove k m = m" using inv(2) bt_remove_absent by simp
      then show ?thesis using Cons.prems(2) p True by (simp add: bt_remove_def)
    next
      case False
      have "bt_get m k = Some e" using Cons.prems(2) p False by simp
      from Cons.IH [OF inv(1) this] show ?thesis using p False by (simp add: bt_remove_def)
    qed
  qed simp
  then show "sum_list (map (\<lambda>(k, e). len e) (bt_remove k m)) = sum_list (map (\<lambda>(k, e). len e) m) - len e"
    "len e \<le> sum_list (map (\<lambda>(k, e). len e) m)" by linarith+
qed

lemma total_insert:
  assumes "bt_inv m"
  shows "sum_list (map (\<lambda>(k, e). len e) (bt_insert k e m)) + (case bt_get m k of None \<Rightarrow> 0 | Some e0 \<Rightarrow> len e0) =
    sum_list (map (\<lambda>(k, e). len e) m) + (len e :: nat)"
  using assms
proof (induction k e m rule: bt_insert.induct)
  case (2 k v k' v' m)
  have "bt_get m k = None" if "k < k'"
  proof -
    have "\<forall>x \<in> fst ` set m. k < x" using 2(2) that by (auto simp: bt_inv_Cons)
    then have "k \<notin> fst ` set m" by blast
    then show ?thesis using bt_get_keys by metis
  qed
  then show ?case using 2 by (auto simp: bt_inv_Cons split: option.splits)
qed simp

lemma flush_lease_ok:
  assumes inv: "wr_inv w" and fl: "flush_lease flt k w = (Inr u, w')"
  shows "wr_inv w'" "view w' = view w" "block_of w' = (block_of w)(Some k := None)"
    "wt_active_leases w' = wt_active_leases w" "cache_high_watermark w' = cache_high_watermark w"
    "permits w' = filter (\<lambda>(key, _). key \<noteq> Some k) (permits w)" "wt_single w' = wt_single w"
    "wc_pieces (wt_cache w') = bt_remove k (wc_pieces (wt_cache w))"
proof -
  note I = wr_invD [OF inv]
  have "wr_inv w' \<and> view w' = view w \<and> block_of w' = (block_of w)(Some k := None) \<and>
    wt_active_leases w' = wt_active_leases w \<and> cache_high_watermark w' = cache_high_watermark w \<and>
    permits w' = filter (\<lambda>(key, _). key \<noteq> Some k) (permits w) \<and> wt_single w' = wt_single w \<and>
    wc_pieces (wt_cache w') = bt_remove k (wc_pieces (wt_cache w))"
  proof (cases "bt_get (wc_pieces (wt_cache w)) k")
    case None
    then have w': "w' = retain_other (Some k) w" using fl by (simp add: flush_lease_def drain_lease_def)
    have bo: "block_of w' = block_of w" using w' by (intro block_of_same) (simp_all add: retain_other_def)
    have "bt_remove k (wc_pieces (wt_cache w)) = wc_pieces (wt_cache w)"
      using None by (intro bt_remove_absent) (simp add: map_of_eq_None_iff)
    moreover have "(block_of w)(Some k := None) = block_of w" using None by (simp add: fun_eq_iff)
    moreover have "wr_inv w'" "view w' = view w"
      using same_buffers_view [OF bo] inv bo w' by (simp_all add: wr_inv_def retain_other_def cursor_ok_def)
    ultimately show ?thesis using bo w' by (simp add: retain_other_def)
  next
    case (Some e)
    let ?c = "snd (drain_lease (wt_cache w) k)" and ?w0 = "w\<lparr>wt_cache := snd (drain_lease (wt_cache w) k)\<rparr>"
    have bl: "fst (drain_lease (wt_cache w) k) = [entry_block e]"
      using Some by (simp add: drain_lease_def entry_block_def)
    obtain w3 where w3: "write_blocks flt [entry_block e] ?w0 = (Inr (), w3)" and w': "w' = retain_other (Some k) w3"
      using fl bl by (auto simp: flush_lease_def wr_then_ok split_def)
    have "block_fits (entry_block e)" using I(4) [of "Some k"] Some by simp
    moreover have "cursor_ok ?w0" using I(1) by (simp add: cursor_ok_def)
    ultimately have W: "same_state ?w0 w3 \<and> cursor_ok w3 \<and>
        dk_bytes (wt_disk w3) = put_all (dk_bytes (wt_disk ?w0)) [entry_block e]"
      using write_blocks_ok [OF w3] by simp
    have cache: "wt_cache w' = ?c" "wt_single w' = wt_single w"
      using W w' by (simp_all add: same_state_def retain_other_def)
    have bo: "block_of w' = (block_of w)(Some k := None)"
    proof
      fix a show "block_of w' a = ((block_of w)(Some k := None)) a"
        using Some by (cases a) (simp_all add: cache drain_lease_def)
    qed
    note R = retire_buffer [OF I(3) _ bo, of "entry_block e"]
    have v: "disjoint_buffers w'" "view w' = view w"
      using R Some W w' by (simp_all add: retain_other_def)
    have pcs: "wc_pieces (wt_cache w') = bt_remove k (wc_pieces (wt_cache w))"
      using Some by (simp add: cache drain_lease_def)
    have "total_bytes (wt_cache w') = total_bytes (wt_cache w) - length (ce_data e)"
      using Some by (simp add: cache drain_lease_def)
    then have "total_bytes (wt_cache w') = sum_list (map (\<lambda>(k, e). length (ce_data e)) (wc_pieces (wt_cache w')))"
      using total_remove(1) [OF I(2) Some, of "\<lambda>e. length (ce_data e)"] I(5) pcs by simp
    moreover have "cursor_ok w'" using W w' by (simp add: cursor_ok_def retain_other_def)
    ultimately have "wr_inv w'" using v(1) I(2,4) bo pcs by (auto simp: wr_inv_def split: if_splits)
    then show ?thesis using v(2) bo pcs cache(2) W w' by (simp add: same_state_def retain_other_def)
  qed
  then show "wr_inv w'" "view w' = view w" "block_of w' = (block_of w)(Some k := None)"
    "wt_active_leases w' = wt_active_leases w" "cache_high_watermark w' = cache_high_watermark w"
    "permits w' = filter (\<lambda>(key, _). key \<noteq> Some k) (permits w)" "wt_single w' = wt_single w"
    "wc_pieces (wt_cache w') = bt_remove k (wc_pieces (wt_cache w))" by blast+
qed


section \<open>Permits\<close>

definition psum :: "(lease_key option \<times> nat) list \<Rightarrow> lease_key option \<Rightarrow> nat" where
  "psum ps a = sum_list (map snd (filter (\<lambda>(key, _). key = a) ps))"

definition bytes_of :: "'b writer_task \<Rightarrow> lease_key option \<Rightarrow> nat" where
  "bytes_of w a = (case block_of w a of Some b \<Rightarrow> length (snd b) | None \<Rightarrow> 0)"

definition permits_ok :: "'b writer_task \<Rightarrow> bool" where
  "permits_ok w \<longleftrightarrow> (\<forall>a. psum (permits w) a \<le> bytes_of w a)"

lemma psum_Nil [simp]: "psum [] a = 0"
  by (simp add: psum_def)

lemma psum_snoc: "psum (ps @ [(k, n)]) a = psum ps a + (if k = a then n else 0)"
  by (simp add: psum_def)

lemma psum_filter: "psum (filter (\<lambda>(key, _). key \<noteq> k) ps) a = (if a = k then 0 else psum ps a)"
  by (auto simp: psum_def split_def intro!: arg_cong [of _ _ "\<lambda>xs. sum_list (map snd xs)"] filter_cong)

section \<open>Storing a chunk\<close>

definition chunk_free :: "'b writer_task \<Rightarrow> nat \<Rightarrow> 'b list \<Rightarrow> bool" where
  "chunk_free w off data \<longleftrightarrow> (\<forall>a i. off \<le> i \<and> i < off + length data \<longrightarrow> \<not> covered w a i)"

lemma chunk_free_sub:
  "(\<And>a i. covered w' a i \<Longrightarrow> covered w a i) \<Longrightarrow> chunk_free w off data \<Longrightarrow> chunk_free w' off data"
  by (auto simp: chunk_free_def)

lemma retire_covered: "block_of w' = (block_of w)(a := None) \<Longrightarrow> covered w' e i \<Longrightarrow> covered w e i"
  by (simp add: covered_def split: if_splits)

lemma flush_single_block:
  assumes "wr_inv w" "flush_single flt w = (Inr u, w')"
  shows "block_of w' = (block_of w)(None := None)"
proof
  fix a show "block_of w' a = ((block_of w)(None := None)) a"
    using flush_single_ok(3,4) [OF assms] by (cases a) simp_all
qed

lemma retain_keyed_other: "retain_keyed w = retain_other None w"
  unfolding retain_keyed_def retain_other_def by (rule refl)

lemma retain_other_psum: "psum (permits (retain_other k w)) a = (if a = k then 0 else psum (permits w) a)"
  unfolding retain_other_def using psum_filter [of k "permits w" a] by simp

lemma retain_other_view:
  "block_of (retain_other k w) = block_of w" "view (retain_other k w) = view w"
  "wr_inv (retain_other k w) = wr_inv w"
proof -
  show b: "block_of (retain_other k w) = block_of w" by (rule block_of_same) (simp_all add: retain_other_def)
  have f: "dk_bytes (wt_disk (retain_other k w)) = dk_bytes (wt_disk w)" by (simp add: retain_other_def)
  show "view (retain_other k w) = view w" by (rule same_buffers_view [OF b f])
  have "disjoint_buffers (retain_other k w) = disjoint_buffers w" by (rule same_buffers_view [OF b f])
  then show "wr_inv (retain_other k w) = wr_inv w"
    unfolding wr_inv_def b by (simp add: cursor_ok_def retain_other_def)
qed

lemmas retain_view = retain_other_view retain_other_view [of None, folded retain_keyed_other]

lemma retain_permits: "permits_ok w \<Longrightarrow> permits_ok (retain_other k w)"
  by (auto simp: permits_ok_def retain_other_psum bytes_of_def retain_view)

text \<open>What every part of handling a chunk leaves as it was.\<close>

definition steady :: "'b writer_task \<Rightarrow> 'b writer_task \<Rightarrow> bool" where
  "steady w w' \<longleftrightarrow> wr_inv w' \<and> cache_high_watermark w' = cache_high_watermark w"

lemma single_settled:
  assumes "wr_inv w" "permits_ok w" "flush_single flt w = (Inr u, w1)"
  shows "steady w (retain_keyed w1)" "view (retain_keyed w1) = view w" "permits_ok (retain_keyed w1)"
    "wt_single (retain_keyed w1) = None" "wt_active_leases (retain_keyed w1) = wt_active_leases w"
    "block_of (retain_keyed w1) = (block_of w)(None := None)" "wt_cache (retain_keyed w1) = wt_cache w"
proof -
  note F = flush_single_ok [OF assms(1,3)] and B = flush_single_block [OF assms(1,3)]
  show "steady w (retain_keyed w1)" using F(1,7) by (simp add: steady_def retain_view) (simp add: retain_keyed_def)
  show "view (retain_keyed w1) = view w" using F(2) by (simp add: retain_view)
  show "wt_single (retain_keyed w1) = None" "wt_active_leases (retain_keyed w1) = wt_active_leases w"
    "wt_cache (retain_keyed w1) = wt_cache w"
    using F(3-5) by (simp_all add: retain_keyed_def)
  show bo: "block_of (retain_keyed w1) = (block_of w)(None := None)" using B by (simp add: retain_view)
  have "psum (permits (retain_keyed w1)) a = (if a = None then 0 else psum (permits w) a)" for a
    using F(6) by (simp add: retain_keyed_other retain_other_psum)
  then show "permits_ok (retain_keyed w1)"
    using assms(2) unfolding permits_ok_def bytes_of_def bo by (auto simp: bytes_of_def)
qed

lemma flush_all_settled:
  assumes "wr_inv w" "flush_all flt w = (Inr u, w1)"
  shows "steady w w1" "view w1 = view w" "permits_ok w1" "wt_single w1 = None"
    "wt_active_leases w1 = wt_active_leases w" "\<And>a. block_of w1 a = None" "total_bytes (wt_cache w1) = 0"
    "dk_bytes (wt_disk w1) = view w"
proof -
  note F = flush_all_ok [OF assms]
  show "steady w w1" using F(1,9) by (simp add: steady_def)
  show "view w1 = view w" "wt_single w1 = None" "wt_active_leases w1 = wt_active_leases w"
    "total_bytes (wt_cache w1) = 0" "dk_bytes (wt_disk w1) = view w" by (rule F)+
  show "block_of w1 a = None" for a using F(4,5) by (cases a) simp_all
  show "permits_ok w1" using F(8) by (simp add: permits_ok_def)
qed

lemma settle_before_ok:
  assumes inv: "wr_inv w" "permits_ok w" and se: "settle_before flt off data key w = (Inr u, w')"
    and free: "chunk_free w off data" and fits: "\<forall>b. block_of w None = Some b \<longrightarrow> block_fits b"
  shows "steady w w'" "view w' = view w" "permits_ok w'" "chunk_free w' off data"
    "wt_active_leases w' = wt_active_leases w"
    "key = None \<Longrightarrow> data \<noteq> [] \<Longrightarrow>
      wt_single w' = None \<or> (\<exists>s bf. wt_single w' = Some (s, bf) \<and> off = s + length bf)"
proof -
  define stale where "stale \<longleftrightarrow> data \<noteq> [] \<and> (case wt_single w of
      Some (start, buffered) \<Rightarrow> key \<noteq> None \<or> add_u64 start (length buffered) \<noteq> off | None \<Rightarrow> False)"
  obtain w1 where w1: "(if stale then wr_then (flush_single flt w) (\<lambda>w. (Inr (), retain_keyed w)) else (Inr (), w)) = (Inr (), w1)"
    and w2: "(if key = None \<and> 0 < total_bytes (wt_cache w1) then flush_all flt w1 else (Inr (), w1)) = (Inr u, w')"
    using se unfolding settle_before_def stale_def [symmetric] by (auto simp: wr_then_ok)
  have A: "steady w w1 \<and> view w1 = view w \<and> permits_ok w1 \<and> (\<forall>a i. covered w1 a i \<longrightarrow> covered w a i) \<and>
      wt_active_leases w1 = wt_active_leases w \<and> (stale \<longrightarrow> wt_single w1 = None) \<and> (\<not> stale \<longrightarrow> w1 = w)"
  proof (cases stale)
    case True
    then obtain v w0 where w0: "flush_single flt w = (Inr v, w0)" "w1 = retain_keyed w0"
      using w1 by (auto simp: wr_then_ok)
    note S = single_settled [OF inv w0(1)]
    show ?thesis using S retire_covered [OF S(6)] True w0(2) by auto
  next
    case False
    then show ?thesis using w1 inv by (simp add: steady_def)
  qed
  have inv1: "wr_inv w1" using A by (simp add: steady_def)
  have sg: "wt_single w1 = None \<or> (\<exists>s bf. wt_single w1 = Some (s, bf) \<and> off = s + length bf)"
    if "key = None" "data \<noteq> []"
  proof (cases stale)
    case False
    then have "w1 = w" using A by blast
    moreover have "off = s + length bf" if "wt_single w = Some (s, bf)" for s bf
      using False that \<open>key = None\<close> \<open>data \<noteq> []\<close> fits add_u64_exact [of s "length bf"]
      by (simp add: stale_def block_fits_def)
    ultimately show ?thesis by (cases "wt_single w") auto
  qed (use A in blast)
  have "steady w w' \<and> view w' = view w \<and> permits_ok w' \<and> (\<forall>a i. covered w' a i \<longrightarrow> covered w a i) \<and>
      wt_active_leases w' = wt_active_leases w \<and> (wt_single w' = None \<or> w' = w1)"
  proof (cases "key = None \<and> 0 < total_bytes (wt_cache w1)")
    case True
    note S = flush_all_settled [OF inv1, of flt u w']
    have "\<not> covered w' a i" for a i using S(6) True w2 by (simp add: covered_def)
    then show ?thesis using S(1-5) A True w2 by (auto simp: steady_def)
  next
    case False
    then show ?thesis using A w2 by auto
  qed
  then show "steady w w'" "view w' = view w" "permits_ok w'" "chunk_free w' off data"
    "wt_active_leases w' = wt_active_leases w"
    "key = None \<Longrightarrow> data \<noteq> [] \<Longrightarrow>
      wt_single w' = None \<or> (\<exists>s bf. wt_single w' = Some (s, bf) \<and> off = s + length bf)"
    using free sg by (auto simp: chunk_free_def)
qed


definition accepts :: "'b writer_task \<Rightarrow> lease_key option \<Rightarrow> bool" where
  "accepts w key = (case key of None \<Rightarrow> True | Some k \<Rightarrow> wt_active_leases w k \<noteq> None)"

definition permit_for :: "'b list \<Rightarrow> nat option \<Rightarrow> bool" where
  "permit_for data permit = (case permit of None \<Rightarrow> True | Some n \<Rightarrow> n \<le> length data)"

lemma put_Nil [simp]: "put f off [] = f"
  by (auto simp: put_def fun_eq_iff)

lemma push_permit_frame:
  "block_of (push_permit k p w) = block_of w" "view (push_permit k p w) = view w"
  "wr_inv (push_permit k p w) = wr_inv w" "wt_single (push_permit k p w) = wt_single w"
  "wt_cache (push_permit k p w) = wt_cache w" "wt_active_leases (push_permit k p w) = wt_active_leases w"
  "wt_disk (push_permit k p w) = wt_disk w" "cache_high_watermark (push_permit k p w) = cache_high_watermark w"
  "file_offset (push_permit k p w) = file_offset w"
proof -
  show s: "wt_single (push_permit k p w) = wt_single w" "wt_cache (push_permit k p w) = wt_cache w"
    "wt_active_leases (push_permit k p w) = wt_active_leases w" "wt_disk (push_permit k p w) = wt_disk w"
    "cache_high_watermark (push_permit k p w) = cache_high_watermark w"
    "file_offset (push_permit k p w) = file_offset w"
    by (cases p; simp add: push_permit_def)+
  show b: "block_of (push_permit k p w) = block_of w" by (rule block_of_same) (simp_all add: s)
  show "view (push_permit k p w) = view w" by (rule same_buffers_view [OF b]) (simp add: s)
  have "disjoint_buffers (push_permit k p w) = disjoint_buffers w"
    by (rule same_buffers_view [OF b]) (simp add: s)
  then show "wr_inv (push_permit k p w) = wr_inv w"
    unfolding wr_inv_def b by (simp add: cursor_ok_def s)
qed

lemma push_permit_psum:
  "permit_for data p \<Longrightarrow> psum (permits (push_permit k p w)) a \<le> psum (permits w) a + (if a = k then length data else 0)"
  by (cases p) (auto simp: push_permit_def permit_for_def psum_snoc)

text \<open>Extending one buffer, with the permit that came along.\<close>

lemma extend_permits:
  assumes "permits_ok w" "permit_for data p" "permits w' = permits (push_permit a p w)"
    "\<And>e. bytes_of w' e = bytes_of w e + (if e = a then length data else 0)"
  shows "permits_ok w'"
  unfolding permits_ok_def
proof
  fix e
  have "psum (permits w') e \<le> psum (permits w) e + (if e = a then length data else 0)"
    using push_permit_psum [OF assms(2), of a w e] assms(3) by simp
  also have "\<dots> \<le> bytes_of w' e" using assms(1,4) by (simp add: permits_ok_def)
  finally show "psum (permits w') e \<le> bytes_of w' e" .
qed

lemma cache_insert_ok:
  assumes inv: "wr_inv w" and ins: "cache_insert (wt_cache w) k off data = Inr c" and ne: "data \<noteq> []"
    and fits: "off + length data \<le> u64_max"
    and w': "wt_cache w' = c" "wt_single w' = wt_single w" "wt_disk w' = wt_disk w" "file_offset w' = file_offset w"
    and free: "chunk_free w off data"
  shows "wr_inv w'" "view w' = put (view w) off data"
    "bytes_of w' e = bytes_of w e + (if e = Some k then length data else 0)"
    "covered w' e i \<Longrightarrow> covered w e i \<or> e = Some k \<and> off \<le> i \<and> i < off + length data"
proof -
  note I = wr_invD [OF inv]
  define en where "en = (case bt_get (wc_pieces (wt_cache w)) k of
      Some e \<Rightarrow> e | None \<Rightarrow> \<lparr>ce_offset = off, ce_data = []\<rparr>)"
  have "block_fits (entry_block en) \<or> bt_get (wc_pieces (wt_cache w)) k = None"
    using I(4) [of "Some k"] by (auto simp: en_def split: option.splits)
  then have ex: "add_u64 (ce_offset en) (length (ce_data en)) = ce_offset en + length (ce_data en)"
    using fits by (auto simp: block_fits_def entry_block_def en_def intro!: add_u64_exact)
  have off: "off = ce_offset en + length (ce_data en)"
    and c: "wc_pieces c = bt_insert k (en\<lparr>ce_data := ce_data en @ data\<rparr>) (wc_pieces (wt_cache w))"
      "total_bytes c = total_bytes (wt_cache w) + length data"
    using ins ne ex by (auto simp: cache_insert_def en_def [symmetric] Let_def split: if_splits)
  let ?b = "(ce_offset en, ce_data en @ data)"
  have bo: "block_of w' = (block_of w)(Some k \<mapsto> ?b)"
  proof
    fix a show "block_of w' a = ((block_of w)(Some k \<mapsto> ?b)) a"
      by (cases a) (simp_all add: w' c entry_block_def)
  qed
  have src: "block_of w (Some k) = None \<and> ?b = (off, data) \<or>
      (\<exists>b. block_of w (Some k) = Some b \<and> off = fst b + length (snd b) \<and> ?b = (fst b, snd b @ data))"
    using off by (cases "bt_get (wc_pieces (wt_cache w)) k") (auto simp: en_def entry_block_def)
  show "covered w' e i \<Longrightarrow> covered w e i \<or> e = Some k \<and> off \<le> i \<and> i < off + length data"
    using src by (auto simp: covered_def bo covers_def split: if_splits option.splits)
  have free': "\<And>e i. off \<le> i \<Longrightarrow> i < off + length data \<Longrightarrow> \<not> covered w e i"
    using free by (simp add: chunk_free_def)
  note E = extend_buffer [OF I(3) src bo _ free']
  have v: "disjoint_buffers w'" "view w' = put (view w) off data" using E w' by simp_all
  show "view w' = put (view w) off data" by (rule v)
  show "bytes_of w' e = bytes_of w e + (if e = Some k then length data else 0)"
    using src by (auto simp: bytes_of_def bo)
  have "sum_list (map (\<lambda>(k, e). length (ce_data e)) (wc_pieces c)) = total_bytes c"
    using total_insert [OF I(2), of "\<lambda>e. length (ce_data e)" k "en\<lparr>ce_data := ce_data en @ data\<rparr>"] I(5) c
    by (cases "bt_get (wc_pieces (wt_cache w)) k") (auto simp: en_def)
  moreover have "block_fits b" if "block_of w' a = Some b" for a b
    using that I(4) fits off unfolding bo by (auto simp: block_fits_def split: if_splits)
  ultimately show "wr_inv w'"
    using v(1) I(1,2) w' c(1) by (auto simp: wr_inv_def cursor_ok_def)
qed


lemma buffer_single_ok:
  assumes inv: "wr_inv w" and ps: "permits_ok w" "permit_for data p"
    and fits: "off + length data \<le> u64_max" and free: "chunk_free w off data"
    and cont: "data \<noteq> [] \<Longrightarrow> wt_single w = None \<or> (\<exists>s bf. wt_single w = Some (s, bf) \<and> off = s + length bf)"
    and bs: "buffer_single flt off data (push_permit None p w) = (Inr u, w')"
  shows "steady w w' \<and> view w' = put (view w) off data \<and> permits_ok w' \<and>
    wt_active_leases w' = wt_active_leases w"
proof -
  let ?w = "push_permit None p w"
  note P = push_permit_frame [of None p w]
  have free': "\<And>e i. off \<le> i \<Longrightarrow> i < off + length data \<Longrightarrow> \<not> covered w e i"
    using free by (simp add: chunk_free_def)
  consider (empty) "data = []" | (large) "data \<noteq> []" "min SINGLE_LIMIT (cache_high_watermark w) \<le> length data"
    | (small) "data \<noteq> []" "length data < min SINGLE_LIMIT (cache_high_watermark w)" by linarith
  then show ?thesis
  proof cases
    case empty
    then have w': "w' = ?w" using bs by (simp add: buffer_single_def)
    have "permits_ok ?w"
      by (rule extend_permits [OF ps]) (simp_all add: empty bytes_of_def P)
    then show ?thesis using w' inv P empty by (simp add: steady_def)
  next
    case large
    obtain v w1 v2 w2 where w1: "flush_single flt ?w = (Inr v, w1)" and w2: "write_block flt off data w1 = (Inr v2, w2)"
      and w': "w' = retain_keyed w2"
      using bs large by (auto simp: buffer_single_def wr_then_ok P)
    have inv': "wr_inv ?w" using inv P by simp
    note F = flush_single_ok [OF inv' w1] and B = flush_single_block [OF inv' w1]
    note W = write_block_ok [OF w2 wr_invD(1) [OF F(1)] fits]
    have bo: "block_of w2 = block_of w1" by (rule same_state_blocks [OF W(1)])
    have "\<And>e i. off \<le> i \<Longrightarrow> i < off + length data \<Longrightarrow> \<not> covered w1 e i"
      using retire_covered [OF B] free' by (metis P(1) covered_def)
    note D = direct_write [OF wr_invD(3) [OF F(1)] bo W(3) this]
    have inv2: "wr_inv w2"
      using D(1) W(1,2) wr_invD(2,4,5) [OF F(1)] bo by (simp add: wr_inv_def same_state_def)
    have "psum (permits w') a \<le> bytes_of w' a" for a
    proof -
      have "psum (permits w') a = (if a = None then 0 else psum (permits ?w) a)"
        using W(1) F(6) by (simp add: w' retain_keyed_other retain_other_psum same_state_def)
      moreover have "psum (permits ?w) a \<le> psum (permits w) a" if "a \<noteq> None"
        using push_permit_psum [OF ps(2), of None w a] that by simp
      moreover have "bytes_of w' a = bytes_of w a" if "a \<noteq> None"
        using that by (cases a) (simp_all add: bytes_of_def w' retain_view bo B P)
      ultimately show ?thesis using ps(1) by (auto simp: permits_ok_def intro: order_trans)
    qed
    then have "permits_ok w'" by (simp add: permits_ok_def)
    moreover have "steady w w'" "wt_active_leases w' = wt_active_leases w"
      using inv2 W(1) F(5,7) P by (simp_all add: steady_def w' retain_view same_state_def) (simp_all add: retain_keyed_def)
    ultimately show ?thesis using D(2) F(2) P by (simp add: w' retain_view)
  next
    case small
    define sb where "sb = (case wt_single w of Some q \<Rightarrow> q | None \<Rightarrow> (off, []))"
    let ?w1 = "?w\<lparr>wt_single := Some (fst sb, snd sb @ data)\<rparr>"
    have src: "block_of w None = None \<and> (fst sb, snd sb @ data) = (off, data) \<or>
      (\<exists>b. block_of w None = Some b \<and> off = fst b + length (snd b) \<and> (fst sb, snd sb @ data) = (fst b, snd b @ data))"
      using cont [OF small(1)] by (auto simp: sb_def)
    have bo: "block_of ?w1 = (block_of w)(None \<mapsto> (fst sb, snd sb @ data))"
    proof
      fix a show "block_of ?w1 a = ((block_of w)(None \<mapsto> (fst sb, snd sb @ data))) a" by (cases a) (simp_all add: P)
    qed
    note I = wr_invD [OF inv]
    note E = extend_buffer [OF I(3) src bo _ free']
    have E': "disjoint_buffers ?w1" "view ?w1 = put (view w) off data" using E by (simp_all add: P)
    have "block_fits b" if "block_of ?w1 a = Some b" for a b
      using that I(4) fits src unfolding bo by (auto simp: block_fits_def split: if_splits)
    then have inv1: "wr_inv ?w1" using E'(1) I(1,2,5) by (simp add: wr_inv_def cursor_ok_def P)
    have p1: "permits_ok ?w1"
      by (rule extend_permits [OF ps]) (use src in \<open>auto simp: bytes_of_def bo\<close>)
    have bs': "(if SINGLE_LIMIT \<le> single_bytes ?w1
         then wr_then (flush_single flt ?w1) (\<lambda>w. (Inr (), retain_keyed w)) else (Inr (), ?w1)) = (Inr u, w')"
      using bs small by (simp add: buffer_single_def P sb_def [symmetric] split_def Let_def)
    show ?thesis
    proof (cases "SINGLE_LIMIT \<le> single_bytes ?w1")
      case True
      then obtain v w2 where w2: "flush_single flt ?w1 = (Inr v, w2)" "w' = retain_keyed w2"
        using bs' by (auto simp: wr_then_ok)
      note S = single_settled [OF inv1 p1 w2(1)]
      show ?thesis using S(1-3,5) E'(2) w2(2) by (simp add: steady_def P)
    next
      case False
      then show ?thesis using bs' inv1 p1 E'(2) by (auto simp: steady_def P)
    qed
  qed
qed

lemma store_data_ok:
  assumes inv: "wr_inv w" and ps: "permits_ok w" "permit_for data p"
    and fits: "off + length data \<le> u64_max" and free: "chunk_free w off data"
    and cont: "key = None \<Longrightarrow> data \<noteq> [] \<Longrightarrow>
      wt_single w = None \<or> (\<exists>s bf. wt_single w = Some (s, bf) \<and> off = s + length bf)"
    and sd: "store_data flt off data key (push_permit key p w) = (Inr u, w')"
  shows "steady w w' \<and> view w' = (if accepts w key then put (view w) off data else view w) \<and> permits_ok w'"
proof (cases key)
  case None
  have "buffer_single flt off data (push_permit None p w) = (Inr u, w')"
    using sd None by (simp add: store_data_def)
  from buffer_single_ok [OF inv ps fits free cont [OF None] this] show ?thesis
    using None by (simp add: accepts_def)
next
  case (Some k)
  let ?w = "push_permit key p w"
  note P = push_permit_frame
  show ?thesis
  proof (cases "wt_active_leases w k")
    case None
    have w': "w' = retain_other (Some k) ?w" using sd None Some by (simp add: store_data_def P)
    have "psum (permits w') a \<le> bytes_of w' a" for a
      using push_permit_psum [OF ps(2), of key w a] ps(1) Some
      by (auto simp: w' retain_other_psum bytes_of_def retain_view P permits_ok_def intro: order_trans)
    then have "permits_ok w'" by (simp add: permits_ok_def)
    moreover have "steady w w'" using inv by (simp add: w' steady_def retain_view P) (simp add: retain_other_def P)
    ultimately show ?thesis using None Some by (simp add: w' accepts_def retain_view P)
  next
    case act: (Some ex)
    show ?thesis
    proof (cases "data = []")
      case True
      then have w': "w' = ?w" using sd act Some by (simp add: store_data_def P)
      have "permits_ok ?w" by (rule extend_permits [OF ps]) (simp_all add: True bytes_of_def P)
      then show ?thesis using w' inv True by (simp add: steady_def P)
    next
      case False
      obtain c where c: "cache_insert (wt_cache w) k off data = Inr c"
        and w': "w' = ?w\<lparr>wt_cache := c, wt_active_leases := (wt_active_leases w)(k := Some (Some (add_u64 off (length data))))\<rparr>"
        using sd act Some False by (auto simp: store_data_def P split: option.splits if_splits sum.splits)
      note C = cache_insert_ok [OF inv c False fits, of w', OF _ _ _ _ free]
      have "wt_cache w' = c" "wt_single w' = wt_single w" "wt_disk w' = wt_disk w" "file_offset w' = file_offset w"
        using w' by (simp_all add: P)
      note C' = C [OF this]
      have "permits w' = permits ?w" "cache_high_watermark w' = cache_high_watermark w" by (simp_all add: w' P)
      moreover have "permits_ok w'"
        by (rule extend_permits [OF ps calculation(1)]) (use C'(3) Some in simp)
      ultimately show ?thesis using C'(1,2) act Some by (simp add: steady_def accepts_def)
    qed
  qed
qed


section \<open>Commands\<close>

definition buffered :: "'b writer_task \<Rightarrow> nat" where
  "buffered w = total_bytes (wt_cache w) + single_bytes w"

definition wr_good :: "'b writer_task \<Rightarrow> bool" where
  "wr_good w \<longleftrightarrow> wr_inv w \<and> permits_ok w \<and> buffered w < cache_high_watermark w"

fun cmd_ok :: "'b writer_task \<Rightarrow> 'b writer_command \<Rightarrow> bool" where
  "cmd_ok w (Data off data p key) \<longleftrightarrow>
     off + length data \<le> u64_max \<and> chunk_free w off data \<and> permit_for data p"
| "cmd_ok w _ \<longleftrightarrow> True"

fun view_after :: "'b writer_task \<Rightarrow> 'b writer_command \<Rightarrow> 'b contents" where
  "view_after w (Data off data p key) = (if accepts w key then put (view w) off data else view w)"
| "view_after w (DiscardLease k) =
     (\<lambda>i. if covered w (Some k) i then dk_bytes (wt_disk w) i else view w i)"
| "view_after w _ = view w"

lemma single_bytes_block: "single_bytes w = bytes_of w None"
  by (simp add: single_bytes_def bytes_of_def split: option.split)

lemma flush_at_watermark_ok:
  assumes "wr_inv w" "permits_ok w" "0 < cache_high_watermark w" "flush_at_watermark flt w = (Inr u, w')"
  shows "wr_good w'" "view w' = view w" "cache_high_watermark w' = cache_high_watermark w"
proof -
  have "wr_good w' \<and> view w' = view w \<and> cache_high_watermark w' = cache_high_watermark w"
  proof (cases "cache_high_watermark w \<le> buffered w")
    case True
    then have "flush_all flt w = (Inr u, w')"
      using assms(4) by (simp add: flush_at_watermark_def buffered_def)
    note S = flush_all_settled [OF assms(1) this]
    have "buffered w' = 0" using S(6) [of None] S(7) by (simp add: buffered_def single_bytes_block bytes_of_def)
    then show ?thesis using S(1-3) assms(3) by (simp add: wr_good_def steady_def)
  next
    case False
    then show ?thesis using assms by (auto simp: flush_at_watermark_def wr_good_def buffered_def)
  qed
  then show "wr_good w'" "view w' = view w" "cache_high_watermark w' = cache_high_watermark w" by blast+
qed

lemma handle_data_ok:
  assumes g: "wr_good w" and ok: "cmd_ok w (Data off data p key)"
    and h: "handle flt (Data off data p key) w = (Inr ack, w')"
  shows "wr_good w'" "cache_high_watermark w' = cache_high_watermark w"
    "view w' = view_after w (Data off data p key)"
proof -
  have inv: "wr_inv w" "permits_ok w" "0 < cache_high_watermark w" using g by (simp_all add: wr_good_def)
  have c: "off + length data \<le> u64_max" "chunk_free w off data" "permit_for data p" using ok by simp_all
  obtain u1 w1 u2 w2 u3 where w1: "settle_before flt off data key w = (Inr u1, w1)"
    and w2: "store_data flt off data key (push_permit key p w1) = (Inr u2, w2)"
    and w3: "flush_at_watermark flt w2 = (Inr u3, w')"
    using h by (auto simp: wr_then_ok)
  note S = settle_before_ok [OF inv(1,2) w1 c(2)]
  have fits: "\<forall>b. block_of w None = Some b \<longrightarrow> block_fits b" using wr_invD(4) [OF inv(1)] by blast
  note S' = S [OF fits]
  have inv1: "wr_inv w1" "cache_high_watermark w1 = cache_high_watermark w" using S'(1) by (simp_all add: steady_def)
  have acc: "accepts w1 key = accepts w key" using S'(5) by (simp add: accepts_def split: option.split)
  note T = store_data_ok [OF inv1(1) S'(3) c(3,1) S'(4) S'(6) w2]
  have inv2: "wr_inv w2" "permits_ok w2" "0 < cache_high_watermark w2"
    using T inv1(2) inv(3) by (simp_all add: steady_def)
  note F = flush_at_watermark_ok [OF inv2 w3]
  show "wr_good w'" by (rule F(1))
  show "cache_high_watermark w' = cache_high_watermark w" using F(3) T inv1(2) by (simp add: steady_def)
  show "view w' = view_after w (Data off data p key)" using F(2) T S'(2) acc by simp
qed

lemma retire_bytes: "block_of w' = (block_of w)(a := None) \<Longrightarrow> bytes_of w' e = (if e = a then 0 else bytes_of w e)"
  by (simp add: bytes_of_def)

lemma drop_buffer_view:
  assumes d: "disjoint_buffers w" and bo: "block_of w' = (block_of w)(a := None)"
    and f: "dk_bytes (wt_disk w') = dk_bytes (wt_disk w)"
  shows "disjoint_buffers w'" "view w' = (\<lambda>i. if covered w a i then dk_bytes (wt_disk w) i else view w i)"
proof -
  have c: "covered w' e i \<longleftrightarrow> e \<noteq> a \<and> covered w e i" for e i by (simp add: covered_def bo)
  show d': "disjoint_buffers w'" using d c unfolding disjoint_buffers_def by blast
  show "view w' = (\<lambda>i. if covered w a i then dk_bytes (wt_disk w) i else view w i)"
  proof
    fix i
    show "view w' i = (if covered w a i then dk_bytes (wt_disk w) i else view w i)"
    proof (cases "\<exists>e. covered w' e i")
      case True
      then obtain e where e: "covered w' e i" by blast
      then obtain b where b: "block_of w' e = Some b" using covered_block [of w' e i] by blast
      have "covered w e i" "e \<noteq> a" "block_of w e = Some b" using e b c bo by (auto split: if_splits)
      moreover have "\<not> covered w a i" using calculation(1,2) d unfolding disjoint_buffers_def by blast
      ultimately show ?thesis using view_covered [OF d' e b] view_covered [OF d] by simp
    next
      case False
      then have "\<And>e. covered w e i \<Longrightarrow> e = a" using c by blast
      then show ?thesis using False f by (auto simp: view_def)
    qed
  qed
qed

lemma handle_begin_ok:
  assumes g: "wr_good w" and h: "handle flt (BeginLease k) w = (Inr ack, w')"
  shows "wr_good w' \<and> cache_high_watermark w' = cache_high_watermark w \<and>
    view w' = view_after w (BeginLease k)"
proof -
  have inv: "wr_inv w" "permits_ok w" "buffered w < cache_high_watermark w" using g by (simp_all add: wr_good_def)
  note I = wr_invD [OF inv(1)]
  have w': "w' = w\<lparr>wt_active_leases := (wt_active_leases w)(k := Some None)\<rparr>" using h by simp
  have bo: "block_of w' = block_of w" by (rule block_of_same) (simp_all add: w')
  have "wr_inv w'" "view w' = view w"
  using same_buffers_view [OF bo] I bo by (auto simp: wr_inv_def w' cursor_ok_def)
  moreover have "permits_ok w'" using inv(2) by (simp add: permits_ok_def bytes_of_def bo) (simp add: w')
  ultimately show ?thesis using inv(3) by (simp add: wr_good_def buffered_def single_bytes_def w')
qed

lemma handle_flush_lease_ok:
  assumes g: "wr_good w" and h: "handle flt (FlushLease k) w = (Inr ack, w')"
  shows "wr_good w' \<and> cache_high_watermark w' = cache_high_watermark w \<and>
    view w' = view_after w (FlushLease k) \<and> block_of w' (Some k) = None"
proof -
  have inv: "wr_inv w" "permits_ok w" "buffered w < cache_high_watermark w" using g by (simp_all add: wr_good_def)
  note I = wr_invD [OF inv(1)]
  obtain u w1 where w1: "flush_lease flt k w = (Inr u, w1)"
  and w': "w' = w1\<lparr>wt_active_leases := (wt_active_leases w1)(k := None)\<rparr>"
  using h by (auto simp: wr_then_ok)
  note F = flush_lease_ok [OF inv(1) w1]
  have bo: "block_of w' = block_of w1" by (rule block_of_same) (simp_all add: w')
  have "wr_inv w'" "view w' = view w"
  using same_buffers_view [OF bo] wr_invD [OF F(1)] bo F(2) by (auto simp: wr_inv_def w' cursor_ok_def)
  moreover have "psum (permits w') a \<le> bytes_of w' a" for a
  using inv(2) retire_bytes [OF F(3), of a] bo
  by (simp add: w' F(6) psum_filter permits_ok_def) (simp add: bytes_of_def)
  then have "permits_ok w'" by (simp add: permits_ok_def)
  moreover have "buffered w' \<le> buffered w"
  proof -
  have "total_bytes (wt_cache w') \<le> total_bytes (wt_cache w)"
    using wr_invD(5) [OF F(1)] I(5) F(8) total_remove(1) [OF I(2), of k _ "\<lambda>e. length (ce_data e)"]
      bt_remove_absent [of k "wc_pieces (wt_cache w)"] map_of_eq_None_iff [of "wc_pieces (wt_cache w)" k]
    by (cases "bt_get (wc_pieces (wt_cache w)) k") (simp_all add: w')
  then show ?thesis using F(7) by (simp add: buffered_def single_bytes_def w')
  qed
  moreover have "block_of w' (Some k) = None" using bo F(3) by simp
  ultimately show ?thesis using inv(3) F(5) w' by (simp add: wr_good_def)
qed

lemma handle_discard_ok:
  assumes g: "wr_good w" and h: "handle flt (DiscardLease k) w = (Inr ack, w')"
  shows "wr_good w' \<and> cache_high_watermark w' = cache_high_watermark w \<and>
    view w' = view_after w (DiscardLease k)"
proof -
  have inv: "wr_inv w" "permits_ok w" "buffered w < cache_high_watermark w" using g by (simp_all add: wr_good_def)
  note I = wr_invD [OF inv(1)]
  let ?c = "snd (discard_lease (wt_cache w) k)"
  have w': "w' = retain_other (Some k) (w\<lparr>wt_active_leases := (wt_active_leases w)(k := None), wt_cache := ?c\<rparr>)"
  using h by (auto simp: split_def)
  have cache: "wc_pieces ?c = bt_remove k (wc_pieces (wt_cache w)) \<and> total_bytes ?c \<le> total_bytes (wt_cache w) \<and>
    total_bytes ?c = sum_list (map (\<lambda>(k, e). length (ce_data e)) (wc_pieces ?c))"
  proof (cases "bt_get (wc_pieces (wt_cache w)) k")
  case None
  then have "bt_remove k (wc_pieces (wt_cache w)) = wc_pieces (wt_cache w)"
    by (intro bt_remove_absent) (simp add: map_of_eq_None_iff)
  then show ?thesis using None I(5) by (simp add: discard_lease_def)
  next
  case (Some e)
  then show ?thesis
    using total_remove(1) [OF I(2) Some, of "\<lambda>e. length (ce_data e)"] I(5) by (simp add: discard_lease_def)
  qed
  have bo: "block_of w' = (block_of w)(Some k := None)"
  proof
  fix a show "block_of w' a = ((block_of w)(Some k := None)) a"
    using cache by (cases a) (simp_all add: w' retain_other_def)
  qed
  note D = drop_buffer_view [OF I(3) bo]
  have f: "dk_bytes (wt_disk w') = dk_bytes (wt_disk w)" by (simp add: w' retain_other_def)
  have "block_fits b" if "block_of w' a = Some b" for a b using that I(4) unfolding bo by (auto split: if_splits)
  then have "wr_inv w'" using D(1) [OF f] I(1,2) cache by (simp add: wr_inv_def w' cursor_ok_def retain_other_def)
  moreover have "permits_ok w'"
  using inv(2) retire_bytes [OF bo] by (auto simp: permits_ok_def w' retain_other_psum)
  moreover have "buffered w' \<le> buffered w"
    using conjunct1 [OF conjunct2 [OF cache]] by (simp add: buffered_def single_bytes_def w' retain_other_def)
  ultimately show ?thesis using inv(3) D(2) [OF f]
  by (simp add: wr_good_def) (simp add: w' retain_other_def)
qed

lemma handle_flush_all_ok:
  assumes g: "wr_good w" and h: "handle flt (FlushAll b) w = (Inr ack, w')"
  shows "wr_good w' \<and> cache_high_watermark w' = cache_high_watermark w \<and>
    view w' = view_after w (FlushAll b) \<and> dk_bytes (wt_disk w') = view w"
proof -
  have inv: "wr_inv w" "permits_ok w" "buffered w < cache_high_watermark w" using g by (simp_all add: wr_good_def)
  note I = wr_invD [OF inv(1)]
  obtain u w1 u2 where w1: "flush_all flt w = (Inr u, w1)"
  and w2: "(if b then sync_file flt w1 else (Inr (), w1)) = (Inr u2, w')"
  using h by (auto simp: wr_then_ok)
  note S = flush_all_settled [OF inv(1) w1]
  have sy: "wt_cache w' = wt_cache w1 \<and> wt_single w' = wt_single w1 \<and> permits w' = permits w1 \<and>
    cache_high_watermark w' = cache_high_watermark w1 \<and> dk_bytes (wt_disk w') = dk_bytes (wt_disk w1) \<and>
    file_offset w' = file_offset w1 \<and> dk_cursor (wt_disk w') = dk_cursor (wt_disk w1)"
  using w2 by (auto simp: sync_file_def wr_then_ok on_disk_def disk_sync_def split: if_splits option.splits prod.splits)
  have bo: "block_of w' = block_of w1" by (rule block_of_same) (simp_all add: sy)
  have inv1: "wr_inv w1" using S(1) by (simp add: steady_def)
  have "wr_inv w'" "view w' = view w1"
  using same_buffers_view [OF bo] wr_invD [OF inv1] bo sy by (auto simp: wr_inv_def cursor_ok_def)
  moreover have "permits_ok w'" using S(3) bo sy by (simp add: permits_ok_def bytes_of_def)
  moreover have "buffered w' = 0"
  using S(4,7) sy by (simp add: buffered_def single_bytes_def)
  ultimately show ?thesis using S(1,2,8) sy inv(3) by (simp add: wr_good_def steady_def)
qed

lemma handle_ok:
  assumes g: "wr_good w" and ok: "cmd_ok w cmd" and h: "handle flt cmd w = (Inr ack, w')"
  shows "wr_good w' \<and> cache_high_watermark w' = cache_high_watermark w \<and> view w' = view_after w cmd \<and>
    (\<forall>k. cmd = FlushLease k \<longrightarrow> block_of w' (Some k) = None) \<and>
    (\<forall>b. cmd = FlushAll b \<longrightarrow> dk_bytes (wt_disk w') = view w)"
proof (cases cmd)
  case (Data off data p key)
  then show ?thesis using handle_data_ok [OF g ok [unfolded Data] h [unfolded Data]] by simp
next
  case (BeginLease k)
  then show ?thesis using handle_begin_ok [OF g h [unfolded BeginLease]] by simp
next
  case (FlushLease k)
  then show ?thesis using handle_flush_lease_ok [OF g h [unfolded FlushLease]] by simp
next
  case (DiscardLease k)
  then show ?thesis using handle_discard_ok [OF g h [unfolded DiscardLease]] by simp
next
  case (FlushAll b)
  then show ?thesis using handle_flush_all_ok [OF g h [unfolded FlushAll]] by simp
qed

section \<open>Runs\<close>

fun run_ok :: "io_fault \<Rightarrow> 'b writer_command list \<Rightarrow> 'b writer_task \<Rightarrow> bool" where
  "run_ok flt [] w \<longleftrightarrow> True"
| "run_ok flt (cmd # rest) w \<longleftrightarrow> cmd_ok w cmd \<and> (\<forall>k. cmd \<noteq> DiscardLease k) \<and>
     (case handle flt cmd w of (Inl e, w') \<Rightarrow> True | (Inr ack, w') \<Rightarrow> run_ok flt rest w')"

fun accepted :: "io_fault \<Rightarrow> 'b writer_command list \<Rightarrow> 'b writer_task \<Rightarrow> 'b flush_block list" where
  "accepted flt [] w = []"
| "accepted flt (Data off data p key # rest) w =
     (if accepts w key then [(off, data)] else []) @ accepted flt rest (snd (handle flt (Data off data p key) w))"
| "accepted flt (cmd # rest) w = accepted flt rest (snd (handle flt cmd w))"

lemma view_accepted:
  assumes "\<forall>k. cmd \<noteq> DiscardLease k"
  shows "put_all (view_after w cmd) (accepted flt rest (snd (handle flt cmd w))) =
    put_all (view w) (accepted flt (cmd # rest) w)"
  using assms by (cases cmd) auto

lemma run_writer_delivers:
  assumes "wr_good w" "run_ok flt cmds w" "run_writer flt cmds w = (Inr u, w')"
  shows "dk_bytes (wt_disk w') = put_all (view w) (accepted flt cmds w)"
  using assms
proof (induction flt cmds w rule: run_writer.induct)
  case (1 flt w)
  then obtain v w1 where w1: "flush_all flt w = (Inr v, w1)"
    and w2: "wr_then (on_disk (disk_sync flt) w1) (on_disk (disk_sync flt)) = (Inr u, w')"
    by (auto simp: wr_then_ok)
  have inv: "wr_inv w" using 1(1) by (simp add: wr_good_def)
  have "dk_bytes (wt_disk w') = dk_bytes (wt_disk w1)"
    using w2 by (auto simp: wr_then_ok on_disk_def disk_sync_def split: option.splits prod.splits)
  then show ?case using flush_all_settled(8) [OF inv w1] by simp
next
  case (2 flt cmd rest w)
  obtain ack w1 where h: "handle flt cmd w = (Inr ack, w1)"
    using 2(4) by (cases "handle flt cmd w"; cases "fst (handle flt cmd w)") auto
  have c: "cmd_ok w cmd" "\<forall>k. cmd \<noteq> DiscardLease k" "run_ok flt rest w1" using 2(3) h by simp_all
  have H: "wr_good w1" "view w1 = view_after w cmd" using handle_ok [OF 2(2) c(1) h] by blast+
  have "run_writer flt rest w1 = (Inr u, w')" using 2(4) h by simp
  then have "dk_bytes (wt_disk w') = put_all (view w1) (accepted flt rest w1)"
    using 2(1) [OF h [symmetric] refl] H(1) c(3) by blast
  then show ?case using view_accepted [OF c(2), of w flt rest] h H(2) by simp
qed

text \<open>All permits together.\<close>

lemma psum_total:
  assumes "finite K" "\<forall>p \<in> set ps. fst p \<in> K"
  shows "sum_list (map snd ps) = (\<Sum>a \<in> K. psum ps a)"
  using assms(2)
proof (induction ps)
  case (Cons p ps)
  have "psum (p # ps) a = (if a = fst p then snd p else 0) + psum ps a" for a
    by (simp add: psum_def split_def)
  then have "(\<Sum>a \<in> K. psum (p # ps) a) = (\<Sum>a \<in> K. if a = fst p then snd p else 0) + (\<Sum>a \<in> K. psum ps a)"
    by (simp add: sum.distrib)
  also have "(\<Sum>a \<in> K. if a = fst p then snd p else 0) = snd p"
    using assms(1) Cons.prems by (simp add: sum.delta)
  finally show ?case using Cons by simp
qed simp

lemma sum_entries:
  assumes "bt_inv m"
  shows "sum_list (map (\<lambda>(k, e). len e) m) = (\<Sum>k \<in> fst ` set m. len (the (bt_get m k)))"
  using assms
proof (induction m)
  case (Cons p m)
  obtain k e where p: "p = (k, e)" by (cases p)
  have "bt_inv m \<and> (\<forall>x \<in> fst ` set m. k < x)" using Cons.prems unfolding p bt_inv_Cons by blast
  then have m: "bt_inv m" "k \<notin> fst ` set m" by blast+
  have "(\<Sum>x \<in> fst ` set m. len (the (bt_get (p # m) x))) = (\<Sum>x \<in> fst ` set m. len (the (bt_get m x)))"
    by (rule sum.cong) (use m(2) p in auto)
  then show ?case using Cons.IH [OF m(1)] m(2) p by simp
qed simp

lemma permits_le_buffered:
  assumes inv: "wr_inv w" and ps: "permits_ok w"
  shows "sum_list (map snd (permits w)) \<le> buffered w"
proof -
  let ?m = "wc_pieces (wt_cache w)" and ?D = "Some ` fst ` set (wc_pieces (wt_cache w))"
  define K where "K = fst ` set (permits w) \<union> insert None ?D"
  have fin: "finite K" by (simp add: K_def)
  have "sum_list (map snd (permits w)) = (\<Sum>a \<in> K. psum (permits w) a)"
    by (rule psum_total [OF fin]) (simp add: K_def)
  also have "\<dots> \<le> (\<Sum>a \<in> K. bytes_of w a)" using ps by (intro sum_mono) (simp add: permits_ok_def)
  also have "\<dots> = (\<Sum>a \<in> insert None ?D. bytes_of w a)"
  proof (rule sum.mono_neutral_right [OF fin])
    show "insert None ?D \<subseteq> K" unfolding K_def by blast
    show "\<forall>a \<in> K - insert None ?D. bytes_of w a = 0"
    proof
      fix a assume a: "a \<in> K - insert None ?D"
      then obtain k where k: "a = Some k" "k \<notin> fst ` set ?m" by (cases a) auto
      then have "bt_get ?m k = None" by (simp add: map_of_eq_None_iff)
      then show "bytes_of w a = 0" using k(1) by (simp add: bytes_of_def)
    qed
  qed
  also have "\<dots> = bytes_of w None + (\<Sum>k \<in> fst ` set ?m. bytes_of w (Some k))"
    by (subst sum.insert) (auto simp: sum.reindex)
  also have "(\<Sum>k \<in> fst ` set ?m. bytes_of w (Some k)) = (\<Sum>k \<in> fst ` set ?m. length (ce_data (the (bt_get ?m k))))"
  proof (rule sum.cong [OF refl])
    fix k assume "k \<in> fst ` set ?m"
    then obtain e where "bt_get ?m k = Some e" by (cases "bt_get ?m k") (auto simp: map_of_eq_None_iff)
    then show "bytes_of w (Some k) = length (ce_data (the (bt_get ?m k)))"
      by (simp add: bytes_of_def entry_block_def)
  qed
  also have "\<dots> = total_bytes (wt_cache w)"
    using sum_entries [OF wr_invD(2) [OF inv], of "\<lambda>e. length (ce_data e)"] wr_invD(5) [OF inv] by simp
  finally show ?thesis by (simp add: buffered_def single_bytes_block)
qed


section \<open>Properties\<close>

text \<open>C21. Every command the writer acknowledges has exactly its effect on the logical
  file: an accepted chunk sets the bytes at its offsets and no others, a chunk of a
  retired lease is dropped, discarding a lease removes exactly its unflushed bytes,
  and flushing - of a lease, of everything, or at the watermark - changes no byte;
  after an acknowledged lease flush nothing of the lease is left in memory, and after
  an acknowledged full flush the file is the logical file.\<close>

theorem writer_command_effect:
  assumes "wr_good w" "cmd_ok w cmd" "handle flt cmd w = (Inr ack, w')"
  shows "wr_good w' \<and> view w' = view_after w cmd \<and>
    (\<forall>k. cmd = FlushLease k \<longrightarrow> block_of w' (Some k) = None) \<and>
    (\<forall>b. cmd = FlushAll b \<longrightarrow> dk_bytes (wt_disk w') = view w)"
  using handle_ok [OF assms] by blast

lemma writer_new_good: "0 < wm \<Longrightarrow> wr_good (writer_new d wm)"
proof -
  assume wm: "0 < wm"
  have b: "block_of (writer_new d wm) a = None" for a by (cases a) (simp_all add: writer_new_def cache_new_def)
  then have "disjoint_buffers (writer_new d wm)" by (simp add: disjoint_buffers_def covered_def)
  then show ?thesis using wm b
    by (simp add: wr_good_def wr_inv_def permits_ok_def buffered_def single_bytes_def)
      (simp add: writer_new_def cache_new_def cursor_ok_def)
qed

lemma writer_new_free: "chunk_free (writer_new d wm) off data"
proof -
  have "block_of (writer_new d wm) a = None" for a by (cases a) (simp_all add: writer_new_def cache_new_def)
  then show ?thesis by (simp add: chunk_free_def covered_def)
qed

definition blank_disk :: "nat disk" where
  "blank_disk = \<lparr>dk_bytes = (\<lambda>_. None), dk_cursor = 0, dk_ops = 0\<rparr>"

theorem writer_command_effect_witness:
  "let w = writer_new blank_disk 8; cmd = Data 4 [1, 2] (Some 2) None; w' = snd (handle (\<lambda>_. None) cmd w)
   in wr_good w' \<and> view w' = view_after w cmd"
proof -
  let ?w = "writer_new blank_disk 8" and ?cmd = "Data 4 [1, 2] (Some 2) None"
  have "handle (\<lambda>_. None) ?cmd ?w = (Inr NoAck, snd (handle (\<lambda>_. None) ?cmd ?w))"
    by (simp add: settle_before_def push_permit_def store_data_def buffer_single_def flush_at_watermark_def
      writer_new_def cache_new_def single_bytes_def SINGLE_LIMIT_def)
  moreover have "cmd_ok ?w ?cmd" using writer_new_free by (simp add: permit_for_def u64_max_def)
  ultimately show ?thesis
    using writer_command_effect [OF writer_new_good, of 8 blank_disk ?cmd "\<lambda>_. None" NoAck
      "snd (handle (\<lambda>_. None) ?cmd ?w)"] by (simp only: Let_def)
qed



end
