(* ===== verification/Retry.thy ===== *)
theory Retry
  imports Error_Model
begin

text \<open>
  The retry policy of \<open>src/session/retry.rs\<close>: the accounting of one logical
  operation, exponential backoff with equal jitter, the elapsed-time budget, and the
  loop that retries an operation under a stop signal.  Durations are nanoseconds.
  The clock readings, the random number and the observed signals are inputs of each
  round; \<open>fastrand\<close> is a function that stays within the bound it is given.
\<close>

section \<open>Stop signals\<close>

datatype stop_signal = Running | Cancel | Pause

definition stop_signal_error :: "stop_signal \<Rightarrow> download_error option" where
  "stop_signal_error signal =
     (case signal of Running \<Rightarrow> None | Cancel \<Rightarrow> Some Cancelled | Pause \<Rightarrow> Some Paused)"

text \<open>The signals a wait observes until its other branch is ready: the wait ends
  early at the first one that asks for a stop.\<close>

fun wait_for_stop :: "stop_signal list \<Rightarrow> download_error option" where
  "wait_for_stop [] = None"
| "wait_for_stop (signal # rest) =
     (case stop_signal_error signal of Some e \<Rightarrow> Some e | None \<Rightarrow> wait_for_stop rest)"

section \<open>Durations\<close>

definition DURATION_MAX :: nat where
  "DURATION_MAX = u64_max * 1000000000 + 999999999"

definition dur_sat_mul :: "nat \<Rightarrow> nat \<Rightarrow> nat" where
  "dur_sat_mul d k = min (d * k) DURATION_MAX"

definition dur_sat_add :: "nat \<Rightarrow> nat \<Rightarrow> nat" where
  "dur_sat_add a b = min (a + b) DURATION_MAX"

definition from_secs :: "nat \<Rightarrow> nat" where
  "from_secs s = s * 1000000000"

section \<open>Policy\<close>

record retry_state =
  retries_started :: nat
  rt_max_retries :: nat
  rt_base_delay :: nat
  rt_max_delay :: nat
  rt_max_retry_elapsed :: "nat option"

datatype retry_decision =
    Stop download_error
  | Retry (rd_error: download_error) (rd_retry_count: nat) (rd_backoff: nat) (rd_elapsed: nat)

definition retry_state_new :: "nat \<Rightarrow> nat \<Rightarrow> nat \<Rightarrow> nat option \<Rightarrow> retry_state" where
  "retry_state_new max_retries base_delay max_delay max_retry_elapsed =
     \<lparr>retries_started = 0, rt_max_retries = max_retries, rt_base_delay = base_delay,
      rt_max_delay = max_delay, rt_max_retry_elapsed = max_retry_elapsed\<rparr>"

definition raw_delay :: "nat \<Rightarrow> nat \<Rightarrow> nat \<Rightarrow> nat" where
  "raw_delay retry_count base_delay max_delay =
     min (dur_sat_mul base_delay (2 ^ min retry_count 10)) max_delay"

definition retry_backoff ::
  "(nat \<Rightarrow> nat) \<Rightarrow> download_error \<Rightarrow> nat \<Rightarrow> nat \<Rightarrow> nat \<Rightarrow> nat" where
  "retry_backoff rand err retry_count base_delay max_delay =
     (case retry_after_secs err of
        Some retry_secs \<Rightarrow> from_secs retry_secs
      | None \<Rightarrow>
          let half = raw_delay retry_count base_delay max_delay div 2;
              max_jitter = min half u64_max
          in half + rand max_jitter)"

definition over_limit :: "retry_state \<Rightarrow> (nat \<Rightarrow> bool) \<Rightarrow> nat option" where
  "over_limit st p =
     (case rt_max_retry_elapsed st of Some limit \<Rightarrow> if p limit then Some limit else None | None \<Rightarrow> None)"

text \<open>\<open>t1\<close> and \<open>t2\<close> are the two readings of the elapsed time.\<close>

definition decide_inner ::
  "(nat \<Rightarrow> nat) \<Rightarrow> nat \<Rightarrow> nat \<Rightarrow> retry_state \<Rightarrow> download_error \<Rightarrow> bool \<Rightarrow> bool \<Rightarrow>
    retry_decision \<times> retry_state" where
  "decide_inner rand t1 t2 st err force_retry immediate =
     (if (\<not> force_retry \<and> \<not> is_retryable err) \<or> rt_max_retries st \<le> retries_started st
      then (Stop err, st)
      else case over_limit st (\<lambda>limit. limit \<le> t1) of
        Some limit \<Rightarrow> (Stop (RetryBudgetExceeded t1 limit), st)
      | None \<Rightarrow>
          let retry_count = sat_add_u32 (retries_started st) 1;
              backoff = (if immediate \<and> retry_count = 1 \<and> retry_after_secs err = None then 0
                         else retry_backoff rand err retry_count (rt_base_delay st) (rt_max_delay st))
          in case over_limit st (\<lambda>limit. limit < dur_sat_add t2 backoff) of
               Some limit \<Rightarrow> (Stop (RetryBudgetExceeded t2 limit), st)
             | None \<Rightarrow> (Retry err retry_count backoff t2, st\<lparr>retries_started := retry_count\<rparr>))"

definition decide where
  "decide rand t1 t2 st err = decide_inner rand t1 t2 st err False False"

definition decide_body_failure where
  "decide_body_failure rand t1 t2 st err =
     decide_inner rand t1 t2 st err False
       (case err of Transport e \<Rightarrow> te_kind e = Timeout | _ \<Rightarrow> False)"

definition decide_restart where
  "decide_restart rand t1 t2 st err = decide_inner rand t1 t2 st err True False"

section \<open>The retry loop\<close>

definition sleep_with_backoff :: "nat \<Rightarrow> stop_signal list \<Rightarrow> unit dl_result" where
  "sleep_with_backoff backoff signals =
     (case wait_for_stop signals of Some e \<Rightarrow> Inl e | None \<Rightarrow> Inr ())"

record 'a round =
  rn_signal :: stop_signal
  rn_changes :: "stop_signal list"
  rn_result :: "'a dl_result"
  rn_elapsed1 :: nat
  rn_elapsed2 :: nat
  rn_rand :: "nat \<Rightarrow> nat"
  rn_sleep_signals :: "stop_signal list"

fun retry_rounds :: "retry_state \<Rightarrow> 'a round list \<Rightarrow> 'a dl_result option" where
  "retry_rounds st [] = None"
| "retry_rounds st (r # rest) =
     (case stop_signal_error (rn_signal r) of
        Some e \<Rightarrow> Some (Inl e)
      | None \<Rightarrow>
          (case wait_for_stop (rn_changes r) of
             Some e \<Rightarrow> Some (Inl e)
           | None \<Rightarrow>
               (case rn_result r of
                  Inr val \<Rightarrow> Some (Inr val)
                | Inl err \<Rightarrow>
                    (case decide (rn_rand r) (rn_elapsed1 r) (rn_elapsed2 r) st err of
                       (Stop e, _) \<Rightarrow> Some (Inl e)
                     | (Retry _ _ backoff _, st') \<Rightarrow>
                         (case sleep_with_backoff backoff (rn_sleep_signals r) of
                            Inl e \<Rightarrow> Some (Inl e)
                          | Inr _ \<Rightarrow> retry_rounds st' rest)))))"

definition retry_with_backoff ::
  "nat \<Rightarrow> nat \<Rightarrow> nat \<Rightarrow> nat option \<Rightarrow> 'a round list \<Rightarrow> 'a dl_result option" where
  "retry_with_backoff max_retries base_delay max_delay max_retry_elapsed rounds =
     retry_rounds (retry_state_new max_retries base_delay max_delay max_retry_elapsed) rounds"

section \<open>Facts\<close>

lemma decide_Retry:
  assumes "decide_inner rand t1 t2 st err force im = (Retry e n b t, st')"
  shows "e = err" "retries_started st < rt_max_retries st" "st' = st\<lparr>retries_started := n\<rparr>"
    "n = sat_add_u32 (retries_started st) 1" "force \<or> is_retryable err" "t = t2"
    "\<And>limit. rt_max_retry_elapsed st = Some limit \<Longrightarrow> t1 < limit \<and> dur_sat_add t2 b \<le> limit"
    "b = (if im \<and> n = 1 \<and> retry_after_secs err = None then 0
          else retry_backoff rand err n (rt_base_delay st) (rt_max_delay st))"
  using assms by (auto simp: decide_inner_def over_limit_def Let_def split: if_splits option.splits)

lemma decide_count:
  assumes "decide_inner rand t1 t2 st err force im = (Retry e n b t, st')" "rt_max_retries st \<le> u32_max"
  shows "n = Suc (retries_started st)" "n \<le> rt_max_retries st" "rt_max_retries st' = rt_max_retries st"
    "retries_started st' = n"
  using decide_Retry(2-4) [OF assms(1)] assms(2) by (simp_all add: sat_add_u32_def)

lemma backoff_bounds:
  assumes "retry_after_secs err = None" "\<And>m. rand m \<le> m"
  shows "raw_delay n base mx div 2 \<le> retry_backoff rand err n base mx"
    "retry_backoff rand err n base mx \<le> raw_delay n base mx" "raw_delay n base mx \<le> mx"
proof -
  let ?h = "raw_delay n base mx div 2"
  have e: "retry_backoff rand err n base mx = ?h + rand (min ?h u64_max)"
    using assms(1) by (simp add: retry_backoff_def Let_def)
  have "rand (min ?h u64_max) \<le> ?h" using assms(2) [of "min ?h u64_max"] by linarith
  then show "?h \<le> retry_backoff rand err n base mx"
    "retry_backoff rand err n base mx \<le> raw_delay n base mx" using e by linarith+
  show "raw_delay n base mx \<le> mx" by (simp add: raw_delay_def)
qed

text \<open>The loop needs one round per retry left, and one more.\<close>

lemma retry_rounds_returns:
  assumes "rt_max_retries st - retries_started st < length rounds" "rt_max_retries st \<le> u32_max"
  shows "\<exists>v. retry_rounds st (take (Suc (rt_max_retries st - retries_started st)) rounds) = Some v \<and>
    retry_rounds st rounds = Some v"
  using assms
proof (induction st rounds rule: retry_rounds.induct)
  case (2 st r rest)
  show ?case
  proof (cases "stop_signal_error (rn_signal r) = None \<and> wait_for_stop (rn_changes r) = None \<and>
      (\<exists>err e n b t st'. rn_result r = Inl err \<and>
        decide (rn_rand r) (rn_elapsed1 r) (rn_elapsed2 r) st err = (Retry e n b t, st') \<and>
        wait_for_stop (rn_sleep_signals r) = None)")
    case False
    then show ?thesis
      by (auto simp: sleep_with_backoff_def split: option.splits sum.splits prod.splits retry_decision.splits)
  next
    case True
    then obtain err e n b t st' where T: "stop_signal_error (rn_signal r) = None"
      "wait_for_stop (rn_changes r) = None" "rn_result r = Inl err"
      "decide (rn_rand r) (rn_elapsed1 r) (rn_elapsed2 r) st err = (Retry e n b t, st')"
      "wait_for_stop (rn_sleep_signals r) = None" by blast
    note D = decide_count [OF T(4) [unfolded decide_def] "2.prems"(2)]
    have k: "rt_max_retries st - retries_started st = Suc (rt_max_retries st' - retries_started st')"
      using D decide_Retry(2) [OF T(4) [unfolded decide_def]] by simp
    have "\<exists>v. retry_rounds st' (take (Suc (rt_max_retries st' - retries_started st')) rest) = Some v \<and>
        retry_rounds st' rest = Some v"
      by (rule "2.IH" [OF T(1,2,3) T(4) [symmetric] refl])
        (use "2.prems" k D T(5) in \<open>simp_all add: sleep_with_backoff_def\<close>)
    then show ?thesis using T k by (simp add: sleep_with_backoff_def)
  qed
qed simp

section \<open>Properties\<close>

text \<open>C28. The retry loop ends: an operation is attempted at most once more than the
  configured number of retries, and the loop then has a result, whatever the
  operation, the clock and the signals do.\<close>

theorem retry_loop_terminates:
  assumes "max_retries < length rounds" "max_retries \<le> u32_max"
  shows "\<exists>v. retry_with_backoff max_retries base mx lim rounds = Some v \<and>
    retry_with_backoff max_retries base mx lim (take (Suc max_retries) rounds) = Some v"
  using retry_rounds_returns [of "retry_state_new max_retries base mx lim" rounds] assms
  by (auto simp: retry_with_backoff_def retry_state_new_def)

theorem retry_loop_terminates_witness:
  "let r = \<lparr>rn_signal = Running, rn_changes = [], rn_result = Inl (dl_timeout ''t''), rn_elapsed1 = 0,
            rn_elapsed2 = 0, rn_rand = (\<lambda>m. 0), rn_sleep_signals = [Running]\<rparr> :: nat round
   in \<exists>v. retry_with_backoff 2 10 100 None [r, r, r, r] = Some v \<and>
        retry_with_backoff 2 10 100 None (take (Suc 2) [r, r, r, r]) = Some v"
  unfolding Let_def by (rule retry_loop_terminates) (simp_all add: u32_max_def)





end
