(* ===== verification/Flow.thy ===== *)
theory Flow
  imports Writer_View Retry
begin

text \<open>
  The memory budget of \<open>src/session/flow.rs\<close> and the body budget of
  \<open>src/http/mod.rs\<close>.  A body frame is cut into chunks; each chunk waits for its memory
  permits and for a slot in the writer's channel, and each wait can be ended by a stop
  request or by the writer going away.  What one wait saw is a \<open>chunk_wait\<close>.
\<close>

section \<open>Budgets\<close>

record memory_budget =
  mb_bytes :: nat
  max_chunk :: nat
  watermark :: nat

definition memory_budget_new :: "nat \<Rightarrow> memory_budget" where
  "memory_budget_new bytes =
     \<lparr>mb_bytes = bytes, max_chunk = min (div_ceil bytes 2) u32_max, watermark = max (bytes div 2) 1\<rparr>"

definition MAX_BODY_BUDGET_BYTES :: nat where
  "MAX_BODY_BUDGET_BYTES = 256 * 1024"

definition MIN_BODY_BUDGET_BYTES :: nat where
  "MIN_BODY_BUDGET_BYTES = 64 * 1024"

definition for_session :: "nat \<Rightarrow> nat \<Rightarrow> nat" where
  "for_session memory_budget transfers =
     min (max (memory_budget div max transfers 1) MIN_BODY_BUDGET_BYTES) MAX_BODY_BUDGET_BYTES"

definition transport_body_budget :: "memory_budget \<Rightarrow> nat \<Rightarrow> nat" where
  "transport_body_budget b transfers = for_session (mb_bytes b) transfers"

section \<open>Forwarding\<close>

record chunk_wait =
  cw_signals :: "stop_signal list"
  cw_writer_closed :: bool
  cw_semaphore_closed :: bool
  cw_slot_refused :: bool

definition chunk_error :: "chunk_wait \<Rightarrow> download_error option" where
  "chunk_error c =
     (case wait_for_stop (cw_signals c) of
        Some e \<Rightarrow> Some e
      | None \<Rightarrow>
          if cw_writer_closed c then Some ChannelClosed
          else if cw_semaphore_closed c then Some (Internal ''budget semaphore closed'')
          else if cw_slot_refused c then Some ChannelClosed
          else None)"

text \<open>The result, the commands handed to the writer, and the number of bytes reported
  as sent.  With a chunk limit of zero the loop of the source never ends.\<close>

partial_function (option) forward_observed ::
  "memory_budget \<Rightarrow> (nat \<Rightarrow> chunk_wait) \<Rightarrow> nat \<Rightarrow> 'b list \<Rightarrow> nat \<Rightarrow> lease_key option \<Rightarrow>
   (unit dl_result \<times> 'b writer_command list \<times> nat) option" where
  "forward_observed b env i data offset lease_key =
     (if data = [] then Some (Inr (), [], 0)
      else
        let len = min (length data) (max_chunk b)
        in case chunk_error (env i) of
             Some e \<Rightarrow> Some (Inl e, [], 0)
           | None \<Rightarrow>
               Option.bind (forward_observed b env (Suc i) (drop len data) (add_u64 offset len) lease_key)
                 (\<lambda>(r, cmds, n). Some (r, Data offset (take len data) (Some len) lease_key # cmds, len + n)))"

definition forward where
  "forward b env data offset lease_key = forward_observed b env 0 data offset lease_key"

section \<open>Lemmas\<close>

lemma div_ceil_2: "div_ceil b 2 = b - b div 2"
  by (simp add: div_ceil_def) presburger

lemma max_chunk_bounds:
  assumes "0 < bytes"
  shows "0 < max_chunk (memory_budget_new bytes)" "max_chunk (memory_budget_new bytes) \<le> bytes"
    "max_chunk (memory_budget_new bytes) \<le> u32_max"
  using assms by (auto simp: memory_budget_new_def div_ceil_2 u32_max_def)

text \<open>The commands of a frame: adjacent chunks, each within the limit and with a permit
  for exactly its size.\<close>

fun chunked :: "nat \<Rightarrow> nat \<Rightarrow> lease_key option \<Rightarrow> 'b list \<Rightarrow> 'b writer_command list \<Rightarrow> bool" where
  "chunked m off key data [] \<longleftrightarrow> data = []"
| "chunked m off key data (Data o' d p k # cmds) \<longleftrightarrow>
     o' = off \<and> k = key \<and> d \<noteq> [] \<and> length d \<le> m \<and> p = Some (length d) \<and> take (length d) data = d \<and>
     chunked m (off + length d) key (drop (length d) data) cmds"
| "chunked m off key data _ \<longleftrightarrow> False"

lemma forward_observed_ok:
  assumes m: "0 < max_chunk b" and fits: "off + length data \<le> u64_max"
  shows "\<exists>r cmds n. forward_observed b env i data off key = Some (r, cmds, n) \<and>
    n \<le> length data \<and> chunked (max_chunk b) off key (take n data) cmds \<and>
    (r = Inr () \<longleftrightarrow> n = length data) \<and>
    (\<forall>e. r = Inl e \<longrightarrow> chunk_error (env (i + length cmds)) = Some e) \<and>
    (\<forall>j < length cmds. chunk_error (env (i + j)) = None)"
  using fits
proof (induction "length data" arbitrary: data off i rule: less_induct)
  case less
  let ?l = "min (length data) (max_chunk b)"
  show ?case
  proof (cases "data = []")
    case True
    then show ?thesis by (simp add: forward_observed.simps)
  next
    case ne: False
    then have l: "0 < ?l" "?l \<le> length data" using m by auto
    show ?thesis
    proof (cases "chunk_error (env i)")
      case (Some e)
      then show ?thesis using ne by (subst forward_observed.simps) simp
    next
      case None
      have add: "add_u64 off ?l = off + ?l" using less.prems l(2) by (intro add_u64_exact) linarith
      have "length (drop ?l data) < length data" "off + ?l + length (drop ?l data) \<le> u64_max"
        using l less.prems by simp_all
      from less.hyps [OF this, of "Suc i"] obtain r cmds n where
        IH: "forward_observed b env (Suc i) (drop ?l data) (off + ?l) key = Some (r, cmds, n)"
          "n \<le> length (drop ?l data)" "chunked (max_chunk b) (off + ?l) key (take n (drop ?l data)) cmds"
          "r = Inr () \<longleftrightarrow> n = length (drop ?l data)"
          "\<forall>e. r = Inl e \<longrightarrow> chunk_error (env (Suc i + length cmds)) = Some e"
          "\<forall>j < length cmds. chunk_error (env (Suc i + j)) = None" by blast
      have "forward_observed b env i data off key =
          Some (r, Data off (take ?l data) (Some ?l) key # cmds, ?l + n)"
        using IH(1) None ne add by (subst forward_observed.simps) (simp add: Let_def)
      moreover have "chunked (max_chunk b) off key (take (?l + n) data) (Data off (take ?l data) (Some ?l) key # cmds)"
        using IH(3) l ne m by (simp add: take_drop add.commute)
      moreover have "\<forall>j < Suc (length cmds). chunk_error (env (i + j)) = None"
        using IH(6) None by (auto simp: less_Suc_eq_0_disj)
      ultimately show ?thesis using IH(2,4,5) l by auto
    qed
  qed
qed

section \<open>Properties\<close>

text \<open>C24. Forwarding a body frame ends, whatever the waits see: it hands the writer
  adjacent chunks, none larger than the limit or than what the semaphore can ever grant,
  each with a permit for exactly its size.  It succeeds exactly when all bytes were
  handed over; otherwise the error is the one of the first failing wait and the reported
  count is exactly the bytes handed over before it.\<close>

theorem forward_exact:
  assumes "0 < bytes" "off + length data \<le> u64_max"
  shows "\<exists>r cmds n. forward (memory_budget_new bytes) env data off key = Some (r, cmds, n) \<and>
    n \<le> length data \<and> chunked (min bytes u32_max) off key (take n data) cmds \<and>
    (r = Inr () \<longleftrightarrow> n = length data) \<and>
    (\<forall>e. r = Inl e \<longrightarrow> chunk_error (env (length cmds)) = Some e) \<and>
    (\<forall>j < length cmds. chunk_error (env j) = None)"
proof -
  have mono: "chunked m o' k d cmds \<Longrightarrow> m \<le> m' \<Longrightarrow> chunked m' o' k d cmds" for m m' o' k d and cmds :: "'b writer_command list"
    by (induction m o' k d cmds rule: chunked.induct) auto
  show ?thesis
    using forward_observed_ok [OF max_chunk_bounds(1) [OF assms(1)] assms(2), of env 0 key]
      mono [of "max_chunk (memory_budget_new bytes)" _ _ _ _ "min bytes u32_max"] max_chunk_bounds(2,3) [OF assms(1)]
    by (simp add: forward_def) blast
qed

theorem forward_exact_witness:
  "\<exists>r cmds n. forward (memory_budget_new 4) (\<lambda>_. \<lparr>cw_signals = [], cw_writer_closed = False,
      cw_semaphore_closed = False, cw_slot_refused = False\<rparr>) [1, 2, 3 :: nat] 7 None = Some (r, cmds, n) \<and>
    n = 3 \<and> chunked 4 7 None [1, 2, 3] cmds"
proof -
  let ?env = "\<lambda>_ :: nat. \<lparr>cw_signals = [], cw_writer_closed = False, cw_semaphore_closed = False, cw_slot_refused = False\<rparr>"
  have ok: "chunk_error (?env i) = None" for i by (simp add: chunk_error_def)
  have "(0::nat) < 4" "7 + length [1, 2, 3 :: nat] \<le> u64_max" by (simp_all add: u64_max_def)
  from forward_exact [OF this, of ?env None] obtain r cmds n where
    F: "forward (memory_budget_new 4) ?env [1, 2, 3 :: nat] 7 None = Some (r, cmds, n)"
      "chunked (min 4 u32_max) 7 None (take n [1, 2, 3 :: nat]) cmds"
      "r = Inr () \<longleftrightarrow> n = length [1, 2, 3 :: nat]" "\<forall>e. r = Inl e \<longrightarrow> chunk_error (?env (length cmds)) = Some e" by blast
  have "r = Inr ()" using F(4) ok by (cases r) auto
  then have n: "n = 3" using F(3) by simp
  show ?thesis using F(1,2) n by (simp add: u32_max_def)
qed

text \<open>C23. The memory budget cannot deadlock: after every command the writer has
  acknowledged, the permits it still holds leave room for a chunk of the largest size
  a producer may ask for.\<close>

theorem writer_budget_progress:
  assumes "wr_good w" "0 < bytes" "cache_high_watermark w = watermark (memory_budget_new bytes)" "cmd_ok w cmd"
    "handle flt cmd w = (Inr ack, w')"
  shows "sum_list (map snd (permits w')) + max_chunk (memory_budget_new bytes) \<le> bytes"
proof -
  note H = handle_ok [OF assms(1,4,5)]
  have inv: "wr_inv w'" "permits_ok w'" "buffered w' < watermark (memory_budget_new bytes)"
    using H assms(3) by (simp_all add: wr_good_def)
  have "sum_list (map snd (permits w')) < max (bytes div 2) 1"
    using permits_le_buffered [OF inv(1,2)] inv(3) by (simp add: memory_budget_new_def)
  moreover have "max_chunk (memory_budget_new bytes) \<le> bytes - bytes div 2"
    by (simp add: memory_budget_new_def div_ceil_2)
  ultimately show ?thesis using assms(2) by linarith
qed

theorem writer_budget_progress_witness:
  "let w = writer_new blank_disk 8; cmd = Data 4 [1, 2] (Some 2) None; w' = snd (handle (\<lambda>_. None) cmd w)
   in sum_list (map snd (permits w')) + max_chunk (memory_budget_new 16) \<le> 16"
proof -
  let ?w = "writer_new blank_disk 8" and ?cmd = "Data 4 [1, 2] (Some 2) None"
  have "handle (\<lambda>_. None) ?cmd ?w = (Inr NoAck, snd (handle (\<lambda>_. None) ?cmd ?w))"
    by (simp add: settle_before_def push_permit_def store_data_def buffer_single_def flush_at_watermark_def
      writer_new_def cache_new_def single_bytes_def SINGLE_LIMIT_def)
  moreover have "cmd_ok ?w ?cmd" using writer_new_free by (simp add: permit_for_def u64_max_def)
  moreover have "cache_high_watermark ?w = watermark (memory_budget_new 16)"
    by (simp add: writer_new_def memory_budget_new_def)
  ultimately show ?thesis
    using writer_budget_progress [OF writer_new_good [of 8 blank_disk], of 16 ?cmd] by (simp only: Let_def)
qed

end
