(* ===== verification/Http_Range.thy ===== *)
theory Http_Range
  imports Error_Model
begin

text \<open>
  Range requests and the answers to them: the requests of \<open>src/http/request.rs\<close>, the
  response metadata of \<open>src/http/response.rs\<close> with its \<open>Content-Range\<close> parser, and
  the validation of \<open>src/session/range_validate.rs\<close> that decides whether the body of
  a response may be written at the place it was asked for.  A header map is a lookup
  by lower-case name that yields the values \<open>to_str\<close> accepts.
\<close>

section \<open>Requests\<close>

record http_request =
  rq_method :: string
  rq_uri :: string
  rq_headers :: "(string \<times> string) list"

definition build_get_request :: "string \<Rightarrow> (string \<times> string) list \<Rightarrow> http_request" where
  "build_get_request url hdrs = \<lparr>rq_method = ''GET'', rq_uri = url, rq_headers = hdrs\<rparr>"

definition range_header_value :: "nat \<Rightarrow> nat \<Rightarrow> string" where
  "range_header_value start end' = ''bytes='' @ show_nat start @ ''-'' @ show_nat end'"

definition build_range_request ::
  "string \<Rightarrow> (string \<times> string) list \<Rightarrow> nat \<Rightarrow> nat \<Rightarrow> http_request" where
  "build_range_request url hdrs start end' =
     \<lparr>rq_method = ''GET'', rq_uri = url,
      rq_headers = [(''Range'', range_header_value start end'), (''Accept-Encoding'', ''identity'')] @ hdrs\<rparr>"

section \<open>Response metadata\<close>

record response_meta =
  content_length :: "nat option"
  content_range_start :: "nat option"
  content_range_end :: "nat option"
  content_range_total :: "nat option"
  accept_ranges :: bool
  etag :: "string option"
  last_modified :: "string option"
  content_disposition :: "string option"
  content_encoding :: "string option"

definition parse_content_range :: "string \<Rightarrow> (nat option \<times> nat option \<times> nat option) option" where
  "parse_content_range s =
     Option.bind (strip_prefix ''bytes '' (trim s)) (\<lambda>rest.
     Option.bind (split_once (CHR ''/'') rest) (\<lambda>(range_part, total_part).
     Option.bind (split_once (CHR ''-'') range_part) (\<lambda>(start, end').
     Option.bind (parse_u64 (trim start)) (\<lambda>start.
     Option.bind (parse_u64 (trim end')) (\<lambda>end'.
       if total_part = ''*'' then Some (Some start, Some end', None)
       else Some (Some start, Some end', parse_u64 (trim total_part)))))))"

definition from_parts :: "headers \<Rightarrow> nat option \<Rightarrow> response_meta" where
  "from_parts hdrs content_length_override =
     (case (case Option.bind (hdrs ''content-range'') parse_content_range of
              Some t \<Rightarrow> t | None \<Rightarrow> (None, None, None)) of
        (crs, cre, crt) \<Rightarrow>
          \<lparr>content_length =
             (case content_length_override of
                Some n \<Rightarrow> Some n
              | None \<Rightarrow> Option.bind (hdrs ''content-length'') parse_u64),
           content_range_start = crs, content_range_end = cre, content_range_total = crt,
           accept_ranges =
             (case hdrs ''accept-ranges'' of
                Some v \<Rightarrow> eq_ignore_ascii_case v ''bytes'' | None \<Rightarrow> False),
           etag = hdrs ''etag'', last_modified = hdrs ''last-modified'',
           content_disposition = hdrs ''content-disposition'',
           content_encoding = hdrs ''content-encoding''\<rparr>)"

section \<open>Validation\<close>

datatype range_validation_mode = FreshProbe | ResumeProbe | Segment

record expected_range =
  er_start :: nat
  er_end_inclusive :: nat
  er_total_size :: "nat option"

datatype fresh_range_fallback_reason = RangeNotSupported | EncodedResponse

datatype range_validation_decision = Accept | FallbackToSingle fresh_range_fallback_reason

definition mismatched_content_range_error :: download_error where
  "mismatched_content_range_error = ResumeMismatch ''server returned a mismatched Content-Range''"

definition range_response_allowed :: "response_meta \<Rightarrow> bool" where
  "range_response_allowed meta =
     (case content_encoding meta of
        Some encoding \<Rightarrow> eq_ignore_ascii_case encoding ''identity''
      | None \<Rightarrow> True)"

definition validate_range_status ::
  "nat \<Rightarrow> string option \<Rightarrow> range_validation_mode \<Rightarrow> range_validation_decision dl_result" where
  "validate_range_status status retry_after_header mode =
     (if status = 200
      then (case mode of
              FreshProbe \<Rightarrow> Inr (FallbackToSingle RangeNotSupported)
            | _ \<Rightarrow> Inl (HttpStatus 200 ''server returned 200 instead of 206; Range not supported''))
      else if status = 429 \<or> status = 503
      then let retry_after = Option.bind retry_after_header (\<lambda>value. parse_u64 (trim value));
               message = (case retry_after of
                            Some secs \<Rightarrow> ''retry-after:'' @ show_nat secs
                          | None \<Rightarrow> ''HTTP '' @ show_nat status)
           in Inl (HttpStatus status message)
      else if status \<noteq> 206
      then Inl (HttpStatus status
             (case mode of
                FreshProbe \<Rightarrow> ''expected 206 or 200, got '' @ show_nat status
              | _ \<Rightarrow> ''expected 206, got '' @ show_nat status))
      else Inr Accept)"

definition resolve_response_total ::
  "response_meta \<Rightarrow> range_validation_mode \<Rightarrow> nat option \<Rightarrow> nat dl_result" where
  "resolve_response_total meta mode expected_total_size =
     (case mode of
        FreshProbe \<Rightarrow>
          (case content_range_total meta of
             Some t \<Rightarrow> Inr t
           | None \<Rightarrow> Inl (ResumeMismatch ''range probe response missing Content-Range total''))
      | _ \<Rightarrow>
          (case expected_total_size of
             None \<Rightarrow> Inl mismatched_content_range_error
           | Some expected \<Rightarrow>
               (case content_range_total meta of
                  Some actual \<Rightarrow> if actual = expected then Inr actual else Inl mismatched_content_range_error
                | None \<Rightarrow> Inl mismatched_content_range_error)))"

definition resolve_expected_end ::
  "expected_range \<Rightarrow> nat \<Rightarrow> range_validation_mode \<Rightarrow> nat option" where
  "resolve_expected_end expected response_total mode =
     (case mode of
        FreshProbe \<Rightarrow>
          Option.bind (checked_sub_u64 response_total 1) (\<lambda>last_byte.
            if last_byte < er_start expected then None
            else Some (min (er_end_inclusive expected) last_byte))
      | _ \<Rightarrow> Some (er_end_inclusive expected))"

definition validate_range_response ::
  "nat \<Rightarrow> string option \<Rightarrow> response_meta \<Rightarrow> range_validation_mode \<Rightarrow> expected_range \<Rightarrow>
    range_validation_decision dl_result" where
  "validate_range_response status retry_after_header meta mode expected =
     (case validate_range_status status retry_after_header mode of
        Inl e \<Rightarrow> Inl e
      | Inr (FallbackToSingle r) \<Rightarrow> Inr (FallbackToSingle r)
      | Inr Accept \<Rightarrow>
          if \<not> range_response_allowed meta
          then (case mode of
                  FreshProbe \<Rightarrow> Inr (FallbackToSingle EncodedResponse)
                | _ \<Rightarrow> Inl (ResumeMismatch ''range responses with content-encoding are not supported''))
          else case resolve_response_total meta mode (er_total_size expected) of
            Inl e \<Rightarrow> Inl e
          | Inr response_total \<Rightarrow>
              (case resolve_expected_end expected response_total mode of
                 None \<Rightarrow> Inl mismatched_content_range_error
               | Some expected_end \<Rightarrow>
                   if content_range_start meta \<noteq> Some (er_start expected) \<or>
                      content_range_end meta \<noteq> Some expected_end
                   then Inl mismatched_content_range_error
                   else case Option.bind (checked_sub_u64 expected_end (er_start expected))
                               (\<lambda>len. checked_add_u64 len 1) of
                          None \<Rightarrow> Inl mismatched_content_range_error
                        | Some expected_len \<Rightarrow>
                            if (case content_length meta of
                                  Some n \<Rightarrow> n \<noteq> expected_len | None \<Rightarrow> False)
                            then (case mode of
                                    Segment \<Rightarrow>
                                      Inl (Transport \<lparr>te_kind = Body, te_source =
                                        ''server returned a mismatched Content-Length for range response''\<rparr>)
                                  | _ \<Rightarrow>
                                      Inl (ResumeMismatch
                                        ''server returned a mismatched Content-Length for range response''))
                            else Inr Accept))"

section \<open>Facts\<close>

text \<open>The end a response has to announce.\<close>

definition announced_end :: "range_validation_mode \<Rightarrow> expected_range \<Rightarrow> nat \<Rightarrow> nat" where
  "announced_end mode expected ctotal =
     (if mode = FreshProbe then min (er_end_inclusive expected) (ctotal - 1) else er_end_inclusive expected)"

definition range_answer_ok ::
  "nat \<Rightarrow> response_meta \<Rightarrow> range_validation_mode \<Rightarrow> expected_range \<Rightarrow> bool" where
  "range_answer_ok status meta mode expected \<longleftrightarrow>
     status = 206 \<and> range_response_allowed meta \<and>
     (\<exists>ctotal. content_range_total meta = Some ctotal \<and>
       (mode = FreshProbe \<and> er_start expected < ctotal \<or>
        mode \<noteq> FreshProbe \<and> er_total_size expected = Some ctotal) \<and>
       content_range_start meta = Some (er_start expected) \<and>
       content_range_end meta = Some (announced_end mode expected ctotal) \<and>
       er_start expected \<le> announced_end mode expected ctotal \<and>
       announced_end mode expected ctotal - er_start expected < u64_max \<and>
       (\<forall>n. content_length meta = Some n \<longrightarrow> n = announced_end mode expected ctotal - er_start expected + 1))"

lemma status_accept_iff:
  "validate_range_status status ra mode = Inr Accept \<longleftrightarrow> status = 206"
  by (cases mode) (auto simp: validate_range_status_def Let_def)

lemma status_fallback_iff:
  "validate_range_status status ra mode = Inr (FallbackToSingle r) \<longleftrightarrow>
     mode = FreshProbe \<and> status = 200 \<and> r = RangeNotSupported"
  by (cases mode) (auto simp: validate_range_status_def Let_def)

lemma resolve_total_iff:
  "resolve_response_total meta mode tot = Inr t \<longleftrightarrow>
     content_range_total meta = Some t \<and> (mode = FreshProbe \<or> tot = Some t)"
  by (cases mode) (auto simp: resolve_response_total_def split: option.splits if_splits)

lemma resolve_end_iff:
  "resolve_expected_end expected t mode = Some e \<longleftrightarrow>
     e = announced_end mode expected t \<and> (mode = FreshProbe \<longrightarrow> er_start expected < t)"
  by (cases mode) (auto simp: resolve_expected_end_def announced_end_def checked_sub_u64_def)

lemma range_len_iff:
  "Option.bind (checked_sub_u64 e s) (\<lambda>len. checked_add_u64 len 1) = Some n \<longleftrightarrow>
     s \<le> e \<and> e - s < u64_max \<and> n = e - s + 1"
  by (auto simp: checked_sub_u64_def checked_add_u64_def)

lemma validate_206:
  assumes "status = 206" "range_response_allowed meta"
  shows "validate_range_response status ra meta mode expected = Inr Accept \<longleftrightarrow>
    (\<exists>t e n. resolve_response_total meta mode (er_total_size expected) = Inr t \<and>
      resolve_expected_end expected t mode = Some e \<and>
      content_range_start meta = Some (er_start expected) \<and> content_range_end meta = Some e \<and>
      Option.bind (checked_sub_u64 e (er_start expected)) (\<lambda>len. checked_add_u64 len 1) = Some n \<and>
      (content_length meta = None \<or> content_length meta = Some n))"
proof -
  have s: "validate_range_status status ra mode = Inr Accept" using assms(1) status_accept_iff by simp
  show ?thesis
    unfolding validate_range_response_def s
    by (cases mode) (auto simp: assms(2) split: option.split sum.split)
qed

lemma validate_rejects:
  assumes "status \<noteq> 206 \<or> \<not> range_response_allowed meta"
  shows "validate_range_response status ra meta mode expected \<noteq> Inr Accept"
  using assms status_accept_iff [of status ra mode]
  by (cases mode) (auto simp: validate_range_response_def split: sum.splits range_validation_decision.splits)

lemma validate_accept_iff:
  "validate_range_response status ra meta mode expected = Inr Accept \<longleftrightarrow> range_answer_ok status meta mode expected"
proof (cases "status = 206 \<and> range_response_allowed meta")
  case True
  show ?thesis
    using True unfolding validate_206 [OF conjunct1 [OF True] conjunct2 [OF True]] range_answer_ok_def
      resolve_total_iff resolve_end_iff range_len_iff
    by (cases mode; cases "content_length meta") auto
next
  case False
  then have "validate_range_response status ra meta mode expected \<noteq> Inr Accept"
    using validate_rejects by blast
  then show ?thesis using False by (auto simp: range_answer_ok_def)
qed

lemma validate_fallback_iff:
  "validate_range_response status ra meta mode expected = Inr (FallbackToSingle r) \<longleftrightarrow>
     mode = FreshProbe \<and> (status = 200 \<and> r = RangeNotSupported \<or>
       status = 206 \<and> \<not> range_response_allowed meta \<and> r = EncodedResponse)"
proof (cases "status = 206 \<and> range_response_allowed meta")
  case True
  then show ?thesis using status_accept_iff [of status ra mode]
    by (cases mode) (auto simp: validate_range_response_def split: sum.split option.split)
next
  case False
  then show ?thesis by (cases mode)
    (auto simp: validate_range_response_def validate_range_status_def Let_def split: option.split)
qed

lemma show_nat_free: "\<not> is_ascii_digit c \<Longrightarrow> c \<notin> set (show_nat n)"
  using show_nat_digits by blast

lemma digit_separators: "\<not> is_ascii_digit (CHR ''/'')" "\<not> is_ascii_digit (CHR ''-'')"
  by (simp_all add: is_ascii_digit_def char_code_def)

lemma show_nat_ends: "\<not> is_ascii_ws (hd (show_nat n))" "\<not> is_ascii_ws (last (show_nat n))"
  using show_nat_digits digit_not_ws by (meson hd_in_set last_in_set show_nat_not_Nil)+

definition content_range_value :: "nat \<Rightarrow> nat \<Rightarrow> nat \<Rightarrow> string" where
  "content_range_value s e t = ''bytes '' @ show_nat s @ ''-'' @ show_nat e @ ''/'' @ show_nat t"

lemma content_range_split:
  "split_once (CHR ''/'') (show_nat s @ ''-'' @ show_nat e @ ''/'' @ show_nat t) =
     Some (show_nat s @ ''-'' @ show_nat e, show_nat t)"
  "split_once (CHR ''-'') (show_nat s @ ''-'' @ show_nat e) = Some (show_nat s, show_nat e)"
  using show_nat_free [OF digit_separators(1)] show_nat_free [OF digit_separators(2)]
  by (simp_all add: split_once_Some)

section \<open>Properties\<close>

text \<open>C25. A range response is accepted exactly when it is a 206 without content
  encoding that announces precisely the requested range of a file of the expected
  size, with a matching length if it gives one; only a fresh probe may shorten the
  range to the end of the file, and only a fresh probe may fall back to a single
  connection, on a 200 or on an encoded body.\<close>

theorem validate_range_exact:
  "(validate_range_response status ra meta mode expected = Inr Accept \<longleftrightarrow>
      range_answer_ok status meta mode expected) \<and>
   (validate_range_response status ra meta mode expected = Inr (FallbackToSingle r) \<longleftrightarrow>
      mode = FreshProbe \<and> (status = 200 \<and> r = RangeNotSupported \<or>
        status = 206 \<and> \<not> range_response_allowed meta \<and> r = EncodedResponse))"
  using validate_accept_iff validate_fallback_iff by blast

text \<open>Printing a \<open>Content-Range\<close> value and parsing it back, with white space
  around it, recovers the three numbers.\<close>

theorem content_range_roundtrip:
  assumes "s \<le> u64_max" "e \<le> u64_max" "t \<le> u64_max"
  shows "parse_content_range ('' '' @ content_range_value s e t @ '' '') = Some (Some s, Some e, Some t)"
proof -
  let ?v = "content_range_value s e t"
  have "last ?v = last (show_nat t)" "hd ?v = CHR ''b''" by (simp_all add: content_range_value_def)
  then have "trim ('' '' @ ?v @ '' '') = ?v"
    using show_nat_ends(2) [of t]
    by (intro trim_pad) (auto simp: content_range_value_def is_ascii_ws_def char_code_def)
  moreover have "strip_prefix ''bytes '' ?v = Some (show_nat s @ ''-'' @ show_nat e @ ''/'' @ show_nat t)"
    unfolding content_range_value_def by (rule strip_prefix_append)
  moreover have "show_nat t \<noteq> ''*''"
    using show_nat_digits [of t] by (auto simp: is_ascii_digit_def char_code_def)
  ultimately show ?thesis
    unfolding parse_content_range_def using assms
    by (simp only: Option.bind.simps prod.case content_range_split trim_show_nat parse_show_nat if_False)
qed

theorem content_range_roundtrip_witness:
  "parse_content_range ('' '' @ content_range_value 0 99 1000 @ '' '') = Some (Some 0, Some 99, Some 1000)"
  by (rule content_range_roundtrip) (simp_all add: u64_max_def)
end
