(* ===== verification/Http_Worker.thy ===== *)
theory Http_Worker
  imports Http_Range "HOL-Library.AList"
begin

text \<open>
  The HTTP worker of \<open>src/http/worker.rs\<close>: sending a request with its counters,
  following up to ten redirects, remembering the final URL, and resolving the
  original URL again when a remembered target has gone stale.  The \<open>url\<close> crate and
  the transport below the worker are parameters: a \<open>url_api\<close> and a function that
  answers a request and changes the world.
\<close>

section \<open>Parameters\<close>

datatype url_parse_error = RelativeUrlWithoutBase | OtherUrlError string

record 'u url_api =
  url_parse :: "string \<Rightarrow> url_parse_error + 'u"
  url_join :: "'u \<Rightarrow> string \<Rightarrow> url_parse_error + 'u"
  url_scheme :: "'u \<Rightarrow> string"
  url_text :: "'u \<Rightarrow> string"
  url_error_text :: "url_parse_error \<Rightarrow> string"

record 'b http_response =
  rs_status :: nat
  rs_headers :: headers
  rs_body :: 'b

text \<open>The request extensions the transport reads.\<close>

record request_extensions =
  ext_body_budget :: "nat option"
  ext_connect_timeout :: nat
  ext_trace_id :: nat

type_synonym ('b, 'w) transport =
  "request_extensions \<Rightarrow> nat \<Rightarrow> http_request \<Rightarrow> 'w \<Rightarrow> 'b http_response dl_result \<times> 'w"

section \<open>State\<close>

record http_worker =
  hw_url :: string
  hw_headers :: "(string \<times> string) list"
  hw_timeout :: nat
  hw_connect_timeout :: nat
  hw_body_budget :: "nat option"

record 'w http_state =
  final_url_cell :: "string option"
  ctr_started :: nat
  ctr_headers :: nat
  ctr_successful_status :: nat
  ctr_redirects :: nat
  next_request_id :: nat
  world :: 'w

definition is_success :: "nat \<Rightarrow> bool" where
  "is_success status \<longleftrightarrow> 200 \<le> status \<and> status < 300"

definition is_redirection :: "nat \<Rightarrow> bool" where
  "is_redirection status \<longleftrightarrow> 300 \<le> status \<and> status < 400"

definition with_validator :: "http_worker \<Rightarrow> string \<Rightarrow> http_worker" where
  "with_validator h etag_value =
     h\<lparr>hw_headers := AList.update ''if-match'' etag_value (hw_headers h)\<rparr>"

definition with_body_budget :: "http_worker \<Rightarrow> nat \<Rightarrow> http_worker" where
  "with_body_budget h bytes = h\<lparr>hw_body_budget := Some bytes\<rparr>"

section \<open>Sending\<close>

definition send_request ::
  "('b, 'w) transport \<Rightarrow> http_worker \<Rightarrow> http_request \<Rightarrow> 'w http_state \<Rightarrow>
    'b http_response dl_result \<times> 'w http_state" where
  "send_request tr h req s =
     (let ext = \<lparr>ext_body_budget = hw_body_budget h, ext_connect_timeout = hw_connect_timeout h,
                 ext_trace_id = next_request_id s\<rparr>;
          s1 = s\<lparr>next_request_id := add_u64 (next_request_id s) 1, ctr_started := add_u64 (ctr_started s) 1\<rparr>
      in case tr ext (hw_timeout h) req (world s) of
           (Inl e, w') \<Rightarrow> (Inl e, s1\<lparr>world := w'\<rparr>)
         | (Inr response, w') \<Rightarrow>
             (Inr response,
              s1\<lparr>world := w', ctr_headers := add_u64 (ctr_headers s) 1,
                 ctr_successful_status :=
                   (if is_success (rs_status response) then add_u64 (ctr_successful_status s) 1
                    else ctr_successful_status s),
                 ctr_redirects :=
                   (if is_redirection (rs_status response) then add_u64 (ctr_redirects s) 1
                    else ctr_redirects s)\<rparr>))"

section \<open>URLs\<close>

definition quoted :: "string \<Rightarrow> string" where
  "quoted s = [CHR 0x27] @ s @ [CHR 0x27]"

definition validate_redirect_target :: "'u url_api \<Rightarrow> 'u \<Rightarrow> 'u dl_result" where
  "validate_redirect_target api u =
     (if url_scheme api u = ''http'' \<or> url_scheme api u = ''https'' then Inr u
      else Inl (InvalidConfig
        (''redirect target '' @ quoted (url_text api u) @ '' must use http or https'')))"

definition parse_download_url :: "'u url_api \<Rightarrow> string \<Rightarrow> string dl_result" where
  "parse_download_url api url =
     (case url_parse api url of
        Inl err \<Rightarrow> Inl (InvalidConfig
          (''invalid download URL '' @ quoted url @ '': '' @ url_error_text api err))
      | Inr u \<Rightarrow>
          (case validate_redirect_target api u of Inl e \<Rightarrow> Inl e | Inr v \<Rightarrow> Inr (url_text api v)))"

definition resolve_redirect_target :: "'u url_api \<Rightarrow> string \<Rightarrow> string \<Rightarrow> string dl_result" where
  "resolve_redirect_target api current_url location =
     (case url_parse api current_url of
        Inl err \<Rightarrow> Inl (InvalidConfig
          (''invalid redirect base URL '' @ quoted current_url @ '': '' @ url_error_text api err))
      | Inr base \<Rightarrow>
          (case (case url_parse api location of
                   Inr u \<Rightarrow> Inr u
                 | Inl RelativeUrlWithoutBase \<Rightarrow>
                     (case url_join api base location of
                        Inr u \<Rightarrow> Inr u
                      | Inl err \<Rightarrow> Inl (InvalidConfig
                          (''invalid redirect location '' @ quoted location @ '' from '' @
                           quoted current_url @ '': '' @ url_error_text api err)))
                 | Inl (OtherUrlError t) \<Rightarrow> Inl (InvalidConfig
                     (''invalid redirect location '' @ quoted location @ '': '' @
                      url_error_text api (OtherUrlError t)))) of
             Inl e \<Rightarrow> Inl e
           | Inr target \<Rightarrow>
               (case validate_redirect_target api target of
                  Inl e \<Rightarrow> Inl e | Inr v \<Rightarrow> Inr (url_text api v))))"

definition redirect_location :: "'u url_api \<Rightarrow> string \<Rightarrow> headers \<Rightarrow> nat \<Rightarrow> string dl_result" where
  "redirect_location api current_url hdrs status =
     (case hdrs ''location'' of
        None \<Rightarrow> Inl (HttpStatus status ''redirect response missing Location header'')
      | Some location \<Rightarrow> resolve_redirect_target api current_url location)"

definition too_many_redirects_error :: download_error where
  "too_many_redirects_error = HttpStatus 508 ''too many redirects''"

section \<open>Following redirects\<close>

text \<open>The bodies of the \<open>for _ in 0..10\<close> loops, by the number of rounds left.\<close>

fun get_rounds ::
  "(nat \<Rightarrow> string option) \<Rightarrow> 'u url_api \<Rightarrow> ('b, 'w) transport \<Rightarrow> http_worker \<Rightarrow> nat \<Rightarrow> string \<Rightarrow>
    'w http_state \<Rightarrow> ('b http_response \<times> response_meta) dl_result \<times> 'w http_state" where
  "get_rounds reason api tr h 0 current s = (Inl too_many_redirects_error, s)"
| "get_rounds reason api tr h (Suc n) current s =
     (case send_request tr h (build_get_request current (hw_headers h)) s of
        (Inl e, s1) \<Rightarrow> (Inl e, s1)
      | (Inr response, s1) \<Rightarrow>
          if is_redirection (rs_status response)
          then (case redirect_location api current (rs_headers response) (rs_status response) of
                  Inl e \<Rightarrow> (Inl e, s1)
                | Inr next_url \<Rightarrow> get_rounds reason api tr h n next_url s1)
          else
            let s2 = s1\<lparr>final_url_cell := Some current\<rparr>
            in if \<not> is_success (rs_status response)
               then (Inl (make_http_error reason (rs_headers response) (rs_status response)), s2)
               else (Inr (response, from_parts (rs_headers response) None), s2))"

definition send_get_following_redirects where
  "send_get_following_redirects reason api tr h start_url s =
     (case parse_download_url api start_url of
        Inl e \<Rightarrow> (Inl e, s)
      | Inr current \<Rightarrow> get_rounds reason api tr h 10 current s)"

fun range_rounds ::
  "(nat \<Rightarrow> string option) \<Rightarrow> 'u url_api \<Rightarrow> ('b, 'w) transport \<Rightarrow> http_worker \<Rightarrow> nat \<Rightarrow> nat \<Rightarrow> nat \<Rightarrow>
    string \<Rightarrow> 'w http_state \<Rightarrow> ('b http_response \<times> response_meta) dl_result \<times> 'w http_state" where
  "range_rounds reason api tr h start end' 0 current s = (Inl too_many_redirects_error, s)"
| "range_rounds reason api tr h start end' (Suc n) current s =
     (case send_request tr h (build_range_request current (hw_headers h) start end') s of
        (Inl e, s1) \<Rightarrow> (Inl e, s1)
      | (Inr response, s1) \<Rightarrow>
          if is_redirection (rs_status response)
          then (case redirect_location api current (rs_headers response) (rs_status response) of
                  Inl e \<Rightarrow> (Inl e, s1)
                | Inr next_url \<Rightarrow> range_rounds reason api tr h start end' n next_url s1)
          else
            let s2 = s1\<lparr>final_url_cell := Some current\<rparr>
            in if rs_status response = 200
               then (Inr (response, from_parts (rs_headers response) None), s2)
               else if rs_status response \<noteq> 206
               then (Inl (make_http_error reason (rs_headers response) (rs_status response)), s2)
               else (Inr (response, from_parts (rs_headers response) None), s2))"

definition send_range_following_redirects where
  "send_range_following_redirects reason api tr h start_url start end' s =
     (case parse_download_url api start_url of
        Inl e \<Rightarrow> (Inl e, s)
      | Inr current \<Rightarrow> range_rounds reason api tr h start end' 10 current s)"

fun resolve_rounds ::
  "'u url_api \<Rightarrow> ('b, 'w) transport \<Rightarrow> http_worker \<Rightarrow> nat \<Rightarrow> string \<Rightarrow> 'w http_state \<Rightarrow>
    string dl_result \<times> 'w http_state" where
  "resolve_rounds api tr h 0 current s = (Inl too_many_redirects_error, s)"
| "resolve_rounds api tr h (Suc n) current s =
     (case send_request tr h (build_get_request current (hw_headers h)) s of
        (Inl e, s1) \<Rightarrow> (Inl e, s1)
      | (Inr response, s1) \<Rightarrow>
          if \<not> is_redirection (rs_status response) then (Inr current, s1)
          else case redirect_location api current (rs_headers response) (rs_status response) of
                 Inl e \<Rightarrow> (Inl e, s1)
               | Inr next_url \<Rightarrow> resolve_rounds api tr h n next_url s1)"

definition resolve_redirects where
  "resolve_redirects api tr h url s =
     (case parse_download_url api url of
        Inl e \<Rightarrow> (Inl e, s)
      | Inr current \<Rightarrow> resolve_rounds api tr h 10 current s)"

section \<open>Entry points\<close>

definition final_url where
  "final_url api tr h s =
     (case final_url_cell s of
        Some url \<Rightarrow> (Inr url, s)
      | None \<Rightarrow>
          (case resolve_redirects api tr h (hw_url h) s of
             (Inl e, s1) \<Rightarrow> (Inl e, s1)
           | (Inr resolved, s1) \<Rightarrow> (Inr resolved, s1\<lparr>final_url_cell := Some resolved\<rparr>)))"

definition start_url :: "http_worker \<Rightarrow> 'w http_state \<Rightarrow> string" where
  "start_url h s = (case final_url_cell s of Some url \<Rightarrow> url | None \<Rightarrow> hw_url h)"

definition send_get where
  "send_get reason api tr h s =
     (let can_refresh = (start_url h s \<noteq> hw_url h)
      in case send_get_following_redirects reason api tr h (start_url h s) s of
           (Inl e, s1) \<Rightarrow>
             if can_refresh \<and> is_stale_redirect_target_error e
             then send_get_following_redirects reason api tr h (hw_url h) (s1\<lparr>final_url_cell := None\<rparr>)
             else (Inl e, s1)
         | (Inr r, s1) \<Rightarrow> (Inr r, s1))"

definition send_range where
  "send_range reason api tr h start end' s =
     (let can_refresh = (start_url h s \<noteq> hw_url h)
      in case send_range_following_redirects reason api tr h (start_url h s) start end' s of
           (Inl e, s1) \<Rightarrow>
             if can_refresh \<and> is_stale_redirect_target_error e
             then send_range_following_redirects reason api tr h (hw_url h) start end'
                    (s1\<lparr>final_url_cell := None\<rparr>)
             else (Inl e, s1)
         | (Inr r, s1) \<Rightarrow> (Inr r, s1))"

section \<open>Facts\<close>

definition http_url :: "'u url_api \<Rightarrow> string \<Rightarrow> bool" where
  "http_url api text' \<longleftrightarrow> (\<exists>u. text' = url_text api u \<and> (url_scheme api u = ''http'' \<or> url_scheme api u = ''https''))"

lemma validate_target_ok:
  "validate_redirect_target api u = Inr v \<Longrightarrow> http_url api (url_text api v)"
  by (auto simp: validate_redirect_target_def http_url_def split: if_splits)

lemma parse_url_ok: "parse_download_url api url = Inr c \<Longrightarrow> http_url api c"
  using validate_target_ok by (fastforce simp: parse_download_url_def split: sum.splits)

lemma redirect_ok: "redirect_location api c hdrs st = Inr n \<Longrightarrow> http_url api n"
  using validate_target_ok
  by (fastforce simp: redirect_location_def resolve_redirect_target_def
    split: option.splits sum.splits url_parse_error.splits)

lemma send_request_cases:
  obtains e w' where "tr (request_extensions.make (hw_body_budget h) (hw_connect_timeout h) (next_request_id s))
      (hw_timeout h) req (world s) = (Inl e, w')" "fst (send_request tr h req s) = Inl e"
      "world (snd (send_request tr h req s)) = w'"
  | r w' where "tr (request_extensions.make (hw_body_budget h) (hw_connect_timeout h) (next_request_id s))
      (hw_timeout h) req (world s) = (Inr r, w')" "fst (send_request tr h req s) = Inr r"
      "world (snd (send_request tr h req s)) = w'"
  by (cases "tr (request_extensions.make (hw_body_budget h) (hw_connect_timeout h) (next_request_id s))
        (hw_timeout h) req (world s)"; cases "fst (tr (request_extensions.make (hw_body_budget h)
        (hw_connect_timeout h) (next_request_id s)) (hw_timeout h) req (world s))")
    (auto simp: send_request_def request_extensions.make_def Let_def)

text \<open>A relation on worlds that every request to an \<open>http(s)\<close> URL satisfies is
  satisfied by the iterated exchange; \<open>R k\<close> relates the worlds before and after at
  most \<open>k\<close> requests.\<close>

definition exchange :: "'u url_api \<Rightarrow> ('b, 'w) transport \<Rightarrow> (nat \<Rightarrow> 'w \<Rightarrow> 'w \<Rightarrow> bool) \<Rightarrow> bool" where
  "exchange api tr R \<longleftrightarrow>
     (\<forall>k w. R k w w) \<and> (\<forall>j k w1 w2 w3. R j w1 w2 \<longrightarrow> R k w2 w3 \<longrightarrow> R (j + k) w1 w3) \<and>
     (\<forall>ext t rq w. http_url api (rq_uri rq) \<longrightarrow> R 1 w (snd (tr ext t rq w)))"

lemma exchangeD:
  assumes "exchange api tr R"
  shows "R k w w" "R j w1 w2 \<Longrightarrow> R k w2 w3 \<Longrightarrow> R (j + k) w1 w3"
    "http_url api (rq_uri rq) \<Longrightarrow> R 1 w (snd (tr ext t rq w))"
  using assms unfolding exchange_def by blast+

lemma exchange_send:
  assumes "exchange api tr R" "http_url api (rq_uri req)" "send_request tr h req s = (res, s1)"
  shows "R 1 (world s) (world s1)"
proof (cases rule: send_request_cases [where tr = tr and h = h and s = s and req = req])
  case (1 e w')
  then show ?thesis using exchangeD(3) [OF assms(1,2)] assms(3) by (metis snd_conv)
next
  case (2 r w')
  then show ?thesis using exchangeD(3) [OF assms(1,2)] assms(3) by (metis snd_conv)
qed

lemma exchange_step:
  assumes "exchange api tr R" "R 1 w1 w2" "R n w2 w3"
  shows "R (Suc n) w1 w3"
  using exchangeD(2) [OF assms] by simp

lemma exchange_last:
  assumes "exchange api tr R" "R 1 w1 w2"
  shows "R (Suc n) w1 w2"
  using exchange_step [OF assms exchangeD(1) [OF assms(1)]] .

lemma get_rounds_exchange:
  assumes "exchange api tr R" "http_url api current"
  shows "R n (world s) (world (snd (get_rounds reason api tr h n current s)))"
  using assms(2)
proof (induction n arbitrary: current s)
  case 0
  then show ?case using exchangeD(1) [OF assms(1)] by simp
next
  case (Suc n)
  obtain res s1 where sr: "send_request tr h (build_get_request current (hw_headers h)) s = (res, s1)"
    by (cases "send_request tr h (build_get_request current (hw_headers h)) s")
  have one: "R 1 (world s) (world s1)"
    by (rule exchange_send [OF assms(1) _ sr]) (simp add: build_get_request_def Suc.prems)
  note fin = exchange_last [OF assms(1) one, of n]
  show ?case
  proof (cases res)
    case (Inr response)
    show ?thesis
    proof (cases "is_redirection (rs_status response)")
      case True
      show ?thesis
      proof (cases "redirect_location api current (rs_headers response) (rs_status response)")
        case (Inr nu)
        then show ?thesis using exchange_step [OF assms(1) one Suc.IH [OF redirect_ok [OF Inr]]] sr
            \<open>res = Inr response\<close> True by simp
      qed (use sr Inr True fin in simp)
    qed (use sr Inr fin in \<open>simp add: Let_def\<close>)
  qed (use sr fin in simp)
qed

lemma range_rounds_exchange:
  assumes "exchange api tr R" "http_url api current"
  shows "R n (world s) (world (snd (range_rounds reason api tr h a b n current s)))"
  using assms(2)
proof (induction n arbitrary: current s)
  case 0
  then show ?case using exchangeD(1) [OF assms(1)] by simp
next
  case (Suc n)
  obtain res s1 where sr: "send_request tr h (build_range_request current (hw_headers h) a b) s = (res, s1)"
    by (cases "send_request tr h (build_range_request current (hw_headers h) a b) s")
  have one: "R 1 (world s) (world s1)"
    by (rule exchange_send [OF assms(1) _ sr]) (simp add: build_range_request_def Suc.prems)
  note fin = exchange_last [OF assms(1) one, of n]
  show ?case
  proof (cases res)
    case (Inr response)
    show ?thesis
    proof (cases "is_redirection (rs_status response)")
      case True
      show ?thesis
      proof (cases "redirect_location api current (rs_headers response) (rs_status response)")
        case (Inr nu)
        then show ?thesis using exchange_step [OF assms(1) one Suc.IH [OF redirect_ok [OF Inr]]] sr
            \<open>res = Inr response\<close> True by simp
      qed (use sr Inr True fin in simp)
    qed (use sr Inr fin in \<open>simp add: Let_def\<close>)
  qed (use sr fin in simp)
qed

lemma following_exchange:
  assumes "exchange api tr R"
  shows "R 10 (world s) (world (snd (send_get_following_redirects reason api tr h u s)))"
    and "R 10 (world s) (world (snd (send_range_following_redirects reason api tr h u a b s)))"
  using exchangeD(1) [OF assms] get_rounds_exchange [OF assms parse_url_ok]
    range_rounds_exchange [OF assms parse_url_ok]
  by (cases "parse_download_url api u"; simp add: send_get_following_redirects_def
      send_range_following_redirects_def)+

lemma two_legs:
  assumes "exchange api tr R" "R 10 w1 w2" "R 10 w2 w3"
  shows "R 20 w1 w3" "R 20 w1 w2"
  using exchangeD(2) [OF assms] exchangeD(2) [OF assms(1,2) exchangeD(1) [OF assms(1)], of 10] by simp_all

lemma get_rounds_ok:
  assumes "get_rounds reason api tr h n current s = (Inr (response, meta), s')" "http_url api current"
  shows "is_success (rs_status response) \<and> meta = from_parts (rs_headers response) None \<and>
    (\<exists>c. final_url_cell s' = Some c \<and> http_url api c)"
  using assms
proof (induction n arbitrary: current s)
  case (Suc n)
  then show ?case
    by (auto simp: Let_def split: prod.splits sum.splits if_splits dest: redirect_ok)
qed simp

lemma range_rounds_ok:
  assumes "range_rounds reason api tr h a b n current s = (Inr (response, meta), s')" "http_url api current"
  shows "(rs_status response = 200 \<or> rs_status response = 206) \<and>
    meta = from_parts (rs_headers response) None \<and>
    (\<exists>c. final_url_cell s' = Some c \<and> http_url api c)"
  using assms
proof (induction n arbitrary: current s)
  case (Suc n)
  then show ?case
    by (auto simp: Let_def split: prod.splits sum.splits if_splits dest: redirect_ok)
qed simp

lemma range_following_ok:
  assumes "send_range_following_redirects reason api tr h u a b s = (Inr (response, meta), s')"
  shows "(rs_status response = 200 \<or> rs_status response = 206) \<and>
    meta = from_parts (rs_headers response) None \<and>
    (\<exists>c. final_url_cell s' = Some c \<and> http_url api c)"
proof (cases "parse_download_url api u")
  case (Inr c)
  have "range_rounds reason api tr h a b 10 c s = (Inr (response, meta), s')"
    using assms Inr by (simp add: send_range_following_redirects_def)
  from range_rounds_ok [OF this parse_url_ok [OF Inr]] show ?thesis .
qed (use assms in \<open>simp add: send_range_following_redirects_def\<close>)


text \<open>A transport that keeps a log of what it was asked.\<close>

definition logging :: "('b, 'w) transport \<Rightarrow> ('b, 'w \<times> http_request list) transport" where
  "logging tr ext t rq wl =
     (case tr ext t rq (fst wl) of (r, w') \<Rightarrow> (r, (w', snd wl @ [rq])))"

definition logged :: "'u url_api \<Rightarrow> nat \<Rightarrow> 'w \<times> http_request list \<Rightarrow> 'w \<times> http_request list \<Rightarrow> bool" where
  "logged api k a b \<longleftrightarrow>
     (\<exists>l. snd b = snd a @ l \<and> length l \<le> k \<and> (\<forall>rq \<in> set l. http_url api (rq_uri rq)))"

lemma logging_exchange:
  fixes tr :: "('b, 'w) transport"
  shows "exchange api (logging tr) (logged api)"
  unfolding exchange_def
proof (intro conjI allI impI)
  show "logged api k w w" for k and w :: "'w \<times> http_request list"
    unfolding logged_def by (intro exI [of _ "[]"]) simp
  show "logged api (j + k) w1 w3" if L: "logged api j w1 w2" "logged api k w2 w3"
    for j k and w1 w2 w3 :: "'w \<times> http_request list"
  proof -
    obtain l1 l2 where "snd w2 = snd w1 @ l1" "length l1 \<le> j" "\<forall>rq \<in> set l1. http_url api (rq_uri rq)"
      "snd w3 = snd w2 @ l2" "length l2 \<le> k" "\<forall>rq \<in> set l2. http_url api (rq_uri rq)"
      using L unfolding logged_def by blast
    then show ?thesis unfolding logged_def by (intro exI [of _ "l1 @ l2"]) auto
  qed
  show "logged api 1 w (snd (logging tr ext t rq w))" if "http_url api (rq_uri rq)" for ext t rq w
    unfolding logged_def using that by (intro exI [of _ "[rq]"]) (simp add: logging_def split: prod.split)
qed

lemma send_exchange:
  assumes "exchange api tr R"
  shows "R 20 (world s) (world (snd (send_get reason api tr h s)))"
    and "R 20 (world s) (world (snd (send_range reason api tr h a b s)))"
proof -
  note F = following_exchange [OF assms]
  let ?g = "send_get_following_redirects reason api tr h (start_url h s) s"
  let ?r = "send_range_following_redirects reason api tr h (start_url h s) a b s"
  have g: "R 20 (world s) (world (snd ?g))" "R 20 (world s) (world (snd (send_get_following_redirects
      reason api tr h (hw_url h) ((snd ?g)\<lparr>final_url_cell := None\<rparr>))))"
    using two_legs [OF assms F(1) [of s reason h "start_url h s"]] F(1) [of "(snd ?g)\<lparr>final_url_cell := None\<rparr>"]
      exchangeD(1) [OF assms] by simp_all
  have r: "R 20 (world s) (world (snd ?r))" "R 20 (world s) (world (snd (send_range_following_redirects
      reason api tr h (hw_url h) a b ((snd ?r)\<lparr>final_url_cell := None\<rparr>))))"
    using two_legs [OF assms F(2) [of s reason h "start_url h s" a b]]
      F(2) [of "(snd ?r)\<lparr>final_url_cell := None\<rparr>"] exchangeD(1) [OF assms] by simp_all
  show "R 20 (world s) (world (snd (send_get reason api tr h s)))"
    using g by (cases ?g; cases "fst ?g") (simp_all add: send_get_def Let_def)
  show "R 20 (world s) (world (snd (send_range reason api tr h a b s)))"
    using r by (cases ?r; cases "fst ?r") (simp_all add: send_range_def Let_def)
qed

section \<open>Properties\<close>



end
