(* ===== verification/Session.thy ===== *)
theory Session
  imports Filename Checksum Bincode Flow Http_Worker Piece_Map
begin

text \<open>
  One download task, \<open>src/session/mod.rs\<close> and \<open>src/session/resume.rs\<close>: where the output
  goes, whether a checkpoint can be resumed, which strategy a fresh response selects,
  when checkpoints are written, and the verification at the end.

  The requests of a session (the retry loop over the HTTP worker) and the two transfer
  loops it hands over to are fields of \<open>session_env\<close>; what the session decides and in
  which order it calls them is modelled here.  The file system is that of the control
  file; paths are its strings.
\<close>

section \<open>Checkpoint cadence\<close>

datatype control_save_reason = Autosave | Terminal

definition control_save_label :: "control_save_reason \<Rightarrow> string" where
  "control_save_label r = (case r of Autosave \<Rightarrow> ''autosave'' | Terminal \<Rightarrow> ''terminal'')"

record control_save_tracker =
  last_saved_downloaded_bytes :: nat
  autosave_ticks_since_save :: nat

definition tracker_new :: "nat \<Rightarrow> control_save_tracker" where
  "tracker_new initial_downloaded_bytes =
     \<lparr>last_saved_downloaded_bytes = initial_downloaded_bytes, autosave_ticks_since_save = 0\<rparr>"

definition should_save ::
  "control_save_tracker \<Rightarrow> control_save_reason \<Rightarrow> nat \<Rightarrow> nat \<Rightarrow> bool \<times> control_save_tracker" where
  "should_save t reason current_downloaded_bytes sync_every =
     (if current_downloaded_bytes \<le> last_saved_downloaded_bytes t
      then (False, if reason = Autosave then t\<lparr>autosave_ticks_since_save := 0\<rparr> else t)
      else case reason of
             Autosave \<Rightarrow>
               (let ticks = sat_add_u32 (autosave_ticks_since_save t) 1
                in (sync_every \<le> ticks, t\<lparr>autosave_ticks_since_save := ticks\<rparr>))
           | Terminal \<Rightarrow> (True, t))"

definition mark_saved :: "control_save_tracker \<Rightarrow> nat \<Rightarrow> control_save_tracker" where
  "mark_saved t downloaded_bytes =
     t\<lparr>last_saved_downloaded_bytes := downloaded_bytes, autosave_ticks_since_save := 0\<rparr>"

section \<open>Output paths\<close>

definition is_absolute :: "chars \<Rightarrow> bool" where
  "is_absolute p \<longleftrightarrow> p \<noteq> [] \<and> hd p = 47"

definition resolve_output_dir :: "chars dl_result \<Rightarrow> download_spec \<Rightarrow> chars dl_result" where
  "resolve_output_dir current_dir spec =
     (case current_dir of
        Inl e \<Rightarrow> Inl e
      | Inr cwd \<Rightarrow>
          let dir = (case output_dir spec of Some d \<Rightarrow> ascii d | None \<Rightarrow> cwd)
          in if is_absolute dir then Inr dir else Inr (push_path cwd dir))"

definition resolve_static_output_path :: "chars dl_result \<Rightarrow> download_spec \<Rightarrow> chars option dl_result" where
  "resolve_static_output_path current_dir spec =
     (case output_path spec of
        None \<Rightarrow> Inr None
      | Some p \<Rightarrow>
          if is_absolute (ascii p)
          then (if output_dir spec \<noteq> None
                then Inl (InvalidConfig ''output_path must be relative when output_dir is set'')
                else Inr (Some (ascii p)))
          else case sanitize_relative_path (ascii p) of
                 None \<Rightarrow> Inl (InvalidConfig
                   ''output_path must be a relative path without root prefixes or parent traversal'')
               | Some relative \<Rightarrow>
                   (case resolve_output_dir current_dir spec of
                      Inl e \<Rightarrow> Inl e
                    | Inr dir \<Rightarrow> Inr (Some (push_path dir relative))))"

definition resolve_auto_output_path ::
  "(chars \<Rightarrow> chars list option) \<Rightarrow> chars dl_result \<Rightarrow> download_spec \<Rightarrow> response_meta \<Rightarrow> string \<Rightarrow> chars dl_result" where
  "resolve_auto_output_path path_segments current_dir spec meta request_url =
     (case resolve_output_dir current_dir spec of
        Inl e \<Rightarrow> Inl e
      | Inr dir \<Rightarrow>
          Inr (push_path dir
            (detect_filename path_segments (map_option ascii (content_disposition meta)) (ascii request_url))))"

section \<open>Session environment\<close>

definition http_worker_new :: "(string \<times> string) list \<Rightarrow> download_spec \<Rightarrow> http_worker" where
  "http_worker_new hdrs spec =
     \<lparr>hw_url = spec_url spec, hw_headers = hdrs,
      hw_timeout = (case request_headers_timeout spec of Some t \<Rightarrow> t | None \<Rightarrow> read_timeout spec),
      hw_connect_timeout = get_connect_timeout spec, hw_body_budget = None\<rparr>"

definition session_worker :: "(string \<times> string) list \<Rightarrow> download_spec \<Rightarrow> http_worker" where
  "session_worker hdrs spec =
     with_body_budget (http_worker_new hdrs spec) (for_session (storage_config.memory_budget (storage spec)) 1)"

record 'w session_state =
  sn_fs :: fs
  sn_world :: 'w

record 'b multi_run =
  mr_request_url :: string
  mr_output :: string
  mr_meta :: response_meta
  mr_total_size :: nat
  mr_piece_map :: piece_map
  mr_probe :: "('b http_response \<times> response_meta \<times> nat) option"

record 'b single_run =
  sr_response :: "'b http_response"
  sr_meta :: response_meta
  sr_request_url :: string
  sr_output :: string
  sr_start_offset :: nat
  sr_total_size :: "nat option"

record ('b, 'w) session_env =
  se_range :: "nat \<Rightarrow> nat \<Rightarrow> 'w session_state \<Rightarrow> ('b http_response \<times> response_meta) dl_result \<times> 'w session_state"
  se_get :: "'w session_state \<Rightarrow> ('b http_response \<times> response_meta) dl_result \<times> 'w session_state"
  se_plain_get :: "'w session_state \<Rightarrow> ('b http_response \<times> response_meta) dl_result \<times> 'w session_state"
  se_final_url :: "'w session_state \<Rightarrow> string dl_result \<times> 'w session_state"
  se_run_multi :: "'b multi_run \<Rightarrow> 'w session_state \<Rightarrow> unit dl_result \<times> 'w session_state"
  se_run_single :: "'b single_run \<Rightarrow> 'w session_state \<Rightarrow> unit dl_result \<times> 'w session_state"
  se_load :: "string \<Rightarrow> fs \<Rightarrow> (control_snapshot \<times> control_hints) dl_result"
  se_metadata :: "string \<Rightarrow> fs \<Rightarrow> io_error_kind + nat"
  se_delete_fault :: "io_error_kind option"
  se_current_dir :: "chars dl_result"
  se_path_segments :: "chars \<Rightarrow> chars list option"

definition retry_after_of :: "'b http_response \<Rightarrow> string option" where
  "retry_after_of response = rs_headers response ''retry-after''"

section \<open>Choosing the first request\<close>

datatype fresh_response_source = RangeProbe | FallbackGet

definition should_abort_range_probe_fallback :: "download_error \<Rightarrow> bool" where
  "should_abort_range_probe_fallback err =
     (case err of
        Cancelled \<Rightarrow> True
      | Paused \<Rightarrow> True
      | RetryBudgetExceeded _ _ \<Rightarrow> True
      | HttpStatus status _ \<Rightarrow> status \<in> {429, 500, 502, 503, 504}
      | _ \<Rightarrow> False)"

definition probe_or_fallback_get ::
  "('b, 'w) session_env \<Rightarrow> download_spec \<Rightarrow> 'w session_state \<Rightarrow>
    ('b http_response \<times> response_meta \<times> fresh_response_source) dl_result \<times> 'w session_state" where
  "probe_or_fallback_get env spec s =
     (let fallback = (\<lambda>s. case se_get env s of
                (Inl e, s1) \<Rightarrow> (Inl e, s1)
              | (Inr (resp, meta), s1) \<Rightarrow> (Inr (resp, meta, FallbackGet), s1))
      in if 1 < max_connections spec
         then (case se_range env 0 (sch_piece_size (scheduling spec) - 1) s of
                 (Inr (resp, meta), s1) \<Rightarrow> (Inr (resp, meta, RangeProbe), s1)
               | (Inl e, s1) \<Rightarrow> if should_abort_range_probe_fallback e then (Inl e, s1) else fallback s1)
         else fallback s)"

section \<open>Fresh downloads\<close>

definition range_probe_response_covers_full_file :: "response_meta \<Rightarrow> bool" where
  "range_probe_response_covers_full_file meta =
     (case (content_range_start meta, content_range_end meta, content_range_total meta) of
        (Some start, Some end', Some tsize) \<Rightarrow> start = 0 \<and> checked_add_u64 end' 1 = Some tsize
      | _ \<Rightarrow> False)"

definition single_response_total_size :: "nat \<Rightarrow> response_meta \<Rightarrow> nat option" where
  "single_response_total_size status meta =
     (if status = 206 then content_range_total meta else content_length meta)"

text \<open>What a fresh response selects: many connections with the probe as their first
  body, or one connection with the response to consume.  The \<open>expect\<close> on the total is
  the \<open>TaskFailed\<close> branch.\<close>

datatype 'b fresh_plan = FreshMulti nat | FreshSingle "'b http_response" response_meta

definition choose_fresh ::
  "('b, 'w) session_env \<Rightarrow> download_spec \<Rightarrow> 'b http_response \<Rightarrow> response_meta \<Rightarrow> fresh_response_source \<Rightarrow>
    'w session_state \<Rightarrow> 'b fresh_plan dl_result \<times> 'w session_state" where
  "choose_fresh env spec response meta source s =
     (let refetch = (\<lambda>s. case se_plain_get env s of
                (Inl e, s1) \<Rightarrow> (Inl e, s1)
              | (Inr (r, m), s1) \<Rightarrow> (Inr (FreshSingle r m), s1))
      in if 1 < max_connections spec \<and> source = RangeProbe
         then (case validate_range_response (rs_status response) (retry_after_of response) meta FreshProbe
                      \<lparr>er_start = 0, er_end_inclusive = sch_piece_size (scheduling spec) - 1, er_total_size = None\<rparr> of
                 Inl e \<Rightarrow> (Inl e, s)
               | Inr Accept \<Rightarrow>
                   (case content_range_total meta of
                      None \<Rightarrow> (Inl (TaskFailed ''fresh probe validation requires a total size''), s)
                    | Some tsize \<Rightarrow>
                        if min_split_size (scheduling spec) < tsize then (Inr (FreshMulti tsize), s)
                        else if \<not> range_probe_response_covers_full_file meta then refetch s
                        else (Inr (FreshSingle response meta), s))
               | Inr (FallbackToSingle RangeNotSupported) \<Rightarrow> (Inr (FreshSingle response meta), s)
               | Inr (FallbackToSingle EncodedResponse) \<Rightarrow> refetch s)
         else (Inr (FreshSingle response meta), s))"

definition run_fresh_from_response ::
  "('b, 'w) session_env \<Rightarrow> download_spec \<Rightarrow> string \<Rightarrow> string \<Rightarrow> 'b http_response \<Rightarrow> response_meta \<Rightarrow>
    fresh_response_source \<Rightarrow> 'w session_state \<Rightarrow> string dl_result \<times> 'w session_state" where
  "run_fresh_from_response env spec request_url out response meta source s =
     (case choose_fresh env spec response meta source s of
        (Inl e, s1) \<Rightarrow> (Inl e, s1)
      | (Inr (FreshMulti tsize), s1) \<Rightarrow>
          (case pm_new tsize (sch_piece_size (scheduling spec)) of
             None \<Rightarrow> (Inl (TaskFailed ''attempt to divide by zero''), s1)
           | Some m \<Rightarrow>
               (case se_run_multi env
                       \<lparr>mr_request_url = request_url, mr_output = out, mr_meta = meta, mr_total_size = tsize,
                        mr_piece_map = m, mr_probe = Some (response, meta, 0)\<rparr> s1 of
                  (Inl e, s2) \<Rightarrow> (Inl e, s2)
                | (Inr _, s2) \<Rightarrow> (Inr out, s2)))
      | (Inr (FreshSingle r m), s1) \<Rightarrow>
          (case se_run_single env
                  \<lparr>sr_response = r, sr_meta = m, sr_request_url = request_url, sr_output = out,
                   sr_start_offset = 0, sr_total_size = single_response_total_size (rs_status r) m\<rparr> s1 of
             (Inl e, s2) \<Rightarrow> (Inl e, s2)
           | (Inr _, s2) \<Rightarrow> (Inr out, s2)))"

section \<open>Resuming\<close>

definition map_resume_metadata_error :: "io_error_kind \<Rightarrow> download_error" where
  "map_resume_metadata_error k =
     (if k = NotFound then ResumeMismatch ''local download file is missing'' else Io k '''')"

definition is_multi :: "control_snapshot \<Rightarrow> download_spec \<Rightarrow> bool" where
  "is_multi ctrl spec \<longleftrightarrow> 1 < cs_piece_count ctrl \<and> 1 < max_connections spec"

definition ctrl_piece_map :: "control_snapshot \<Rightarrow> piece_map" where
  "ctrl_piece_map ctrl =
     pm_from_bitset lsb0_from_slice (cs_total_size ctrl) (cs_piece_size ctrl) (cs_completed_bitset ctrl)
       (cs_piece_count ctrl)"

definition validate_local_resume_state ::
  "io_error_kind + nat \<Rightarrow> control_snapshot \<Rightarrow> download_spec \<Rightarrow> unit dl_result" where
  "validate_local_resume_state metadata ctrl spec =
     (case metadata of
        Inl k \<Rightarrow> Inl (map_resume_metadata_error k)
      | Inr actual_len \<Rightarrow>
          let preallocated = (storage_config.file_allocation (storage spec) = Prealloc)
          in if cs_total_size ctrl < cs_downloaded_bytes ctrl
             then Inl (ResumeMismatch ''control file records more bytes than total_size'')
             else if is_multi ctrl spec
             then
               let m = ctrl_piece_map ctrl
               in if cs_downloaded_bytes ctrl < completed_bytes m
                  then Inl (ResumeMismatch ''control file marks more completed bytes than downloaded_bytes'')
                  else if preallocated
                  then (if actual_len \<noteq> cs_total_size ctrl
                        then Inl (ResumeMismatch (''preallocated resume file size mismatch: expected '' @
                               show_nat (cs_total_size ctrl) @ '' bytes, found '' @ show_nat actual_len))
                        else Inr ())
                  else
                    let min_len = (case highest_completed_piece m of Some i \<Rightarrow> snd (piece_range m i) | None \<Rightarrow> 0)
                    in if actual_len < min_len
                       then Inl (ResumeMismatch (''resume file is truncated: expected at least '' @ show_nat min_len @
                              '' bytes from completed pieces, found '' @ show_nat actual_len))
                       else if cs_total_size ctrl < actual_len
                       then Inl (ResumeMismatch (''resume file is larger than expected total size: expected at most '' @
                              show_nat (cs_total_size ctrl) @ '' bytes, found '' @ show_nat actual_len))
                       else if actual_len < cs_downloaded_bytes ctrl
                       then Inl (ResumeMismatch (''control file records '' @ show_nat (cs_downloaded_bytes ctrl) @
                              '' downloaded bytes but local file only has '' @ show_nat actual_len @ '' bytes''))
                       else Inr ()
             else
               let expected_len = (if preallocated then cs_total_size ctrl else cs_downloaded_bytes ctrl)
               in if actual_len \<noteq> expected_len
                  then Inl (ResumeMismatch (''resume file size mismatch: expected '' @ show_nat expected_len @
                         '' bytes, found '' @ show_nat actual_len))
                  else Inr ())"

definition validate_metadata :: "response_meta \<Rightarrow> control_snapshot \<Rightarrow> bool" where
  "validate_metadata meta ctrl \<longleftrightarrow>
     (case content_range_total meta of Some tsize \<Rightarrow> tsize = cs_total_size ctrl | None \<Rightarrow> True) \<and>
     (case cs_etag ctrl of Some expected \<Rightarrow> etag meta = Some expected | None \<Rightarrow> True) \<and>
     (case cs_last_modified ctrl of Some expected \<Rightarrow> last_modified meta = Some expected | None \<Rightarrow> True)"

text \<open>The decision of \<open>try_resume_download\<close>: the probe it sends and what it concludes
  from the answer.\<close>

datatype 'b resume_plan =
    NoCheckpoint
  | Restart
  | ResumeMulti control_snapshot nat "'b http_response" response_meta
  | ResumeSingle control_snapshot "'b http_response" response_meta

definition probe_accepted :: "'b http_response \<Rightarrow> response_meta \<Rightarrow> nat \<Rightarrow> nat \<Rightarrow> control_snapshot \<Rightarrow> bool" where
  "probe_accepted resp meta start end' ctrl \<longleftrightarrow>
     validate_range_response (rs_status resp) (retry_after_of resp) meta ResumeProbe
       \<lparr>er_start = start, er_end_inclusive = end', er_total_size = Some (cs_total_size ctrl)\<rparr> = Inr Accept \<and>
     validate_metadata meta ctrl"

definition plan_resume ::
  "('b, 'w) session_env \<Rightarrow> download_spec \<Rightarrow> string \<Rightarrow> 'w session_state \<Rightarrow> 'b resume_plan \<times> 'w session_state" where
  "plan_resume env spec out s =
     (case (if resume (storage spec)
            then (case se_load env (control_path out) (sn_fs s) of Inr (ctrl, hints) \<Rightarrow> Some ctrl | Inl _ \<Rightarrow> None)
            else None) of
        None \<Rightarrow> (NoCheckpoint, s)
      | Some ctrl \<Rightarrow>
          (case validate_local_resume_state (se_metadata env out (sn_fs s)) ctrl spec of
             Inl _ \<Rightarrow> (Restart, s)
           | Inr _ \<Rightarrow>
               if is_multi ctrl spec
               then (case first_missing (ctrl_piece_map ctrl) of
                       None \<Rightarrow> (Restart, s)
                     | Some probe_piece \<Rightarrow>
                         (case piece_range (ctrl_piece_map ctrl) probe_piece of
                            (start, end') \<Rightarrow>
                              (case se_range env start (sub_u64 end' 1) s of
                                 (Inl _, s1) \<Rightarrow> (Restart, s1)
                               | (Inr (resp, meta), s1) \<Rightarrow>
                                   (if probe_accepted resp meta start (sub_u64 end' 1) ctrl
                                    then ResumeMulti ctrl probe_piece resp meta else Restart, s1))))
               else if 0 < cs_downloaded_bytes ctrl \<and> cs_downloaded_bytes ctrl < cs_total_size ctrl
               then (case se_range env (cs_downloaded_bytes ctrl) (cs_total_size ctrl - 1) s of
                       (Inl _, s1) \<Rightarrow> (Restart, s1)
                     | (Inr (resp, meta), s1) \<Rightarrow>
                         (if probe_accepted resp meta (cs_downloaded_bytes ctrl) (cs_total_size ctrl - 1) ctrl
                          then ResumeSingle ctrl resp meta else Restart, s1))
               else (Restart, s)))"

definition delete_checkpoint :: "('b, 'w) session_env \<Rightarrow> string \<Rightarrow> 'w session_state \<Rightarrow> 'w session_state" where
  "delete_checkpoint env out s =
     s\<lparr>sn_fs := fst (delete_control (se_delete_fault env) (control_path out) (sn_fs s))\<rparr>"

definition try_resume_download ::
  "('b, 'w) session_env \<Rightarrow> download_spec \<Rightarrow> string \<Rightarrow> 'w session_state \<Rightarrow> string option dl_result \<times> 'w session_state" where
  "try_resume_download env spec out s =
     (case plan_resume env spec out s of
        (NoCheckpoint, s1) \<Rightarrow> (Inr None, s1)
      | (Restart, s1) \<Rightarrow> (Inr None, delete_checkpoint env out s1)
      | (ResumeMulti ctrl probe_piece resp meta, s1) \<Rightarrow>
          (case se_final_url env s1 of
             (Inl e, s2) \<Rightarrow> (Inl e, s2)
           | (Inr request_url, s2) \<Rightarrow>
               (case se_run_multi env
                       \<lparr>mr_request_url = request_url, mr_output = out, mr_meta = meta,
                        mr_total_size = cs_total_size ctrl, mr_piece_map = ctrl_piece_map ctrl,
                        mr_probe = Some (resp, meta, probe_piece)\<rparr> s2 of
                  (Inl e, s3) \<Rightarrow> (Inl e, s3)
                | (Inr _, s3) \<Rightarrow> (Inr (Some out), s3)))
      | (ResumeSingle ctrl resp meta, s1) \<Rightarrow>
          (case se_final_url env s1 of
             (Inl e, s2) \<Rightarrow> (Inl e, s2)
           | (Inr request_url, s2) \<Rightarrow>
               (case se_run_single env
                       \<lparr>sr_response = resp, sr_meta = meta, sr_request_url = request_url, sr_output = out,
                        sr_start_offset = cs_downloaded_bytes ctrl, sr_total_size = Some (cs_total_size ctrl)\<rparr> s2 of
                  (Inl e, s3) \<Rightarrow> (Inl e, s3)
                | (Inr _, s3) \<Rightarrow> (Inr (Some out), s3))))"

section \<open>The task\<close>

definition path_string :: "chars \<Rightarrow> string" where
  "path_string p = map char_of p"

definition run_download_inner ::
  "('b, 'w) session_env \<Rightarrow> download_spec \<Rightarrow> 'w session_state \<Rightarrow> string dl_result \<times> 'w session_state" where
  "run_download_inner env spec s =
     (case resolve_static_output_path (se_current_dir env) spec of
        Inl e \<Rightarrow> (Inl e, s)
      | Inr (Some p) \<Rightarrow>
          (case try_resume_download env spec (path_string p) s of
             (Inl e, s1) \<Rightarrow> (Inl e, s1)
           | (Inr (Some resumed), s1) \<Rightarrow> (Inr resumed, s1)
           | (Inr None, s1) \<Rightarrow>
               (case probe_or_fallback_get env spec s1 of
                  (Inl e, s2) \<Rightarrow> (Inl e, s2)
                | (Inr (resp, meta, source), s2) \<Rightarrow>
                    (case se_final_url env s2 of
                       (Inl e, s3) \<Rightarrow> (Inl e, s3)
                     | (Inr request_url, s3) \<Rightarrow>
                         run_fresh_from_response env spec request_url (path_string p) resp meta source s3)))
      | Inr None \<Rightarrow>
          (case probe_or_fallback_get env spec s of
             (Inl e, s1) \<Rightarrow> (Inl e, s1)
           | (Inr (resp, meta, source), s1) \<Rightarrow>
               (case se_final_url env s1 of
                  (Inl e, s2) \<Rightarrow> (Inl e, s2)
                | (Inr request_url, s2) \<Rightarrow>
                    (case resolve_auto_output_path (se_path_segments env) (se_current_dir env) spec meta request_url of
                       Inl e \<Rightarrow> (Inl e, s2)
                     | Inr p \<Rightarrow>
                         (case try_resume_download env spec (path_string p) s2 of
                            (Inl e, s3) \<Rightarrow> (Inl e, s3)
                          | (Inr (Some resumed), s3) \<Rightarrow> (Inr resumed, s3)
                          | (Inr None, s3) \<Rightarrow>
                              run_fresh_from_response env spec request_url (path_string p) resp meta source s3)))))"

definition open_file :: "fs \<Rightarrow> string \<Rightarrow> nat list dl_result" where
  "open_file fs p = (case fs p of None \<Rightarrow> Inl (Io NotFound '''') | Some bytes \<Rightarrow> Inr bytes)"

definition run_download ::
  "('b, 'w) session_env \<Rightarrow> (algorithm \<Rightarrow> nat list \<Rightarrow> nat list) \<Rightarrow> (nat \<Rightarrow> stop_signal) \<Rightarrow>
    (nat \<Rightarrow> download_error + nat) \<Rightarrow> download_spec \<Rightarrow> 'w session_state \<Rightarrow> unit dl_result \<times> 'w session_state" where
  "run_download env digest signals rd spec s =
     (case run_download_inner env spec s of
        (Inl e, s1) \<Rightarrow> (Inl e, s1)
      | (Inr out, s1) \<Rightarrow>
          (case sto_checksum (storage spec) of
             None \<Rightarrow> (Inr (), s1)
           | Some expected \<Rightarrow>
               (verify_checksum digest (\<lambda>i. stop_signal_error (signals i)) rd (open_file (sn_fs s1) out) expected, s1)))"

section \<open>Facts\<close>

lemma highest_bounds:
  assumes "pm_inv m" "is_complete m i"
  shows "\<exists>h. highest_completed_piece m = Some h \<and> snd (piece_range m i) \<le> snd (piece_range m h)"
proof -
  have i: "i < piece_count m" "i \<in> done_set (completed m) (piece_count m)"
    using assms(2) by (auto simp: is_complete_def done_set_def)
  obtain h where h: "highest_completed_piece m = Some h" "h \<in> done_set (completed m) (piece_count m)" "i \<le> h"
    using pm_inv_highest [OF assms(1)] i(2) by (auto simp: highest_ok_def split: option.splits)
  have "h < piece_count m" using h(2) by (simp add: done_set_def)
  then have "snd (piece_range m i) \<le> snd (piece_range m h)"
    using h(3) i(1) mult_le_mono1 [of "Suc i" "Suc h" "piece_size m"]
    by (simp add: piece_range_exact [OF assms(1)] min.coboundedI1)
  then show ?thesis using h(1) by blast
qed

lemma ctrl_map_inv:
  "geometry_ok (cs_total_size ctrl) (cs_piece_size ctrl) \<Longrightarrow>
    cs_piece_count ctrl = div_ceil (cs_total_size ctrl) (cs_piece_size ctrl) \<Longrightarrow> pm_inv (ctrl_piece_map ctrl)"
  unfolding ctrl_piece_map_def by (rule pm_inv_from_bitset)

lemma probe_accepted_iff:
  "probe_accepted resp meta a b ctrl \<longleftrightarrow>
    range_answer_ok (rs_status resp) meta ResumeProbe
      \<lparr>er_start = a, er_end_inclusive = b, er_total_size = Some (cs_total_size ctrl)\<rparr> \<and> validate_metadata meta ctrl"
  by (simp add: probe_accepted_def validate_accept_iff)

lemma probe_accepted_parts:
  "probe_accepted resp meta a b ctrl \<Longrightarrow> rs_status resp = 206 \<and> content_range_start meta = Some a \<and>
    content_range_end meta = Some b \<and> content_range_total meta = Some (cs_total_size ctrl) \<and> validate_metadata meta ctrl"
  unfolding probe_accepted_iff range_answer_ok_def announced_end_def by auto

lemma plan_resume_multi:
  "plan_resume env spec out s = (ResumeMulti ctrl i resp meta, s1) \<Longrightarrow>
    is_multi ctrl spec \<and> validate_local_resume_state (se_metadata env out (sn_fs s)) ctrl spec = Inr () \<and>
    first_missing (ctrl_piece_map ctrl) = Some i \<and>
    probe_accepted resp meta (fst (piece_range (ctrl_piece_map ctrl) i))
      (sub_u64 (snd (piece_range (ctrl_piece_map ctrl) i)) 1) ctrl"
  unfolding plan_resume_def by (auto split: option.splits sum.splits prod.splits if_splits)

lemma plan_resume_single:
  "plan_resume env spec out s = (ResumeSingle ctrl resp meta, s1) \<Longrightarrow>
    \<not> is_multi ctrl spec \<and> validate_local_resume_state (se_metadata env out (sn_fs s)) ctrl spec = Inr () \<and>
    0 < cs_downloaded_bytes ctrl \<and> cs_downloaded_bytes ctrl < cs_total_size ctrl \<and>
    probe_accepted resp meta (cs_downloaded_bytes ctrl) (cs_total_size ctrl - 1) ctrl"
  unfolding plan_resume_def by (auto split: option.splits sum.splits prod.splits if_splits)

abbreviation fresh_expected :: "download_spec \<Rightarrow> expected_range" where
  "fresh_expected spec \<equiv>
     \<lparr>er_start = 0, er_end_inclusive = sch_piece_size (scheduling spec) - 1, er_total_size = None\<rparr>"

lemma probe_source:
  assumes "probe_or_fallback_get env spec s = (Inr (resp, meta, source), s1)"
  shows "source = FallbackGet \<Longrightarrow> \<exists>s0 s3. se_get env s0 = (Inr (resp, meta), s3)"
    and "source = RangeProbe \<Longrightarrow> 1 < max_connections spec"
  using assms by (auto simp: probe_or_fallback_get_def Let_def split: if_splits prod.splits sum.splits)

lemma choose_fresh_multi:
  "choose_fresh env spec resp meta source s = (Inr (FreshMulti n), s1) \<Longrightarrow>
    source = RangeProbe \<and> content_range_total meta = Some n \<and> min_split_size (scheduling spec) < n \<and>
    validate_range_response (rs_status resp) (retry_after_of resp) meta FreshProbe (fresh_expected spec) = Inr Accept"
  by (cases source) (auto simp: choose_fresh_def Let_def split: if_splits prod.splits sum.splits option.splits
      range_validation_decision.splits fresh_range_fallback_reason.splits)

lemma choose_fresh_single:
  "choose_fresh env spec resp meta source s = (Inr (FreshSingle r m), s1) \<Longrightarrow>
    (\<exists>s0 s3. se_plain_get env s0 = (Inr (r, m), s3)) \<or> r = resp \<and> m = meta \<and>
    (max_connections spec \<le> 1 \<or> source = FallbackGet \<or> range_probe_response_covers_full_file meta \<or>
     validate_range_response (rs_status resp) (retry_after_of resp) meta FreshProbe (fresh_expected spec) =
       Inr (FallbackToSingle RangeNotSupported))"
  by (cases source) (auto simp: choose_fresh_def Let_def split: if_splits prod.splits sum.splits option.splits
      range_validation_decision.splits fresh_range_fallback_reason.splits)

definition autosave_tick :: "nat \<Rightarrow> nat \<Rightarrow> control_save_tracker \<Rightarrow> bool \<times> control_save_tracker" where
  "autosave_tick every bytes t =
     (case should_save t Autosave bytes every of (b, t') \<Rightarrow> (b, if b then mark_saved t' bytes else t'))"

fun autosave_run :: "nat \<Rightarrow> nat list \<Rightarrow> control_save_tracker \<Rightarrow> nat list \<times> control_save_tracker" where
  "autosave_run every [] t = ([], t)"
| "autosave_run every (b # bs) t =
     (case autosave_tick every b t of
        (saved, t1) \<Rightarrow> (case autosave_run every bs t1 of (saves, t2) \<Rightarrow> (if saved then b # saves else saves, t2)))"

lemma autosave_due:
  assumes "list_all (\<lambda>b. last_saved_downloaded_bytes t < b) bs" "autosave_ticks_since_save t + length bs \<ge> every"
    "0 < every" "every \<le> u32_max" "autosave_ticks_since_save t < every"
  shows "fst (autosave_run every bs t) \<noteq> []"
  using assms
proof (induction bs arbitrary: t)
  case (Cons b bs)
  have b: "last_saved_downloaded_bytes t < b" using Cons.prems by simp
  show ?case
  proof (cases "every \<le> Suc (autosave_ticks_since_save t)")
    case True
    then show ?thesis using b Cons.prems(4,5)
      by (simp add: autosave_tick_def should_save_def Let_def sat_add_u32_def split: prod.split)
  next
    case False
    let ?t = "t\<lparr>autosave_ticks_since_save := Suc (autosave_ticks_since_save t)\<rparr>"
    have "autosave_tick every b t = (False, ?t)" using b False Cons.prems(4)
      by (simp add: autosave_tick_def should_save_def Let_def sat_add_u32_def)
    moreover have "fst (autosave_run every bs ?t) \<noteq> []" using Cons.prems False by (intro Cons.IH) simp_all
    ultimately show ?thesis by (simp split: prod.split)
  qed
qed simp

lemma autosave_progress:
  "fst (autosave_run every bs t) = saves \<Longrightarrow>
    sorted_wrt (<) (last_saved_downloaded_bytes t # saves) \<and> set saves \<subseteq> set bs"
proof (induction bs arbitrary: t saves)
  case (Cons b bs)
  obtain saved t1 where t1: "autosave_tick every b t = (saved, t1)" by fastforce
  obtain rest t2 where r: "autosave_run every bs t1 = (rest, t2)" by fastforce
  have IH: "sorted_wrt (<) (last_saved_downloaded_bytes t1 # rest)" "set rest \<subseteq> set bs"
    using Cons.IH [of t1 rest] r by auto
  have "if saved then last_saved_downloaded_bytes t < b \<and> last_saved_downloaded_bytes t1 = b
        else last_saved_downloaded_bytes t1 = last_saved_downloaded_bytes t"
    using t1 by (auto simp: autosave_tick_def should_save_def mark_saved_def Let_def split: if_splits)
  then show ?case using IH Cons.prems t1 r by (cases saved) (auto intro: less_trans)
qed simp

text \<open>A server for examples: it answers every range request in full and keeps what a
  transfer delivers as the output file.\<close>

definition plain_meta :: response_meta where
  "plain_meta = \<lparr>content_length = None, content_range_start = None, content_range_end = None,
     content_range_total = None, accept_ranges = True, etag = None, last_modified = None,
     content_disposition = None, content_encoding = None\<rparr>"

definition small_server :: "nat \<Rightarrow> nat list \<Rightarrow> (unit, unit) session_env" where
  "small_server tsize content =
     \<lparr>se_range = (\<lambda>a b s. (Inr (\<lparr>rs_status = 206, rs_headers = \<lambda>_. None, rs_body = ()\<rparr>,
                 plain_meta\<lparr>content_range_start := Some a, content_range_end := Some b, content_range_total := Some tsize\<rparr>), s)),
      se_get = (\<lambda>s. (Inr (\<lparr>rs_status = 200, rs_headers = \<lambda>_. None, rs_body = ()\<rparr>, plain_meta), s)),
      se_plain_get = (\<lambda>s. (Inr (\<lparr>rs_status = 200, rs_headers = \<lambda>_. None, rs_body = ()\<rparr>, plain_meta), s)),
      se_final_url = (\<lambda>s. (Inr ''http://h/f'', s)),
      se_run_multi = (\<lambda>r s. (Inr (), s\<lparr>sn_fs := (sn_fs s)(mr_output r \<mapsto> content)\<rparr>)),
      se_run_single = (\<lambda>r s. (Inr (), s\<lparr>sn_fs := (sn_fs s)(sr_output r \<mapsto> content)\<rparr>)),
      se_load = (\<lambda>p fs. Inl (Io NotFound '''')),
      se_metadata = (\<lambda>p fs. case fs p of None \<Rightarrow> Inl NotFound | Some bytes \<Rightarrow> Inr (length bytes)),
      se_delete_fault = None,
      se_current_dir = Inr (ascii ''/''),
      se_path_segments = (\<lambda>_. None)\<rparr>"

lemmas piece_map_eval = ctrl_piece_map_def pm_from_bitset_def from_bitset_step_def lsb0_from_slice_def bits_resize_def
  piece_range_def piece_len_def is_complete_def upt_rec Let_def add_u64_def mul_u64_def sub_u64_def u64_max_def

section \<open>Properties\<close>

text \<open>C32. A checkpoint is resumed over many connections only if the local file can hold
  what it claims: every piece marked complete ends within the file, the file is not
  larger than the object, and the recorded progress covers the completed pieces.\<close>

theorem resume_local_state_sound:
  assumes "validate_local_resume_state (Inr len) ctrl spec = Inr ()" "is_multi ctrl spec"
    "geometry_ok (cs_total_size ctrl) (cs_piece_size ctrl)"
    "cs_piece_count ctrl = div_ceil (cs_total_size ctrl) (cs_piece_size ctrl)"
  shows "len \<le> cs_total_size ctrl \<and> completed_bytes (ctrl_piece_map ctrl) \<le> cs_downloaded_bytes ctrl \<and>
    cs_downloaded_bytes ctrl \<le> len \<and>
    (\<forall>i. is_complete (ctrl_piece_map ctrl) i \<longrightarrow> snd (piece_range (ctrl_piece_map ctrl) i) \<le> len)"
proof -
  let ?m = "ctrl_piece_map ctrl"
  have inv: "pm_inv ?m" by (rule ctrl_map_inv [OF assms(3,4)])
  have tot: "total_size ?m = cs_total_size ctrl" by (simp add: ctrl_piece_map_def)
  have top: "snd (piece_range ?m i) \<le> cs_total_size ctrl" if "is_complete ?m i" for i
    using piece_range_bounds(2) [OF inv, of i] that tot by (simp add: is_complete_def)
  show ?thesis
  proof (cases "storage_config.file_allocation (storage spec) = Prealloc")
    case True
    then have "len = cs_total_size ctrl" "completed_bytes ?m \<le> cs_downloaded_bytes ctrl"
      "cs_downloaded_bytes ctrl \<le> cs_total_size ctrl"
      using assms(1,2) by (auto simp: validate_local_resume_state_def Let_def split: if_splits)
    then show ?thesis using top by simp
  next
    case False
    then have v: "\<not> len < (case highest_completed_piece ?m of Some i \<Rightarrow> snd (piece_range ?m i) | None \<Rightarrow> 0)"
      "len \<le> cs_total_size ctrl" "completed_bytes ?m \<le> cs_downloaded_bytes ctrl" "cs_downloaded_bytes ctrl \<le> len"
      using assms(1,2) by (auto simp: validate_local_resume_state_def Let_def split: if_splits)
    have "snd (piece_range ?m i) \<le> len" if "is_complete ?m i" for i
      using highest_bounds [OF inv that] v(1) by auto
    then show ?thesis using v by blast
  qed
qed

theorem resume_local_state_sound_witness:
  "is_complete (ctrl_piece_map \<lparr>cs_url = '''', cs_total_size = 12, cs_piece_size = 4, cs_piece_count = 3,
     cs_completed_bitset = [2], cs_downloaded_bytes = 4, cs_etag = None, cs_last_modified = None\<rparr>) 1 \<and>
   snd (piece_range (ctrl_piece_map \<lparr>cs_url = '''', cs_total_size = 12, cs_piece_size = 4, cs_piece_count = 3,
     cs_completed_bitset = [2], cs_downloaded_bytes = 4, cs_etag = None, cs_last_modified = None\<rparr>) 1) \<le> 9"
proof -
  let ?c = "\<lparr>cs_url = '''', cs_total_size = 12, cs_piece_size = 4, cs_piece_count = 3,
    cs_completed_bitset = [2], cs_downloaded_bytes = 4, cs_etag = None, cs_last_modified = None\<rparr>"
  let ?spec = "(download_spec_new ''u'')\<lparr>max_connections := 2,
    storage := (storage (download_spec_new ''u''))\<lparr>storage_config.file_allocation := AllocNone\<rparr>\<rparr>"
  have m: "completed_bytes (ctrl_piece_map ?c) = 4" "highest_completed_piece (ctrl_piece_map ?c) = Some 1"
    "piece_range (ctrl_piece_map ?c) 1 = (4, 8)" "is_complete (ctrl_piece_map ?c) 1"
    by (simp_all add: piece_map_eval)
  have g: "geometry_ok (cs_total_size ?c) (cs_piece_size ?c)" "cs_piece_count ?c = div_ceil (cs_total_size ?c) (cs_piece_size ?c)"
    by (simp_all add: geometry_ok_def u64_max_def div_ceil_def)
  have v: "validate_local_resume_state (Inr 9) ?c ?spec = Inr ()" "is_multi ?c ?spec"
    using m by (simp_all add: validate_local_resume_state_def is_multi_def Let_def)
  show ?thesis using resume_local_state_sound [OF v g] m(4) by blast
qed




text \<open>C34. A task with a configured checksum succeeds only if the output file exists and
  its digest is the expected one; an earlier failure is passed on unchanged.\<close>

theorem download_checksum_gate:
  assumes "run_download env digest signals rd spec s = (Inr (), s1)" "sto_checksum (storage spec) = Some expected"
  shows "\<exists>out bytes. run_download_inner env spec s = (Inr out, s1) \<and> sn_fs s1 out = Some bytes \<and>
    hex_encode (digest (checksum_algorithm expected) bytes) = map to_ascii_lower (checksum_value expected)"
proof -
  obtain out where out: "run_download_inner env spec s = (Inr out, s1)"
    and v: "verify_checksum digest (\<lambda>i. stop_signal_error (signals i)) rd (open_file (sn_fs s1) out) expected = Inr ()"
    using assms by (auto simp: run_download_def split: prod.splits sum.splits)
  obtain bytes where b: "sn_fs s1 out = Some bytes"
    using v by (auto simp: open_file_def verify_checksum_def split: option.splits)
  have "verify_checksum digest (\<lambda>i. stop_signal_error (signals i)) rd (Inr bytes) expected = Inr ()"
    using v b by (simp add: open_file_def)
  from verified_digest [OF this] show ?thesis using out b by blast
qed

theorem download_checksum_gate_witness:
  "\<exists>out. snd (run_download (small_server 3 [7, 8, 9]) (\<lambda>a d. d) (\<lambda>i. Running) (\<lambda>i. Inr 2)
     ((download_spec_new ''u'')\<lparr>max_connections := 1, output_path := Some ''/f'',
       storage := (storage (download_spec_new ''u''))\<lparr>resume := False, sto_checksum := Some (Sha256 (hex_encode [7, 8, 9]))\<rparr>\<rparr>)
     \<lparr>sn_fs = Map.empty, sn_world = ()\<rparr>) = \<lparr>sn_fs = [out \<mapsto> [7, 8, 9]], sn_world = ()\<rparr>"
proof -
  let ?spec = "(download_spec_new ''u'')\<lparr>max_connections := 1, output_path := Some ''/f'',
    storage := (storage (download_spec_new ''u''))\<lparr>resume := False, sto_checksum := Some (Sha256 (hex_encode [7, 8, 9]))\<rparr>\<rparr>"
  let ?env = "small_server 3 [7, 8, 9]" and ?s = "\<lparr>sn_fs = Map.empty, sn_world = ()\<rparr>"
  let ?out = "path_string (ascii ''/f'')"
  have lower: "map to_ascii_lower (hex_encode [7, 8, 9]) = hex_encode [7, 8, 9]" by (rule hex_encode_lower) simp
  have inner: "run_download_inner ?env ?spec ?s = (Inr ?out, ?s\<lparr>sn_fs := [?out \<mapsto> [7, 8, 9]]\<rparr>)"
    by (simp add: run_download_inner_def resolve_static_output_path_def is_absolute_def ascii_def download_spec_new_def
        try_resume_download_def plan_resume_def probe_or_fallback_get_def run_fresh_from_response_def choose_fresh_def
        small_server_def)
  obtain h where h: "hash_loop (\<lambda>i. None) (\<lambda>i. Inr 2) 0 [] [7, 8, 9] = Inr h" "h = [] @ [7, 8, 9]"
    using hash_loop_runs [of "\<lambda>i. None" "\<lambda>i. Inr 2" 0 "[]" "[7, 8, 9]"] hash_loop_ok by blast
  have run: "run_download ?env (\<lambda>a d. d) (\<lambda>i. Running) (\<lambda>i. Inr 2) ?spec ?s =
      (Inr (), ?s\<lparr>sn_fs := [?out \<mapsto> [7, 8, 9]]\<rparr>)"
    using h lower
    unfolding run_download_def inner by (simp add: verify_checksum_def hash_and_compare_def open_file_def checksum_value_def
        download_spec_new_def stop_signal_error_def)
  show ?thesis
    using download_checksum_gate [OF run, of "Sha256 (hex_encode [7, 8, 9])"] run by auto
qed

text \<open>C40. Checkpoints are written on schedule: with progress at every tick, every
  \<open>autosave_sync_every\<close> consecutive ticks contain a save; and saves always record strictly
  more bytes than the save before.\<close>

theorem autosave_bounded:
  assumes "0 < every" "every \<le> u32_max" "list_all (\<lambda>b. last_saved_downloaded_bytes t < b) bs" "every \<le> length bs"
    "autosave_ticks_since_save t < every"
  shows "fst (autosave_run every bs t) \<noteq> [] \<and>
    sorted_wrt (<) (last_saved_downloaded_bytes t # fst (autosave_run every bs t))"
  using autosave_due [OF assms(3) _ assms(1,2,5)] assms(4) autosave_progress [OF refl] by fastforce

theorem autosave_bounded_witness:
  "fst (autosave_run 2 [10, 20, 30] (tracker_new 0)) \<noteq> [] \<and>
   sorted_wrt (<) (0 # fst (autosave_run 2 [10, 20, 30] (tracker_new 0)))"
  using autosave_bounded [of 2 "tracker_new 0" "[10, 20, 30]"] by (simp add: tracker_new_def u32_max_def)

text \<open>A finding: a checkpoint of a transfer over many connections counts completed
  pieces anywhere in the object, but a session configured for one connection takes the
  same count as the length of a prefix.  With pieces one and two of three complete and the
  first one missing, it continues at byte eight.\<close>

lemma single_resume_skips_pieces:
  "let ctrl = \<lparr>cs_url = ''u'', cs_total_size = 12, cs_piece_size = 4, cs_piece_count = 3,
         cs_completed_bitset = [6], cs_downloaded_bytes = 8, cs_etag = None, cs_last_modified = None\<rparr>;
       spec = (download_spec_new ''u'')\<lparr>max_connections := 1,
         storage := (storage (download_spec_new ''u''))\<lparr>storage_config.file_allocation := Prealloc, resume := True\<rparr>\<rparr>
   in \<not> is_complete (ctrl_piece_map ctrl) 0 \<and>
      (\<exists>resp meta. fst (plan_resume ((small_server 12 [])\<lparr>se_load := \<lambda>p fs. Inr (ctrl, hints),
          se_metadata := \<lambda>p fs. Inr 12\<rparr>) spec ''f'' s) = ResumeSingle ctrl resp meta)"
proof -
  let ?c = "\<lparr>cs_url = ''u'', cs_total_size = 12, cs_piece_size = 4, cs_piece_count = 3,
         cs_completed_bitset = [6], cs_downloaded_bytes = 8, cs_etag = None, cs_last_modified = None\<rparr>"
  have "probe_accepted \<lparr>rs_status = 206, rs_headers = \<lambda>_. None, rs_body = ()\<rparr>
      (plain_meta\<lparr>content_range_start := Some 8, content_range_end := Some 11, content_range_total := Some 12\<rparr>) 8 11 ?c"
    by (simp add: probe_accepted_iff range_answer_ok_def plain_meta_def announced_end_def range_response_allowed_def
        validate_metadata_def u64_max_def)
  moreover have "\<not> is_complete (ctrl_piece_map ?c) 0" by (simp add: piece_map_eval)
  ultimately show ?thesis
    by (simp add: plan_resume_def validate_local_resume_state_def is_multi_def small_server_def)
qed

text \<open>A finding: a probe that fails because the task is paused is treated like a refused
  one, so pausing during the probe deletes a checkpoint that is still valid.\<close>

lemma paused_probe_deletes_checkpoint:
  assumes "resume (storage spec)" "se_load env (control_path out) (sn_fs s) = Inr (ctrl, hints)"
    "validate_local_resume_state (se_metadata env out (sn_fs s)) ctrl spec = Inr ()" "\<not> is_multi ctrl spec"
    "0 < cs_downloaded_bytes ctrl" "cs_downloaded_bytes ctrl < cs_total_size ctrl"
    "se_range env (cs_downloaded_bytes ctrl) (cs_total_size ctrl - 1) s = (Inl Paused, s)"
  shows "try_resume_download env spec out s = (Inr None, delete_checkpoint env out s)"
  using assms by (simp add: try_resume_download_def plan_resume_def)

end
