(* ===== verification/Multi_Transfer.thy ===== *)
theory Multi_Transfer
  imports Scheduler_Run Session Writer_View
begin

text \<open>
  A transfer over many connections, \<open>src/session/multi.rs\<close> and the settlement side of
  \<open>src/session/multi/worker.rs\<close>: the scheduler behind its mutex, the FIFO channel to the
  writer task, the attempts the workers have in flight, and the monitor that writes
  checkpoints.  The workers, the writer and the monitor run concurrently; a transfer is any
  sequence of the atomic steps below in which each worker follows its own program order.
  An acknowledgement has been received when its command has left the channel.

  The theory shows what the order of these steps guarantees: a byte the scheduler has
  acknowledged is in the file, a checkpoint on disk only marks pieces that were synced
  before, and a finished transfer has written the whole object.
\<close>

section \<open>State\<close>

text \<open>One attempt at a lease: the range it was begun with, the bytes handed to the writer,
  and how far its settlement is.\<close>

datatype attempt_state = Streaming | Committing | Retaining | Discarding | Settled

record attempt =
  at_range :: byte_range
  at_sent :: nat
  at_state :: attempt_state

datatype writer_status = WriterOpen | WriterClosed | WriterFailed

record 'b transfer =
  tr_sched :: scheduler_state
  tr_chan :: "'b writer_command list"
  tr_writer :: "'b writer_task"
  tr_status :: writer_status
  tr_attempts :: "lease_key \<Rightarrow> attempt option"
  tr_tracker :: control_save_tracker
  tr_frozen :: "(control_snapshot \<times> control_hints) option"
  tr_saved :: "(control_snapshot \<times> control_hints) option"
  tr_durable :: "'b contents"

record multi_control_save_context =
  mc_request_url :: string
  mc_total_size :: nat
  mc_etag :: "string option"
  mc_last_modified :: "string option"
  mc_sync_every :: nat

definition transfer_new :: "piece_map \<Rightarrow> 'b disk \<Rightarrow> nat \<Rightarrow> 'b transfer" where
  "transfer_new m d wm =
     \<lparr>tr_sched = sched_new m, tr_chan = [], tr_writer = writer_new d wm, tr_status = WriterOpen,
      tr_attempts = (\<lambda>_. None), tr_tracker = tracker_new (completed_bytes m), tr_frozen = None,
      tr_saved = None, tr_durable = dk_bytes d\<rparr>"

section \<open>Checkpoints\<close>

text \<open>The first half of \<open>persist_multi_control_snapshot\<close>: is a checkpoint due, and the piece
  map and hints it will record, frozen before the writer barrier.\<close>

definition multi_snapshot :: "multi_control_save_context \<Rightarrow> scheduler_state \<Rightarrow> control_snapshot" where
  "multi_snapshot ctx s =
     \<lparr>cs_url = mc_request_url ctx, cs_total_size = mc_total_size ctx, cs_piece_size = piece_size (pmap s),
      cs_piece_count = piece_count (pmap s), cs_completed_bitset = snapshot_bitset lsb0_as_raw_slice s,
      cs_downloaded_bytes = sched_completed_bytes s, cs_etag = mc_etag ctx,
      cs_last_modified = mc_last_modified ctx\<rparr>"

definition persist_freeze ::
  "multi_control_save_context \<Rightarrow> control_save_reason \<Rightarrow> control_save_tracker \<Rightarrow> scheduler_state \<Rightarrow>
    (control_snapshot \<times> control_hints) option \<times> control_save_tracker \<times> scheduler_state" where
  "persist_freeze ctx reason tracker s =
     (let force_terminal_snapshot = (reason = Terminal);
          (due, tracker1) =
            (if force_terminal_snapshot then (True, tracker)
             else should_save tracker reason (sched_completed_bytes s) (mc_sync_every ctx))
      in if \<not> due then (None, tracker1, s)
         else
           let snap = multi_snapshot ctx s;
               (s1, hints) = control_hints s
           in if \<not> force_terminal_snapshot \<and> cs_downloaded_bytes snap \<le> last_saved_downloaded_bytes tracker1
              then (None, tracker1, s1)
              else (Some (snap, hints), tracker1, s1))"

section \<open>Steps\<close>

datatype 'b transfer_event =
    EvAssign sched_op
  | EvBegin lease_key
  | EvForward lease_key "'b list"
  | EvFlush lease_key
  | EvRetain lease_key
  | EvDiscard lease_key
  | EvSettle lease_key
  | EvComplete lease_key
  | EvRenew lease_key nat
  | EvReclaim lease_key
  | EvStop lease_key
  | EvHandle
  | EvFreeze control_save_reason
  | EvSave bool
  | EvClose

text \<open>The scheduler operations that only hand out leases or read hints.\<close>

fun issue_op :: "sched_op \<Rightarrow> bool" where
  "issue_op (OpAssign w n m) \<longleftrightarrow> True"
| "issue_op (OpRequest w mr ms occ mode cap dmin dmax allow diag col) \<longleftrightarrow> True"
| "issue_op (OpRecovery ps w) \<longleftrightarrow> True"
| "issue_op OpHints \<longleftrightarrow> True"
| "issue_op _ \<longleftrightarrow> False"

definition send :: "'b writer_command \<Rightarrow> 'b transfer \<Rightarrow> 'b transfer" where
  "send cmd t = t\<lparr>tr_chan := tr_chan t @ [cmd]\<rparr>"

definition set_attempt :: "lease_key \<Rightarrow> attempt option \<Rightarrow> 'b transfer \<Rightarrow> 'b transfer" where
  "set_attempt k a t = t\<lparr>tr_attempts := (tr_attempts t)(k := a)\<rparr>"

text \<open>The bytes a body delivers for a range, when it carries the object.\<close>

definition served :: "(nat \<Rightarrow> 'b) \<Rightarrow> nat \<Rightarrow> nat \<Rightarrow> 'b list" where
  "served obj off n = map obj [off..<off + n]"

definition barrier_passed :: "lease_key \<Rightarrow> 'b transfer \<Rightarrow> bool" where
  "barrier_passed k t \<longleftrightarrow> FlushLease k \<notin> set (tr_chan t) \<and> DiscardLease k \<notin> set (tr_chan t)"

definition may_release :: "lease_key \<Rightarrow> 'b transfer \<Rightarrow> bool" where
  "may_release k t \<longleftrightarrow>
     tr_status t = WriterFailed \<or> (case tr_attempts t k of None \<Rightarrow> True | Some a \<Rightarrow> at_state a = Settled)"

text \<open>A step of an attempt that is still streaming, while the writer takes commands.\<close>

definition stream_step ::
  "lease_key \<Rightarrow> (attempt \<Rightarrow> bool) \<Rightarrow> (attempt \<Rightarrow> 'b writer_command \<times> attempt) \<Rightarrow> 'b transfer \<Rightarrow> 'b transfer option" where
  "stream_step k ok f t =
     (case tr_attempts t k of
        None \<Rightarrow> None
      | Some a \<Rightarrow>
          if tr_status t = WriterOpen \<and> at_state a = Streaming \<and> ok a
          then (case f a of (cmd, a') \<Rightarrow> Some (set_attempt k (Some a') (send cmd t)))
          else None)"

text \<open>After the barrier: \<open>settle_prefix\<close> records a retained prefix with the scheduler; a
  discarded attempt has nothing to record.\<close>

definition settle_step :: "lease_key \<Rightarrow> 'b transfer \<Rightarrow> 'b transfer option" where
  "settle_step k t =
     (case tr_attempts t k of
        None \<Rightarrow> None
      | Some a \<Rightarrow>
          if \<not> barrier_passed k t then None
          else if at_state a = Retaining
          then (let end' = br_start (at_range a) + at_sent a
                in case retain_prefix (tr_sched t) k end' of
                     (s, True) \<Rightarrow>
                       Some (set_attempt k (Some \<lparr>at_range = (at_range a)\<lparr>br_start := end'\<rparr>, at_sent = 0, at_state = Settled\<rparr>)
                         (t\<lparr>tr_sched := s\<rparr>))
                   | (s, False) \<Rightarrow> None)
          else if at_state a = Discarding
          then Some (set_attempt k (Some (a\<lparr>at_sent := 0, at_state := Settled\<rparr>)) t)
          else None)"

definition complete_step :: "lease_key \<Rightarrow> 'b transfer \<Rightarrow> 'b transfer option" where
  "complete_step k t =
     (case tr_attempts t k of
        None \<Rightarrow> None
      | Some a \<Rightarrow>
          if at_state a = Committing \<and> barrier_passed k t
          then Some (set_attempt k None (t\<lparr>tr_sched := fst (complete (tr_sched t) k)\<rparr>))
          else None)"

definition handle_step :: "io_fault \<Rightarrow> 'b transfer \<Rightarrow> 'b transfer option" where
  "handle_step flt t =
     (case tr_chan t of
        [] \<Rightarrow> None
      | cmd # rest \<Rightarrow>
          if tr_status t \<noteq> WriterOpen then None
          else (case handle flt cmd (tr_writer t) of
                  (Inr _, w) \<Rightarrow>
                    Some (t\<lparr>tr_writer := w, tr_chan := rest,
                            tr_durable := (case cmd of FlushAll True \<Rightarrow> dk_bytes (wt_disk w) | _ \<Rightarrow> tr_durable t)\<rparr>)
                | (Inl _, w) \<Rightarrow> Some (t\<lparr>tr_writer := w, tr_status := WriterFailed\<rparr>)))"

definition freeze_step :: "multi_control_save_context \<Rightarrow> control_save_reason \<Rightarrow> 'b transfer \<Rightarrow> 'b transfer option" where
  "freeze_step ctx reason t =
     (if tr_frozen t \<noteq> None then None
      else case persist_freeze ctx reason (tr_tracker t) (tr_sched t) of
             (None, tracker, s) \<Rightarrow> Some (t\<lparr>tr_tracker := tracker, tr_sched := s\<rparr>)
           | (Some x, tracker, s) \<Rightarrow>
               let t1 = t\<lparr>tr_tracker := tracker, tr_sched := s\<rparr>
               in (case tr_status t of
                     WriterOpen \<Rightarrow> Some (send (FlushAll True) (t1\<lparr>tr_frozen := Some x\<rparr>))
                   | WriterClosed \<Rightarrow> Some (t1\<lparr>tr_frozen := Some x\<rparr>)
                   | WriterFailed \<Rightarrow> Some t1))"

text \<open>The second half: once the barrier is acknowledged, the frozen checkpoint is saved; a
  save that fails leaves the old one.\<close>

definition save_step :: "bool \<Rightarrow> 'b transfer \<Rightarrow> 'b transfer option" where
  "save_step ok t =
     (case tr_frozen t of
        None \<Rightarrow> None
      | Some (snap, hints) \<Rightarrow>
          if FlushAll True \<in> set (tr_chan t) then None
          else if ok
          then Some (t\<lparr>tr_frozen := None, tr_saved := Some (snap, hints),
                       tr_tracker := mark_saved (tr_tracker t) (cs_downloaded_bytes snap)\<rparr>)
          else Some (t\<lparr>tr_frozen := None\<rparr>))"

definition close_step :: "io_fault \<Rightarrow> 'b transfer \<Rightarrow> 'b transfer option" where
  "close_step flt t =
     (if tr_status t \<noteq> WriterOpen \<or> tr_chan t \<noteq> [] then None
      else case run_writer flt [] (tr_writer t) of
             (Inr _, w) \<Rightarrow> Some (t\<lparr>tr_writer := w, tr_status := WriterClosed, tr_durable := dk_bytes (wt_disk w)\<rparr>)
           | (Inl _, w) \<Rightarrow> Some (t\<lparr>tr_writer := w, tr_status := WriterFailed\<rparr>))"

fun transfer_step ::
  "io_fault \<Rightarrow> (nat \<Rightarrow> 'b) \<Rightarrow> multi_control_save_context \<Rightarrow> 'b transfer_event \<Rightarrow> 'b transfer \<Rightarrow> 'b transfer option" where
  "transfer_step flt obj ctx (EvAssign op) t =
     (if issue_op op then Some (t\<lparr>tr_sched := sched_exec op (tr_sched t)\<rparr>) else None)"
| "transfer_step flt obj ctx (EvBegin k) t =
     (case (lease_range (tr_sched t) k, tr_attempts t k) of
        (Some r, None) \<Rightarrow>
          if tr_status t = WriterOpen
          then Some (set_attempt k (Some \<lparr>at_range = r, at_sent = 0, at_state = Streaming\<rparr>) (send (BeginLease k) t))
          else None
      | _ \<Rightarrow> None)"
| "transfer_step flt obj ctx (EvForward k data) t =
     stream_step k
       (\<lambda>a. data \<noteq> [] \<and> at_sent a + length data \<le> br_end (at_range a) - br_start (at_range a) \<and>
             data = served obj (br_start (at_range a) + at_sent a) (length data))
       (\<lambda>a. (Data (br_start (at_range a) + at_sent a) data (Some (length data)) (Some k),
              a\<lparr>at_sent := at_sent a + length data\<rparr>)) t"
| "transfer_step flt obj ctx (EvFlush k) t =
     stream_step k (\<lambda>a. at_sent a = br_end (at_range a) - br_start (at_range a))
       (\<lambda>a. (FlushLease k, a\<lparr>at_state := Committing\<rparr>)) t"
| "transfer_step flt obj ctx (EvRetain k) t =
     stream_step k (\<lambda>a. 0 < at_sent a \<and> at_sent a < br_end (at_range a) - br_start (at_range a))
       (\<lambda>a. (FlushLease k, a\<lparr>at_state := Retaining\<rparr>)) t"
| "transfer_step flt obj ctx (EvDiscard k) t =
     stream_step k (\<lambda>a. True) (\<lambda>a. (DiscardLease k, a\<lparr>at_state := Discarding\<rparr>)) t"
| "transfer_step flt obj ctx (EvSettle k) t = settle_step k t"
| "transfer_step flt obj ctx (EvComplete k) t = complete_step k t"
| "transfer_step flt obj ctx (EvRenew k w) t =
     (case tr_attempts t k of
        Some a \<Rightarrow> if at_state a = Settled
                    then Some (set_attempt k None (t\<lparr>tr_sched := fst (renew (tr_sched t) k w)\<rparr>)) else None
      | None \<Rightarrow> None)"
| "transfer_step flt obj ctx (EvReclaim k) t =
     (if may_release k t then Some (set_attempt k None (t\<lparr>tr_sched := fst (reclaim (tr_sched t) k)\<rparr>)) else None)"
| "transfer_step flt obj ctx (EvStop k) t =
     (if may_release k t then Some (set_attempt k None (t\<lparr>tr_sched := stop_and_reclaim (tr_sched t) k\<rparr>)) else None)"
| "transfer_step flt obj ctx EvHandle t = handle_step flt t"
| "transfer_step flt obj ctx (EvFreeze reason) t = freeze_step ctx reason t"
| "transfer_step flt obj ctx (EvSave ok) t = save_step ok t"
| "transfer_step flt obj ctx EvClose t = close_step flt t"

fun transfer_run ::
  "io_fault \<Rightarrow> (nat \<Rightarrow> 'b) \<Rightarrow> multi_control_save_context \<Rightarrow> 'b transfer_event list \<Rightarrow> 'b transfer \<Rightarrow> 'b transfer option" where
  "transfer_run flt obj ctx [] t = Some t"
| "transfer_run flt obj ctx (ev # evs) t =
     (case transfer_step flt obj ctx ev t of None \<Rightarrow> None | Some t1 \<Rightarrow> transfer_run flt obj ctx evs t1)"

section \<open>What the writer holds for a lease\<close>

abbreviation held :: "'b writer_task \<Rightarrow> lease_key \<Rightarrow> nat \<Rightarrow> bool" where
  "held w k i \<equiv> Writer_View.covered w (Some k) i"

definition lease_open :: "'b writer_task \<Rightarrow> lease_key \<Rightarrow> bool" where
  "lease_open w k \<longleftrightarrow> wt_active_leases w k \<noteq> None"

fun keyed :: "'b writer_command \<Rightarrow> bool" where
  "keyed (Data off d p key) \<longleftrightarrow> key \<noteq> None"
| "keyed _ \<longleftrightarrow> True"

lemma watermark_frame:
  assumes "wr_inv w" "flush_at_watermark flt w = (Inr u, w')" "wt_single w = None"
  shows "wt_single w' = None" "Writer_View.covered w' a i \<Longrightarrow> Writer_View.covered w a i"
    "wt_active_leases w' = wt_active_leases w"
proof -
  have "wt_single w' = None \<and> (Writer_View.covered w' a i \<longrightarrow> Writer_View.covered w a i) \<and>
      wt_active_leases w' = wt_active_leases w"
  proof (cases "cache_high_watermark w \<le> total_bytes (wt_cache w) + single_bytes w")
    case True
    then have "flush_all flt w = (Inr u, w')" using assms(2) by (simp add: flush_at_watermark_def)
    from flush_all_settled(4-6) [OF assms(1) this] show ?thesis by (simp add: Writer_View.covered_def)
  qed (use assms in \<open>simp add: flush_at_watermark_def\<close>)
  then show "wt_single w' = None" "Writer_View.covered w' a i \<Longrightarrow> Writer_View.covered w a i"
    "wt_active_leases w' = wt_active_leases w" by blast+
qed

lemma store_keyed_frame:
  assumes inv: "wr_inv w" and fits: "off + length data \<le> u64_max" and free: "chunk_free w off data"
    and single: "wt_single w = None"
    and sd: "store_data flt off data (Some k) (push_permit (Some k) p w) = (Inr u, w')"
  shows "wt_single w' = None \<and> (\<forall>j. wt_active_leases w' j \<noteq> None \<longleftrightarrow> wt_active_leases w j \<noteq> None) \<and>
    (\<forall>a i. Writer_View.covered w' a i \<longrightarrow> Writer_View.covered w a i \<or> a = Some k \<and> off \<le> i \<and> i < off + length data)"
proof (cases "wt_active_leases w k = None \<or> data = []")
  case True
  then have "w' = retain_other (Some k) (push_permit (Some k) p w) \<or> w' = push_permit (Some k) p w"
    using sd by (auto simp: store_data_def push_permit_frame split: option.splits)
  moreover have "Writer_View.covered (push_permit (Some k) p w) a i = Writer_View.covered w a i"
    "Writer_View.covered (retain_other (Some k) (push_permit (Some k) p w)) a i = Writer_View.covered w a i" for a i
    by (simp_all add: Writer_View.covered_def push_permit_frame retain_view)
  ultimately show ?thesis using single by (auto simp: push_permit_frame retain_other_def)
next
  case False
  then obtain ex where act: "wt_active_leases w k = Some ex" and ne: "data \<noteq> []" by auto
  obtain c where c: "cache_insert (wt_cache w) k off data = Inr c"
    and w': "w' = (push_permit (Some k) p w)\<lparr>wt_cache := c, wt_active_leases := (wt_active_leases w)(k := Some (Some (add_u64 off (length data))))\<rparr>"
    using sd act ne by (auto simp: store_data_def push_permit_frame split: option.splits if_splits sum.splits)
  have same: "wt_cache w' = c" "wt_single w' = wt_single w" "wt_disk w' = wt_disk w" "file_offset w' = file_offset w"
    using w' by (simp_all add: push_permit_frame)
  have "Writer_View.covered w' a i \<Longrightarrow> Writer_View.covered w a i \<or> a = Some k \<and> off \<le> i \<and> i < off + length data" for a i
    by (rule cache_insert_ok(4) [OF inv c ne fits same free])
  then show ?thesis using single act by (auto simp: w' push_permit_frame)
qed

lemma handle_data_frame:
  assumes g: "wr_good w" and ok: "cmd_ok w (Data off data p (Some k))" and single: "wt_single w = None"
    and h: "handle flt (Data off data p (Some k)) w = (Inr ack, w')"
  shows "wt_single w' = None \<and> (\<forall>j. wt_active_leases w' j \<noteq> None \<longleftrightarrow> wt_active_leases w j \<noteq> None) \<and>
    (\<forall>a i. Writer_View.covered w' a i \<longrightarrow> Writer_View.covered w a i \<or> a = Some k \<and> off \<le> i \<and> i < off + length data)"
proof -
  have inv: "wr_inv w" "permits_ok w" using g by (simp_all add: wr_good_def)
  have c: "off + length data \<le> u64_max" "chunk_free w off data" "permit_for data p" using ok by simp_all
  have "settle_before flt off data (Some k) w = (Inr (), w)" using single by (simp add: settle_before_def)
  then obtain u2 w2 u3 where w2: "store_data flt off data (Some k) (push_permit (Some k) p w) = (Inr u2, w2)"
    and w3: "flush_at_watermark flt w2 = (Inr u3, w')"
    using h by (auto simp: wr_then_ok)
  note S = store_keyed_frame [OF inv(1) c(1,2) single w2]
  have inv2: "wr_inv w2" using store_data_ok [OF inv c(3,1,2) _ w2] by (simp add: steady_def)
  have single2: "wt_single w2 = None" using S by blast
  note F = watermark_frame [OF inv2 w3 single2]
  have "Writer_View.covered w a i \<or> a = Some k \<and> off \<le> i \<and> i < off + length data" if "Writer_View.covered w' a i" for a i
    using S F(2) [OF that] by blast
  then show ?thesis using S F(1,3) by simp
qed

lemma handle_leases:
  assumes g: "wr_good w" and ok: "cmd_ok w cmd" and h: "handle flt cmd w = (Inr ack, w')"
    and single: "wt_single w = None" and key: "keyed cmd"
  shows "wt_single w' = None"
    "held w' k i \<Longrightarrow> held w k i \<or> (\<exists>off d p. cmd = Data off d p (Some k) \<and> off \<le> i \<and> i < off + length d)"
    "cmd = FlushLease k \<or> cmd = DiscardLease k \<Longrightarrow> \<not> held w' k i"
    "lease_open w' k \<longleftrightarrow> cmd = BeginLease k \<or> lease_open w k \<and> cmd \<noteq> FlushLease k \<and> cmd \<noteq> DiscardLease k"
proof -
  have inv: "wr_inv w" using g by (simp add: wr_good_def)
  have "wt_single w' = None \<and>
    (held w' k i \<longrightarrow> held w k i \<or> (\<exists>off d p. cmd = Data off d p (Some k) \<and> off \<le> i \<and> i < off + length d)) \<and>
    (cmd = FlushLease k \<or> cmd = DiscardLease k \<longrightarrow> \<not> held w' k i) \<and>
    (lease_open w' k \<longleftrightarrow> cmd = BeginLease k \<or> lease_open w k \<and> cmd \<noteq> FlushLease k \<and> cmd \<noteq> DiscardLease k)"
  proof (cases cmd)
    case (BeginLease j)
    then have w': "w' = w\<lparr>wt_active_leases := (wt_active_leases w)(j := Some None)\<rparr>" using h by simp
    have "block_of w' = block_of w" by (rule block_of_same) (simp_all add: w')
    then show ?thesis using BeginLease single by (auto simp: Writer_View.covered_def lease_open_def w')
  next
    case (Data off d p key)
    then obtain j where "key = Some j" using key by auto
    then show ?thesis using handle_data_frame [OF g _ single, of off d p j flt ack w'] ok h Data
      by (auto simp: lease_open_def)
  next
    case (FlushLease j)
    obtain u w1 where w1: "flush_lease flt j w = (Inr u, w1)"
      and w': "w' = w1\<lparr>wt_active_leases := (wt_active_leases w1)(j := None)\<rparr>"
      using h FlushLease by (auto simp: wr_then_ok)
    note F = flush_lease_ok [OF inv w1]
    have "block_of w' = block_of w1" by (rule block_of_same) (simp_all add: w')
    then have "block_of w' = (block_of w)(Some j := None)" using F(3) by simp
    then show ?thesis using FlushLease single F by (auto simp: Writer_View.covered_def lease_open_def w' split: if_splits)
  next
    case (DiscardLease j)
    let ?c = "snd (discard_lease (wt_cache w) j)"
    have w': "w' = retain_other (Some j) (w\<lparr>wt_active_leases := (wt_active_leases w)(j := None), wt_cache := ?c\<rparr>)"
      using h DiscardLease by (auto simp: split_def)
    have "block_of w' = (block_of w)(Some j := None)"
    proof
      fix a show "block_of w' a = ((block_of w)(Some j := None)) a"
        using wr_invD(2) [OF inv]
        by (cases a; cases "bt_get (wc_pieces (wt_cache w)) j") (auto simp: w' retain_other_def discard_lease_def)
    qed
    moreover have "wt_single w' = None" "wt_active_leases w' = (wt_active_leases w)(j := None)"
      using single by (simp_all add: w' retain_other_def)
    ultimately show ?thesis using DiscardLease
      by (auto simp: Writer_View.covered_def lease_open_def split: if_splits)
  next
    case (FlushAll b)
    obtain u w1 u2 where w1: "flush_all flt w = (Inr u, w1)"
      and w2: "(if b then sync_file flt w1 else (Inr (), w1)) = (Inr u2, w')"
      using h FlushAll by (auto simp: wr_then_ok)
    note S = flush_all_settled [OF inv w1]
    have sy: "wt_cache w' = wt_cache w1 \<and> wt_single w' = wt_single w1 \<and> wt_active_leases w' = wt_active_leases w1"
      using w2 by (auto simp: sync_file_def wr_then_ok on_disk_def disk_sync_def split: if_splits option.splits prod.splits)
    have "block_of w' = block_of w1" by (rule block_of_same) (simp_all add: sy)
    then have "\<not> held w' k i" using S(6) [of "Some k"] by (simp only: covered_block) simp
    then show ?thesis using S(4,5) sy FlushAll by (simp add: lease_open_def)
  qed
  then show "wt_single w' = None"
    "held w' k i \<Longrightarrow> held w k i \<or> (\<exists>off d p. cmd = Data off d p (Some k) \<and> off \<le> i \<and> i < off + length d)"
    "cmd = FlushLease k \<or> cmd = DiscardLease k \<Longrightarrow> \<not> held w' k i"
    "lease_open w' k \<longleftrightarrow> cmd = BeginLease k \<or> lease_open w k \<and> cmd \<noteq> FlushLease k \<and> cmd \<noteq> DiscardLease k"
    by blast+
qed

section \<open>What the scheduler keeps\<close>

abbreviation acked :: "scheduler_state \<Rightarrow> nat set" where
  "acked s \<equiv> lg_acked (sched_ledger s)"

definition sched_moved :: "scheduler_state \<Rightarrow> nat set \<Rightarrow> scheduler_state \<Rightarrow> bool" where
  "sched_moved s A s' \<longleftrightarrow>
     sched_inv s' \<and> total_size (pmap s') = total_size (pmap s) \<and> next_lease_id s' \<le> next_lease_id s + OP_COST \<and>
     acked s' = acked s \<union> A"

abbreviation roomy :: "scheduler_state \<Rightarrow> bool" where
  "roomy s \<equiv> next_lease_id s + OP_COST \<le> u64_max"

lemma op_ok_moved:
  assumes "op_ok s As s'" "sched_inv s"
  shows "sched_moved s (\<Union> (set As)) s'"
proof -
  have "ledger_run (sched_ledger s) As (sched_ledger s')" using assms(1) by (simp add: op_ok_def)
  from ledger_run_sound [OF this sched_ledger_inv [OF assms(2)]]
  show ?thesis using assms(1) by (simp add: op_ok_def sched_moved_def)
qed

lemma sched_moved_refl: "sched_inv s \<Longrightarrow> sched_moved s {} s"
  by (simp add: sched_moved_def)

lemma lease_id_bound: "sched_inv s \<Longrightarrow> lease_range s k = Some r \<Longrightarrow> lk_lease_id k < next_lease_id s"
  by (elim lease_known) (auto simp: ps_inv_def leases_ok_def)

lemma batch_frame: "batch_rel s s' segs \<Longrightarrow> lease_range s k = Some r \<Longrightarrow> lease_range s' k = Some r"
  using batch_relD(5,7) [of s s' segs] add_leases_other [of k segs "lease_range s"] by fastforce

lemma hints_ledger: "sched_ledger (fst (control_hints s)) = sched_ledger s"
  by (rule sched_ledger_view) (simp_all add: control_hints_def Let_def)

lemma hints_moved:
  assumes "sched_inv s"
  shows "sched_moved s {} (fst (control_hints s))" "lease_range (fst (control_hints s)) = lease_range s"
    "pmap (fst (control_hints s)) = pmap s"
proof -
  have "op_ok s [] (fst (control_hints s))"
    using op_ok_view [OF assms] by (simp add: control_hints_def Let_def)
  from op_ok_moved [OF this assms] show "sched_moved s {} (fst (control_hints s))" by simp
  show "lease_range (fst (control_hints s)) = lease_range s" by (rule ledger_eq_leases [OF hints_ledger])
qed (simp add: control_hints_def Let_def)

lemma issue_op_frame:
  assumes inv: "sched_inv s" and room: "roomy s" and op: "issue_op op"
  shows "sched_moved s {} (sched_exec op s)"
    and "lease_range s k = Some r \<Longrightarrow> lease_range (sched_exec op s) k = Some r"
proof -
  have "sched_acks op s = []" using op by (cases op) simp_all
  then show "sched_moved s {} (sched_exec op s)" using op_ok_moved [OF sched_exec_ok [OF inv room, of op] inv] by simp
  assume k: "lease_range s k = Some r"
  have lt: "next_lease_id s < u64_max" "next_lease_id s + MAX_REQUEST_LEASES \<le> u64_max"
    "next_lease_id s + MAX_REQUEST_LEASES + 1 \<le> u64_max" using room by (simp_all add: OP_COST_def)
  show "lease_range (sched_exec op s) k = Some r"
  proof (cases op)
    case (OpAssign w n m)
    obtain s' res where a: "assign_to_with_split s w n m = (s', res)" by fastforce
    then show ?thesis using assign_None(2) [OF inv] assign_batch(1) [OF inv lt(1)] batch_frame k OpAssign
      by (cases res) fastforce+
  next
    case (OpRequest w mr ms occ mode cap dmin dmax allow diag col)
    let ?r = "assign_request_with_trace s w mr ms occ mode cap dmin dmax allow diag col"
    have e: "?r = (fst ?r, snd ?r)" by simp
    have "fst ?r = s \<or> (\<exists>segs. batch_rel s (fst ?r) segs)"
      using assign_request_cases [OF inv lt(3) e] unfolding request_ok_def by blast
    then show ?thesis using batch_frame k OpRequest by auto
  next
    case (OpRecovery ps w)
    let ?r = "assign_recovery_batch s ps w"
    have e: "?r = (fst ?r, snd ?r)" by simp
    obtain segs where "batch_rel s (fst ?r) segs" using assign_recovery_batch_cases(1) [OF inv lt(2) e] by blast
    then show ?thesis using batch_frame k OpRecovery by auto
  next
    case OpHints
    then show ?thesis using hints_moved(2) [OF inv] k by simp
  qed (use op in simp_all)
qed

lemma settle_frame:
  assumes inv: "sched_inv s" and room: "roomy s" and j: "lease_range s j = Some r" "j \<noteq> k"
  shows "lease_range (fst (renew s k w)) j = Some r" "lease_range (fst (reclaim s k)) j = Some r"
    "lease_range (stop_and_reclaim s k) j = Some r" "lease_range (fst (complete s k)) j = Some r"
    "lease_range (fst (retain_prefix s k c)) j = Some r"
proof -
  have lt: "next_lease_id s < u64_max" using room by (simp add: OP_COST_def)
  have fresh: "j \<noteq> LeaseKey (lk_piece_id k) (next_lease_id s)" using lease_id_bound [OF inv j(1)] by auto
  have rec: "lease_range (fst (reclaim s' k)) j = Some r" if "sched_inv s'" "lease_range s' j = Some r" for s'
  proof (cases "lease_range s' k")
    case None
    then show ?thesis using settle_unknown(2) that by simp
  next
    case (Some r')
    have e: "reclaim s' k = (fst (reclaim s' k), snd (reclaim s' k))" by simp
    show ?thesis using reclaim_known(4) [OF that(1) Some e] that(2) j(2) by simp
  qed
  show "lease_range (fst (reclaim s k)) j = Some r" by (rule rec [OF inv j(1)])
  let ?s = "s\<lparr>stopped := True\<rparr>"
  have "sched_inv ?s" "sched_ledger ?s = sched_ledger s"
    using inv sched_inv_next [OF inv] sched_inv_view [of s ?s] sched_ledger_view [of s ?s] by auto
  then show "lease_range (stop_and_reclaim s k) j = Some r"
    using rec [of ?s] ledger_eq_leases [of ?s s] j(1) by (simp add: stop_and_reclaim_def)
  have e: "renew s k w = (fst (renew s k w), snd (renew s k w))" "complete s k = (fst (complete s k), snd (complete s k))"
    "retain_prefix s k c = (fst (retain_prefix s k c), snd (retain_prefix s k c))" by simp_all
  show "lease_range (fst (renew s k w)) j = Some r" "lease_range (fst (complete s k)) j = Some r"
    "lease_range (fst (retain_prefix s k c)) j = Some r"
    using settle_unknown [of s k] renew_known(4) [OF inv _ lt e(1)] complete_known(4) [OF inv _ e(2)]
      retain_known(2,5) [OF inv _ e(3)] j fresh
    by (cases "lease_range s k"; force)+
qed

lemma settle_moved:
  assumes inv: "sched_inv s" and room: "roomy s"
  shows "sched_moved s {} (fst (renew s k w))" "sched_moved s {} (fst (reclaim s k))"
    "sched_moved s {} (stop_and_reclaim s k)"
    "lease_range s k = Some r \<Longrightarrow> sched_moved s (br_bytes r) (fst (complete s k))"
    "lease_range s k = Some r \<Longrightarrow> retain_prefix s k c = (s', True) \<Longrightarrow>
      sched_moved s {br_start r..<c} s' \<and> lease_range s' k = Some (r\<lparr>br_start := c\<rparr>) \<and> br_start r < c \<and> c < br_end r"
proof -
  note E = sched_exec_ok [OF inv room] and M = op_ok_moved [OF _ inv]
  show "sched_moved s {} (fst (renew s k w))" using M [OF E [of "OpRenew k w"]] by simp
  show "sched_moved s {} (fst (reclaim s k))" using M [OF E [of "OpReclaim k"]] by simp
  show "sched_moved s {} (stop_and_reclaim s k)" using M [OF E [of "OpStop k"]] by simp
  assume k: "lease_range s k = Some r"
  show "sched_moved s (br_bytes r) (fst (complete s k))" using M [OF E [of "OpComplete k"]] k by simp
  assume r: "retain_prefix s k c = (s', True)"
  note R = retain_known [OF inv k r]
  show "sched_moved s {br_start r..<c} s' \<and> lease_range s' k = Some (r\<lparr>br_start := c\<rparr>) \<and> br_start r < c \<and> c < br_end r"
    using M [OF E [of "OpRetain k c"]] k r R(1,5) by simp
qed

section \<open>The commands of one lease\<close>

text \<open>Within the channel the commands of a lease form a lane: begin, adjacent chunks, one
  flush or discard, nothing after it.\<close>

datatype lane = Fresh | Opened | Flushed | Dropped

fun touches :: "lease_key \<Rightarrow> 'b writer_command \<Rightarrow> bool" where
  "touches k (BeginLease j) \<longleftrightarrow> j = k"
| "touches k (Data off d p key) \<longleftrightarrow> key = Some k"
| "touches k (FlushLease j) \<longleftrightarrow> j = k"
| "touches k (DiscardLease j) \<longleftrightarrow> j = k"
| "touches k (FlushAll b) \<longleftrightarrow> False"

fun lane_move :: "'b writer_command \<Rightarrow> lane \<times> nat \<Rightarrow> (lane \<times> nat) option" where
  "lane_move (BeginLease j) (ph, c) = (if ph = Fresh then Some (Opened, c) else None)"
| "lane_move (Data off d p key) (ph, c) = (if ph = Opened \<and> off = c then Some (Opened, c + length d) else None)"
| "lane_move (FlushLease j) (ph, c) = (if ph = Opened then Some (Flushed, c) else None)"
| "lane_move (DiscardLease j) (ph, c) = (if ph = Opened then Some (Dropped, c) else None)"
| "lane_move (FlushAll b) st = Some st"

fun lane_run :: "lease_key \<Rightarrow> 'b writer_command list \<Rightarrow> lane \<times> nat \<Rightarrow> (lane \<times> nat) option" where
  "lane_run k [] st = Some st"
| "lane_run k (cmd # q) st =
     (if touches k cmd then (case lane_move cmd st of None \<Rightarrow> None | Some st1 \<Rightarrow> lane_run k q st1) else lane_run k q st)"

lemma lane_run_append:
  "lane_run k (q @ q') st = (case lane_run k q st of None \<Rightarrow> None | Some st1 \<Rightarrow> lane_run k q' st1)"
  by (induction k q st rule: lane_run.induct) (auto split: option.split)

lemma lane_run_untouched: "(\<And>cmd. cmd \<in> set q \<Longrightarrow> \<not> touches k cmd) \<Longrightarrow> lane_run k q st = Some st"
  by (induction q) auto

lemma lane_move_offset: "lane_move cmd (ph, c) = Some (ph', c') \<Longrightarrow> c \<le> c'"
  by (cases cmd) (auto split: if_splits)

lemma lane_run_offset: "lane_run k q (ph, c) = Some (ph', e) \<Longrightarrow> c \<le> e"
proof (induction q arbitrary: ph c)
  case (Cons cmd q)
  show ?case
  proof (cases "touches k cmd")
    case True
    then obtain ph1 c1 where "lane_move cmd (ph, c) = Some (ph1, c1)" "lane_run k q (ph1, c1) = Some (ph', e)"
      using Cons.prems by (auto split: option.splits)
    then show ?thesis using Cons.IH lane_move_offset by fastforce
  qed (use Cons in simp)
qed simp

lemma lane_run_over:
  assumes "lane_run k q (ph, c) = Some st" "ph = Flushed \<or> ph = Dropped"
  shows "st = (ph, c)" "cmd \<in> set q \<Longrightarrow> \<not> touches k cmd"
proof -
  have m: "touches k cmd \<Longrightarrow> lane_move cmd (ph, c) = None" for cmd :: "'a writer_command"
    using assms(2) by (cases cmd) auto
  have "st = (ph, c) \<and> (\<forall>cmd \<in> set q. \<not> touches k cmd)"
    using assms(1) by (induction q) (auto simp: m split: if_splits)
  then show "st = (ph, c)" "cmd \<in> set q \<Longrightarrow> \<not> touches k cmd" by blast+
qed

lemma lane_run_barrier:
  assumes "lane_run k q (ph, c) = Some (ph', e)" "ph' = Flushed \<or> ph' = Dropped"
    "FlushLease k \<notin> set q" "DiscardLease k \<notin> set q"
  shows "ph = ph'" "c = e" "cmd \<in> set q \<Longrightarrow> \<not> touches k cmd"
proof -
  have "ph = Flushed \<or> ph = Dropped" using assms
  proof (induction q arbitrary: ph c)
    case (Cons cmd q)
    show ?case
    proof (cases "touches k cmd")
      case True
      then obtain ph1 c1 where m: "lane_move cmd (ph, c) = Some (ph1, c1)" "lane_run k q (ph1, c1) = Some (ph', e)"
        using Cons.prems by (auto split: option.splits)
      have "ph1 = Flushed \<or> ph1 = Dropped" using Cons.IH [OF m(2)] Cons.prems by simp
      then show ?thesis using m(1) True Cons.prems(3,4) by (cases cmd) (auto split: if_splits)
    qed (use Cons in simp)
  qed simp
  from lane_run_over [OF assms(1) this] show "ph = ph'" "c = e" "cmd \<in> set q \<Longrightarrow> \<not> touches k cmd" by simp_all
qed

section \<open>Invariant\<close>

fun lane_goals :: "attempt_state \<Rightarrow> lane set" where
  "lane_goals Streaming = {Opened}"
| "lane_goals Committing = {Flushed}"
| "lane_goals Retaining = {Flushed}"
| "lane_goals Discarding = {Dropped}"
| "lane_goals Settled = {Flushed, Dropped}"

text \<open>The writer has taken the chunks of the attempt up to \<open>c\<close>: it holds or has written the
  bytes of the object there, and the rest is in the channel.\<close>

definition lane_ok ::
  "(nat \<Rightarrow> 'b) \<Rightarrow> 'b writer_task \<Rightarrow> 'b writer_command list \<Rightarrow> lease_key \<Rightarrow> attempt \<Rightarrow> lane \<Rightarrow> nat \<Rightarrow> bool" where
  "lane_ok obj w q k a ph c \<longleftrightarrow>
     (ph = Opened \<longleftrightarrow> lease_open w k) \<and> br_start (at_range a) \<le> c \<and>
     (\<exists>g \<in> lane_goals (at_state a). lane_run k q (ph, c) = Some (g, br_start (at_range a) + at_sent a)) \<and>
     (at_state a = Settled \<longrightarrow> ph = Flushed \<or> ph = Dropped) \<and>
     (\<forall>i. held w k i \<longrightarrow> ph = Opened \<and> br_start (at_range a) \<le> i \<and> i < c) \<and>
     (at_state a \<noteq> Discarding \<longrightarrow> (\<forall>i. br_start (at_range a) \<le> i \<and> i < c \<longrightarrow> view w i = Some (obj i)))"

definition attempt_ok :: "(nat \<Rightarrow> 'b) \<Rightarrow> 'b transfer \<Rightarrow> lease_key \<Rightarrow> attempt \<Rightarrow> bool" where
  "attempt_ok obj t k a \<longleftrightarrow>
     lease_range (tr_sched t) k = Some (at_range a) \<and>
     at_sent a \<le> br_end (at_range a) - br_start (at_range a) \<and>
     (at_state a = Committing \<longrightarrow> at_sent a = br_end (at_range a) - br_start (at_range a)) \<and>
     (\<exists>ph c. lane_ok obj (tr_writer t) (tr_chan t) k a ph c)"

fun cmd_fine :: "(nat \<Rightarrow> 'b) \<Rightarrow> 'b writer_command \<Rightarrow> bool" where
  "cmd_fine obj (Data off d p key) \<longleftrightarrow> key \<noteq> None \<and> d = served obj off (length d) \<and> p = Some (length d)"
| "cmd_fine obj _ \<longleftrightarrow> True"

definition live_inv :: "(nat \<Rightarrow> 'b) \<Rightarrow> 'b transfer \<Rightarrow> bool" where
  "live_inv obj t \<longleftrightarrow>
     wr_good (tr_writer t) \<and> wt_single (tr_writer t) = None \<and>
     (\<forall>k. tr_attempts t k = None \<longrightarrow> \<not> lease_open (tr_writer t) k \<and> (\<forall>i. \<not> held (tr_writer t) k i)) \<and>
     (\<forall>k a. tr_attempts t k = Some a \<longrightarrow> attempt_ok obj t k a) \<and>
     (\<forall>cmd \<in> set (tr_chan t). cmd_fine obj cmd \<and> (\<forall>k. touches k cmd \<longrightarrow> tr_attempts t k \<noteq> None)) \<and>
     (\<forall>i \<in> acked (tr_sched t). view (tr_writer t) i = Some (obj i)) \<and>
     (tr_status t = WriterClosed \<longrightarrow> tr_durable t = view (tr_writer t) \<and> tr_chan t = [])"

text \<open>The bytes a checkpoint claims.\<close>

definition snapshot_bytes :: "control_snapshot \<Rightarrow> nat set" where
  "snapshot_bytes snap =
     (\<Union>i \<in> {i. is_complete (ctrl_piece_map snap) i}. piece_bytes (ctrl_piece_map snap) i)"

definition claim_ok :: "(nat \<Rightarrow> 'b) \<Rightarrow> 'b transfer \<Rightarrow> control_snapshot \<Rightarrow> bool" where
  "claim_ok obj t snap \<longleftrightarrow> (\<forall>i \<in> snapshot_bytes snap. tr_durable t i = Some (obj i))"

definition checkpoint_inv :: "(nat \<Rightarrow> 'b) \<Rightarrow> 'b transfer \<Rightarrow> bool" where
  "checkpoint_inv obj t \<longleftrightarrow>
     (\<forall>snap hints. tr_saved t = Some (snap, hints) \<longrightarrow>
        snapshot_bytes snap \<subseteq> acked (tr_sched t) \<and> claim_ok obj t snap) \<and>
     (\<forall>snap hints. tr_frozen t = Some (snap, hints) \<longrightarrow>
        snapshot_bytes snap \<subseteq> acked (tr_sched t) \<and> (FlushAll True \<in> set (tr_chan t) \<or> claim_ok obj t snap))"

definition transfer_inv :: "(nat \<Rightarrow> 'b) \<Rightarrow> nat \<Rightarrow> 'b transfer \<Rightarrow> bool" where
  "transfer_inv obj tsize t \<longleftrightarrow>
     sched_inv (tr_sched t) \<and> total_size (pmap (tr_sched t)) = tsize \<and> checkpoint_inv obj t \<and>
     (tr_status t \<noteq> WriterFailed \<longrightarrow> live_inv obj t)"

lemma live_invD:
  assumes "live_inv obj t"
  shows "wr_good (tr_writer t)" "wt_single (tr_writer t) = None"
    "tr_attempts t k = None \<Longrightarrow> \<not> lease_open (tr_writer t) k"
    "tr_attempts t k = None \<Longrightarrow> \<not> held (tr_writer t) k i"
    "tr_attempts t k = Some a \<Longrightarrow> attempt_ok obj t k a"
    "cmd \<in> set (tr_chan t) \<Longrightarrow> cmd_fine obj cmd"
    "cmd \<in> set (tr_chan t) \<Longrightarrow> touches k cmd \<Longrightarrow> tr_attempts t k \<noteq> None"
    "i \<in> acked (tr_sched t) \<Longrightarrow> view (tr_writer t) i = Some (obj i)"
  using assms unfolding live_inv_def by blast+

section \<open>Preservation\<close>

lemma attempt_ok_cong:
  "lease_range (tr_sched t') k = lease_range (tr_sched t) k \<Longrightarrow> tr_writer t' = tr_writer t \<Longrightarrow>
    tr_chan t' = tr_chan t \<Longrightarrow> attempt_ok obj t' k a = attempt_ok obj t k a"
  by (simp add: attempt_ok_def)

lemma live_sched:
  assumes L: "live_inv obj t" and leases: "\<And>k a. tr_attempts t k = Some a \<Longrightarrow> lease_range s' k = lease_range (tr_sched t) k"
    and new: "\<And>i. i \<in> acked s' \<Longrightarrow> view (tr_writer t) i = Some (obj i)"
  shows "live_inv obj (t\<lparr>tr_sched := s'\<rparr>)"
proof -
  have "attempt_ok obj (t\<lparr>tr_sched := s'\<rparr>) k a" if "tr_attempts t k = Some a" for k a
    using live_invD(5) [OF L that] leases [OF that] by (simp add: attempt_ok_def)
  then show ?thesis using L new by (simp add: live_inv_def)
qed

lemma lane_over:
  assumes L: "live_inv obj t" and k: "tr_attempts t k = Some a"
    and st: "at_state a = Settled \<or> at_state a \<noteq> Streaming \<and> barrier_passed k t"
  shows "\<not> lease_open (tr_writer t) k" "\<not> held (tr_writer t) k i" "cmd \<in> set (tr_chan t) \<Longrightarrow> \<not> touches k cmd"
    "at_state a = Committing \<or> at_state a = Retaining \<Longrightarrow> br_start (at_range a) \<le> i \<Longrightarrow>
      i < br_start (at_range a) + at_sent a \<Longrightarrow> view (tr_writer t) i = Some (obj i)"
    "lease_range (tr_sched t) k = Some (at_range a)"
    "at_state a = Committing \<Longrightarrow> at_sent a = br_end (at_range a) - br_start (at_range a)"
proof -
  obtain ph c g where A: "lease_range (tr_sched t) k = Some (at_range a)"
    "at_state a = Committing \<longrightarrow> at_sent a = br_end (at_range a) - br_start (at_range a)"
    "ph = Opened \<longleftrightarrow> lease_open (tr_writer t) k" "g \<in> lane_goals (at_state a)"
    "lane_run k (tr_chan t) (ph, c) = Some (g, br_start (at_range a) + at_sent a)"
    "at_state a = Settled \<longrightarrow> ph = Flushed \<or> ph = Dropped" "\<forall>i. held (tr_writer t) k i \<longrightarrow> ph = Opened"
    "at_state a \<noteq> Discarding \<longrightarrow> (\<forall>i. br_start (at_range a) \<le> i \<and> i < c \<longrightarrow> view (tr_writer t) i = Some (obj i))"
    using live_invD(5) [OF L k] unfolding attempt_ok_def lane_ok_def by blast
  have g: "g = Flushed \<or> g = Dropped" if "at_state a \<noteq> Streaming" using A(4) that by (cases "at_state a") auto
  have "(ph = Flushed \<or> ph = Dropped) \<and> c = br_start (at_range a) + at_sent a \<and> (cmd \<in> set (tr_chan t) \<longrightarrow> \<not> touches k cmd)"
  proof (cases "at_state a = Settled")
    case True
    then show ?thesis using lane_run_over [OF A(5)] A(6) by simp
  next
    case False
    then have b: "at_state a \<noteq> Streaming" "FlushLease k \<notin> set (tr_chan t)" "DiscardLease k \<notin> set (tr_chan t)"
      using st by (simp_all add: barrier_passed_def)
    show ?thesis using lane_run_barrier [OF A(5) g [OF b(1)] b(2,3)] g [OF b(1)] by simp
  qed
  then show "\<not> lease_open (tr_writer t) k" "\<not> held (tr_writer t) k i" "cmd \<in> set (tr_chan t) \<Longrightarrow> \<not> touches k cmd"
    "at_state a = Committing \<or> at_state a = Retaining \<Longrightarrow> br_start (at_range a) \<le> i \<Longrightarrow>
      i < br_start (at_range a) + at_sent a \<Longrightarrow> view (tr_writer t) i = Some (obj i)"
    "lease_range (tr_sched t) k = Some (at_range a)"
    "at_state a = Committing \<Longrightarrow> at_sent a = br_end (at_range a) - br_start (at_range a)"
    using A by auto
qed

text \<open>Releasing a lease whose lane is over, or that was never begun.\<close>

lemma live_release:
  assumes L: "live_inv obj t"
    and over: "\<not> lease_open (tr_writer t) k" "\<And>i. \<not> held (tr_writer t) k i"
      "\<And>cmd. cmd \<in> set (tr_chan t) \<Longrightarrow> \<not> touches k cmd"
    and leases: "\<And>j r. j \<noteq> k \<Longrightarrow> lease_range (tr_sched t) j = Some r \<Longrightarrow> lease_range s' j = Some r"
    and new: "\<And>i. i \<in> acked s' \<Longrightarrow> view (tr_writer t) i = Some (obj i)"
  shows "live_inv obj (set_attempt k None (t\<lparr>tr_sched := s'\<rparr>))"
proof -
  let ?t = "set_attempt k None (t\<lparr>tr_sched := s'\<rparr>)"
  have "attempt_ok obj ?t j a" if "tr_attempts ?t j = Some a" for j a
  proof -
    have j: "j \<noteq> k" "tr_attempts t j = Some a" using that by (auto simp: set_attempt_def split: if_splits)
    show ?thesis using live_invD(5) [OF L j(2)] leases [OF j(1)] by (auto simp: attempt_ok_def set_attempt_def)
  qed
  then show ?thesis using L over new unfolding live_inv_def by (auto simp: set_attempt_def)
qed

text \<open>An attempt whose lane is over may be relabelled as settled.\<close>

lemma live_settled:
  assumes L: "live_inv obj t" and k: "tr_attempts t k = Some a"
    and st: "at_state a \<noteq> Streaming" "barrier_passed k t"
    and range: "lease_range s' k = Some r"
    and leases: "\<And>j r. j \<noteq> k \<Longrightarrow> lease_range (tr_sched t) j = Some r \<Longrightarrow> lease_range s' j = Some r"
    and new: "\<And>i. i \<in> acked s' \<Longrightarrow> view (tr_writer t) i = Some (obj i)"
  shows "live_inv obj (set_attempt k (Some \<lparr>at_range = r, at_sent = 0, at_state = Settled\<rparr>) (t\<lparr>tr_sched := s'\<rparr>))"
proof -
  let ?a = "\<lparr>at_range = r, at_sent = 0, at_state = Settled\<rparr>"
  let ?t = "set_attempt k (Some ?a) (t\<lparr>tr_sched := s'\<rparr>)"
  have "at_state a = Settled \<or> at_state a \<noteq> Streaming \<and> barrier_passed k t" using st by blast
  note O = lane_over [OF L k this]
  have "lane_run k (tr_chan t) (Flushed, br_start r) = Some (Flushed, br_start r)"
    by (rule lane_run_untouched) (rule O(3))
  then have "lane_ok obj (tr_writer t) (tr_chan t) k ?a Flushed (br_start r)" using O(1,2) by (auto simp: lane_ok_def)
  then have ok: "attempt_ok obj ?t k ?a" using range by (auto simp: attempt_ok_def set_attempt_def)
  have "attempt_ok obj ?t j b" if "tr_attempts ?t j = Some b" for j b
  proof (cases "j = k")
    case True
    then show ?thesis using ok that by (simp add: set_attempt_def)
  next
    case False
    then have "tr_attempts t j = Some b" using that by (simp add: set_attempt_def)
    from live_invD(5) [OF L this] show ?thesis using leases [OF False] by (auto simp: attempt_ok_def set_attempt_def)
  qed
  then show ?thesis using L new unfolding live_inv_def by (auto simp: set_attempt_def)
qed

text \<open>Sending a command of a streaming attempt.\<close>

lemma live_send:
  assumes L: "live_inv obj t" and open_: "tr_status t = WriterOpen"
    and k: "tr_attempts t k = Some a \<and> at_state a = Streaming"
    and a': "at_range a' = at_range a" "at_sent a' \<le> br_end (at_range a) - br_start (at_range a)" "at_state a' \<noteq> Settled"
      "at_state a' = Committing \<Longrightarrow> at_sent a' = br_end (at_range a) - br_start (at_range a)"
    and cmd: "\<And>j. touches j cmd \<longleftrightarrow> j = k" "cmd_fine obj cmd"
    and move: "g \<in> lane_goals (at_state a')"
      "lane_move cmd (Opened, br_start (at_range a) + at_sent a) = Some (g, br_start (at_range a) + at_sent a')"
  shows "live_inv obj (set_attempt k (Some a') (send cmd t))"
proof -
  let ?t = "set_attempt k (Some a') (send cmd t)" and ?q = "tr_chan t @ [cmd]"
  obtain ph c where A: "lease_range (tr_sched t) k = Some (at_range a)" "lane_ok obj (tr_writer t) (tr_chan t) k a ph c"
    using live_invD(5) [OF L, of k a] k unfolding attempt_ok_def by blast
  have "lane_run k ?q (ph, c) = Some (g, br_start (at_range a) + at_sent a')"
    using A(2) k move(2) cmd(1) by (simp add: lane_ok_def lane_run_append)
  then have "lane_ok obj (tr_writer t) ?q k a' ph c" using A(2) a' k move(1) by (auto simp: lane_ok_def)
  then have ok: "attempt_ok obj ?t k a'" using A(1) a' by (auto simp: attempt_ok_def set_attempt_def send_def)
  have "attempt_ok obj ?t j b" if "tr_attempts ?t j = Some b" for j b
  proof (cases "j = k")
    case True
    then show ?thesis using ok that by (simp add: set_attempt_def send_def)
  next
    case False
    then have j: "tr_attempts t j = Some b" using that by (simp add: set_attempt_def send_def)
    have "lane_run j ?q st = lane_run j (tr_chan t) st" for st
      using cmd(1) False by (simp add: lane_run_append split: option.split)
    then show ?thesis using live_invD(5) [OF L j] by (simp add: attempt_ok_def lane_ok_def set_attempt_def send_def)
  qed
  then show ?thesis using L cmd k open_ unfolding live_inv_def by (auto simp: set_attempt_def send_def)
qed

lemma live_begin:
  assumes L: "live_inv obj t" and open_: "tr_status t = WriterOpen" and k: "tr_attempts t k = None"
    and r: "lease_range (tr_sched t) k = Some r"
  shows "live_inv obj (set_attempt k (Some \<lparr>at_range = r, at_sent = 0, at_state = Streaming\<rparr>) (send (BeginLease k) t))"
proof -
  let ?a = "\<lparr>at_range = r, at_sent = 0, at_state = Streaming\<rparr>"
  let ?t = "set_attempt k (Some ?a) (send (BeginLease k) t)" and ?q = "tr_chan t @ [BeginLease k]"
  have "lane_run k (tr_chan t) (Fresh, br_start r) = Some (Fresh, br_start r)"
    by (rule lane_run_untouched) (use live_invD(7) [OF L] k in blast)
  then have "lane_ok obj (tr_writer t) ?q k ?a Fresh (br_start r)"
    using live_invD(3,4) [OF L k] by (auto simp: lane_ok_def lane_run_append)
  then have ok: "attempt_ok obj ?t k ?a" using r by (auto simp: attempt_ok_def set_attempt_def send_def)
  have "attempt_ok obj ?t j b" if "tr_attempts ?t j = Some b" for j b
  proof (cases "j = k")
    case True
    then show ?thesis using ok that by (simp add: set_attempt_def send_def)
  next
    case False
    then have j: "tr_attempts t j = Some b" using that by (simp add: set_attempt_def send_def)
    have "lane_run j ?q st = lane_run j (tr_chan t) st" for st
      using False by (simp add: lane_run_append split: option.split)
    then show ?thesis using live_invD(5) [OF L j] by (simp add: attempt_ok_def lane_ok_def set_attempt_def send_def)
  qed
  then show ?thesis using L open_ unfolding live_inv_def by (auto simp: set_attempt_def send_def)
qed

text \<open>The writer takes the first command of the channel.\<close>

lemma lease_disjoint:
  assumes "sched_inv s" "lease_range s j = Some r" "lease_range s k = Some r'" "j \<noteq> k" "i \<in> br_bytes r"
  shows "i \<notin> br_bytes r'"
  using ledger_invD(4) [OF sched_ledger_inv [OF assms(1)], of j r k r'] assms by auto

lemma lease_bytes:
  assumes "sched_inv s" "lease_range s j = Some r"
  shows "br_ok r" "br_end r \<le> total_size (pmap s)" "total_size (pmap s) \<le> u64_max" "br_bytes r \<inter> acked s = {}"
proof -
  note I = sched_ledger_inv [OF assms(1)]
  show ok: "br_ok r" using ledger_invD(1) [OF I] assms(2) by simp
  show "br_bytes r \<inter> acked s = {}" using ledger_invD(3) [OF I] assms(2) by simp
  have "br_end r - 1 \<in> br_bytes r" using ok by (auto simp: br_bytes_def br_ok_def)
  then have "br_end r - 1 \<in> {b. \<exists>k r. lg_leases (sched_ledger s) k = Some r \<and> b \<in> br_bytes r}" using assms(2) by auto
  then have "br_end r - 1 \<in> {0..<total_size (pmap s)}" unfolding ledger_invD(6) [OF I, symmetric] by blast
  then show "br_end r \<le> total_size (pmap s)" using ok by (auto simp: br_ok_def)
  show "total_size (pmap s) \<le> u64_max" using sched_inv_map [OF assms(1)] by (simp add: pm_inv_def geometry_ok_def)
qed

lemma served_nth: "i < n \<Longrightarrow> served obj off n ! i = obj (off + i)" "length (served obj off n) = n"
  by (simp_all add: served_def)

text \<open>A chunk at the head of the channel may be stored: it lies in its lease, after what
  the writer already holds.\<close>

lemma head_chunk:
  assumes L: "live_inv obj t" and inv: "sched_inv (tr_sched t)"
    and q: "tr_chan t = Data off d p (Some k) # rest"
  shows "cmd_ok (tr_writer t) (Data off d p (Some k))" "accepts (tr_writer t) (Some k)"
proof -
  have mem: "Data off d p (Some k) \<in> set (tr_chan t)" using q by simp
  obtain a where a: "tr_attempts t k = Some a" using live_invD(7) [OF L mem, of k] by auto
  obtain ph c g where A: "lease_range (tr_sched t) k = Some (at_range a)"
    "at_sent a \<le> br_end (at_range a) - br_start (at_range a)" "ph = Opened \<longleftrightarrow> lease_open (tr_writer t) k"
    "br_start (at_range a) \<le> c"
    "lane_run k (tr_chan t) (ph, c) = Some (g, br_start (at_range a) + at_sent a)"
    "\<forall>i. held (tr_writer t) k i \<longrightarrow> i < c"
    using live_invD(5) [OF L a] unfolding attempt_ok_def lane_ok_def by blast
  have ph: "ph = Opened" "off = c" "lane_run k rest (Opened, c + length d) = Some (g, br_start (at_range a) + at_sent a)"
    using A(5) q by (auto split: if_splits)
  note B = lease_bytes [OF inv A(1)]
  have e: "c + length d \<le> br_end (at_range a)"
    using lane_run_offset [OF ph(3)] A(2) B(1) by (simp add: br_ok_def)
  have "\<not> Writer_View.covered (tr_writer t) x i" if i: "off \<le> i" "i < off + length d" for x i
  proof (cases x)
    case None
    then show ?thesis using live_invD(2) [OF L] by (simp add: Writer_View.covered_def)
  next
    case (Some j)
    show ?thesis
    proof (cases "j = k")
      case True
      then show ?thesis using A(6) i ph(2) Some by auto
    next
      case False
      have ik: "i \<in> br_bytes (at_range a)" using i e A(4) ph(2) by (simp add: br_bytes_def)
      show ?thesis
      proof (cases "tr_attempts t j")
        case None
        then show ?thesis using live_invD(4) [OF L] Some by simp
      next
        case (Some b)
        obtain ph' c' g' where C: "lease_range (tr_sched t) j = Some (at_range b)"
          "at_sent b \<le> br_end (at_range b) - br_start (at_range b)"
          "lane_run j (tr_chan t) (ph', c') = Some (g', br_start (at_range b) + at_sent b)"
          "\<forall>i. held (tr_writer t) j i \<longrightarrow> br_start (at_range b) \<le> i \<and> i < c'"
          using live_invD(5) [OF L Some] unfolding attempt_ok_def lane_ok_def by blast
        have "held (tr_writer t) j i \<Longrightarrow> i \<in> br_bytes (at_range b)"
          using C(4) lane_run_offset [OF C(3)] C(2) by (fastforce simp: br_bytes_def)
        then show ?thesis using lease_disjoint [OF inv A(1) C(1) _ ik] False \<open>x = Some j\<close> by auto
      qed
    qed
  qed
  then have "chunk_free (tr_writer t) off d" by (simp add: chunk_free_def)
  moreover have "off + length d \<le> u64_max" using e ph(2) B(2,3) by simp
  ultimately show "cmd_ok (tr_writer t) (Data off d p (Some k))"
    using live_invD(6) [OF L mem] by (simp add: permit_for_def)
  show "accepts (tr_writer t) (Some k)" using A(3) ph(1) by (simp add: accepts_def lease_open_def)
qed

lemma head_ok:
  assumes L: "live_inv obj t" and inv: "sched_inv (tr_sched t)" and q: "tr_chan t = cmd # rest"
  shows "cmd_ok (tr_writer t) cmd" "keyed cmd"
proof -
  have "cmd_fine obj cmd" using live_invD(6) [OF L] q by simp
  then show "cmd_ok (tr_writer t) cmd" "keyed cmd" using head_chunk(1) [OF L inv] q by (cases cmd; auto)+
qed

lemma head_view:
  assumes L: "live_inv obj t" and inv: "sched_inv (tr_sched t)" and q: "tr_chan t = cmd # rest"
    and h: "handle flt cmd (tr_writer t) = (Inr ack, w')"
  shows "view (tr_writer t) i = Some (obj i) \<Longrightarrow> (\<And>k. cmd = DiscardLease k \<Longrightarrow> \<not> held (tr_writer t) k i) \<Longrightarrow>
      view w' i = Some (obj i)"
    "cmd = Data off d p key \<Longrightarrow> off \<le> i \<Longrightarrow> i < off + length d \<Longrightarrow> view w' i = Some (obj i)"
proof -
  have v: "view w' = view_after (tr_writer t) cmd"
    using handle_ok [OF live_invD(1) [OF L] head_ok(1) [OF L inv q] h] by blast
  have fine: "cmd_fine obj cmd" using live_invD(6) [OF L] q by simp
  have data: "view w' i = (if off \<le> i \<and> i < off + length d then Some (obj i) else view (tr_writer t) i)"
    if c: "cmd = Data off d p key" for off d p key
  proof -
    obtain k where k: "key = Some k" "d = served obj off (length d)" using fine c by auto
    have "d ! (i - off) = obj i" if "off \<le> i" "i < off + length d"
      using served_nth(1) [of "i - off" "length d" obj off] that k(2) by simp
    then show ?thesis using v c k(1) head_chunk(2) [OF L inv] q by (simp add: put_def)
  qed
  show "cmd = Data off d p key \<Longrightarrow> off \<le> i \<Longrightarrow> i < off + length d \<Longrightarrow> view w' i = Some (obj i)" using data by simp
  assume "view (tr_writer t) i = Some (obj i)" "\<And>k. cmd = DiscardLease k \<Longrightarrow> \<not> held (tr_writer t) k i"
  then show "view w' i = Some (obj i)" using v data by (cases cmd) auto
qed

lemma held_in_lease:
  assumes L: "live_inv obj t" and "held (tr_writer t) k i"
  shows "\<exists>r. lease_range (tr_sched t) k = Some r \<and> i \<in> br_bytes r"
proof -
  obtain a where a: "tr_attempts t k = Some a" using live_invD(4) [OF L] assms(2) by (cases "tr_attempts t k") auto
  obtain ph c g where C: "lease_range (tr_sched t) k = Some (at_range a)"
    "at_sent a \<le> br_end (at_range a) - br_start (at_range a)"
    "lane_run k (tr_chan t) (ph, c) = Some (g, br_start (at_range a) + at_sent a)"
    "br_start (at_range a) \<le> i \<and> i < c"
    using live_invD(5) [OF L a] assms(2) unfolding attempt_ok_def lane_ok_def by blast
  then show ?thesis using lane_run_offset [OF C(3)] by (fastforce simp: br_bytes_def)
qed

lemma lane_handle:
  assumes L: "live_inv obj t" and inv: "sched_inv (tr_sched t)" and q: "tr_chan t = cmd # rest"
    and h: "handle flt cmd (tr_writer t) = (Inr ack, w')"
    and r: "lease_range (tr_sched t) j = Some (at_range b)" "at_sent b \<le> br_end (at_range b) - br_start (at_range b)"
    and ok: "lane_ok obj (tr_writer t) (tr_chan t) j b ph c"
  shows "\<exists>ph c. lane_ok obj w' rest j b ph c"
proof -
  let ?w = "tr_writer t"
  obtain g where g: "g \<in> lane_goals (at_state b)" "lane_run j (cmd # rest) (ph, c) = Some (g, br_start (at_range b) + at_sent b)"
    using ok q by (auto simp: lane_ok_def)
  have O: "ph = Opened \<longleftrightarrow> lease_open ?w j" "br_start (at_range b) \<le> c" "at_state b = Settled \<Longrightarrow> ph = Flushed \<or> ph = Dropped"
    "\<And>i. held ?w j i \<Longrightarrow> ph = Opened \<and> br_start (at_range b) \<le> i \<and> i < c"
    "\<And>i. at_state b \<noteq> Discarding \<Longrightarrow> br_start (at_range b) \<le> i \<Longrightarrow> i < c \<Longrightarrow> view ?w i = Some (obj i)"
    using ok unfolding lane_ok_def by blast+
  note H = handle_leases [OF live_invD(1) [OF L] head_ok(1) [OF L inv q] h live_invD(2) [OF L] head_ok(2) [OF L inv q]]
  note V = head_view [OF L inv q h]
  show ?thesis
  proof (cases "touches j cmd")
    case False
    have "\<not> held ?w k i" if i: "br_start (at_range b) \<le> i" "i < c" and k: "cmd = DiscardLease k" for i k
    proof
      assume "held ?w k i"
      then obtain r' where r': "lease_range (tr_sched t) k = Some r'" "i \<in> br_bytes r'" using held_in_lease [OF L] by blast
      have "c \<le> br_start (at_range b) + at_sent b" using lane_run_offset [OF g(2)] .
      then have "i \<in> br_bytes (at_range b)" using i r(2) by (simp add: br_bytes_def)
      then show False using lease_disjoint [OF inv r(1) r'(1)] False k r'(2) by auto
    qed
    then have v: "view w' i = Some (obj i)" if "at_state b \<noteq> Discarding" "br_start (at_range b) \<le> i" "i < c" for i
      using V(1) [OF O(5) [OF that]] that(2,3) by blast
    have op: "lease_open w' j = lease_open ?w j" using H(4) [of j] False by auto
    have hd: "held ?w j i" if "held w' j i" for i using H(2) [OF that] False by auto
    have "lane_run j rest (ph, c) = Some (g, br_start (at_range b) + at_sent b)" using g(2) False by simp
    then have "lane_ok obj w' rest j b ph c"
      unfolding lane_ok_def op using O(1-3) O(4) [OF hd] v g(1) by blast
    then show ?thesis by blast
  next
    case True
    then obtain ph1 c1 where m: "lane_move cmd (ph, c) = Some (ph1, c1)"
      "lane_run j rest (ph1, c1) = Some (g, br_start (at_range b) + at_sent b)"
      using g(2) by (auto split: option.splits)
    have ns: "at_state b \<noteq> Settled" using m(1) O(3) True by (cases cmd) (auto split: if_splits)
    have nd: "at_state b = Discarding" if "cmd = DiscardLease j"
      using that ns m g(1) lane_run_over(1) [OF m(2)] by (cases "at_state b") (auto split: if_splits)
    have "ph1 = Opened \<longleftrightarrow> lease_open w' j" using m(1) True H(4) [of j] O(1) by (cases cmd) (auto split: if_splits)
    moreover have "br_start (at_range b) \<le> c1" using lane_move_offset [OF m(1)] O(2) by simp
    moreover have "ph1 = Opened \<and> br_start (at_range b) \<le> i \<and> i < c1" if "held w' j i" for i
      using H(2) [OF that] H(3) [of j i] that m(1) True O(2) O(4) [of i] by (cases cmd) (auto split: if_splits)
    moreover have "view w' i = Some (obj i)" if "at_state b \<noteq> Discarding" "br_start (at_range b) \<le> i" "i < c1" for i
    proof (cases "i < c")
      case True
      have "cmd \<noteq> DiscardLease k" for k using nd that(1) \<open>touches j cmd\<close> by auto
      then show ?thesis using V(1) [OF O(5) [OF that(1,2) True]] by blast
    next
      case False
      note i = that(3)
      obtain off d p key where "cmd = Data off d p key" "off = c" "c1 = c + length d"
        using m(1) i True False by (cases cmd) (auto split: if_splits)
      then show ?thesis using V(2) [of off d p key i] False i by simp
    qed
    ultimately have "lane_ok obj w' rest j b ph1 c1" using g(1) m(2) ns unfolding lane_ok_def by blast
    then show ?thesis by blast
  qed
qed

lemma live_handle:
  assumes L: "live_inv obj t" and inv: "sched_inv (tr_sched t)" and q: "tr_chan t = cmd # rest"
    and h: "handle flt cmd (tr_writer t) = (Inr ack, w')" and open_: "tr_status t = WriterOpen"
  shows "live_inv obj (t\<lparr>tr_writer := w', tr_chan := rest, tr_durable := d\<rparr>)"
proof -
  let ?t = "t\<lparr>tr_writer := w', tr_chan := rest, tr_durable := d\<rparr>"
  note H = handle_leases [OF live_invD(1) [OF L] head_ok(1) [OF L inv q] h live_invD(2) [OF L] head_ok(2) [OF L inv q]]
  have mem: "cmd \<in> set (tr_chan t)" using q by simp
  have idle: "\<not> lease_open w' k \<and> \<not> held w' k i" if "tr_attempts t k = None" for k i
  proof -
    have n: "\<not> touches k cmd" using live_invD(7) [OF L mem] that by blast
    then show ?thesis using H(4) [of k] H(2) [of k i] live_invD(3,4) [OF L that] by auto
  qed
  have "attempt_ok obj ?t k a" if "tr_attempts t k = Some a" for k a
    using live_invD(5) [OF L that] lane_handle [OF L inv q h] by (auto simp: attempt_ok_def)
  moreover have "view w' i = Some (obj i)" if "i \<in> acked (tr_sched t)" for i
  proof (rule head_view(1) [OF L inv q h live_invD(8) [OF L that]])
    fix k
    show "\<not> held (tr_writer t) k i" using held_in_lease [OF L, of k i] lease_bytes(4) [OF inv] that by blast
  qed
  moreover have "wr_good w'" using handle_ok [OF live_invD(1) [OF L] head_ok(1) [OF L inv q] h] by blast
  moreover have "tr_attempts t k \<noteq> None" if "x \<in> set rest" "touches k x" for x k
    using live_invD(7) [OF L _ that(2)] that(1) q by simp
  moreover have "cmd_fine obj x" if "x \<in> set rest" for x using live_invD(6) [OF L] that q by simp
  ultimately show ?thesis using H(1) idle open_ unfolding live_inv_def by simp
qed

lemma checkpoint_mono:
  assumes "checkpoint_inv obj t" "acked (tr_sched t) \<subseteq> acked (tr_sched t')" "tr_saved t' = tr_saved t"
    "tr_frozen t' = tr_frozen t" "tr_durable t' = tr_durable t"
    "FlushAll True \<in> set (tr_chan t) \<Longrightarrow> FlushAll True \<in> set (tr_chan t')"
  shows "checkpoint_inv obj t'"
  using assms unfolding checkpoint_inv_def claim_ok_def by (metis subset_trans)

text \<open>A sync barrier makes everything acknowledged so far durable.\<close>

lemma checkpoint_synced:
  assumes "checkpoint_inv obj t" "tr_sched t' = tr_sched t" "tr_saved t' = tr_saved t" "tr_frozen t' = tr_frozen t"
    "\<And>i. i \<in> acked (tr_sched t) \<Longrightarrow> tr_durable t' i = Some (obj i)"
  shows "checkpoint_inv obj t'"
  using assms unfolding checkpoint_inv_def claim_ok_def by (metis subsetD)

lemma snapshot_acked:
  assumes inv: "sched_inv s" and n: "mc_total_size ctx = total_size (pmap s)"
  shows "snapshot_bytes (multi_snapshot ctx s) \<subseteq> acked s"
proof -
  have m: "ctrl_piece_map (multi_snapshot ctx s) = pmap s"
    using lsb0.bitset_roundtrip [OF sched_inv_map [OF inv]] n
    by (simp add: ctrl_piece_map_def multi_snapshot_def snapshot_bitset_def)
  have "piece_bytes (pmap s) i \<subseteq> acked s" if "is_complete (pmap s) i" for i
    using piece_acked_all [OF inv, of i] that by (auto simp: is_complete_def sched_ledger_def)
  then show ?thesis unfolding snapshot_bytes_def m by blast
qed

lemma persist_freeze_cases:
  assumes "persist_freeze ctx reason tracker s = (x, tracker', s')" "sched_inv s"
  shows "s' = s \<or> s' = fst (control_hints s)" "x = Some (snap, hints) \<Longrightarrow> snap = multi_snapshot ctx s"
  using assms by (auto simp: persist_freeze_def Let_def split: if_splits prod.splits)

lemma transfer_moved:
  assumes I: "transfer_inv obj n t" and m: "sched_moved (tr_sched t) A (tr_sched t')"
    and same: "tr_saved t' = tr_saved t" "tr_frozen t' = tr_frozen t" "tr_durable t' = tr_durable t"
      "FlushAll True \<in> set (tr_chan t) \<Longrightarrow> FlushAll True \<in> set (tr_chan t')"
    and live: "tr_status t' \<noteq> WriterFailed \<Longrightarrow> live_inv obj t'"
  shows "transfer_inv obj n t' \<and> next_lease_id (tr_sched t') \<le> next_lease_id (tr_sched t) + OP_COST"
proof -
  have "checkpoint_inv obj t'"
    using I m by (intro checkpoint_mono [OF _ _ same]) (auto simp: transfer_inv_def sched_moved_def)
  then show ?thesis using I m live by (simp add: transfer_inv_def sched_moved_def)
qed

lemma stream_step_inv:
  assumes I: "transfer_inv obj n t" and s: "stream_step k ok f t = Some t'"
    and f: "\<And>a. tr_attempts t k = Some a \<Longrightarrow> at_state a = Streaming \<Longrightarrow> ok a \<Longrightarrow>
        at_range (snd (f a)) = at_range a \<and> at_sent (snd (f a)) \<le> br_end (at_range a) - br_start (at_range a) \<and>
        at_state (snd (f a)) \<noteq> Settled \<and>
        (at_state (snd (f a)) = Committing \<longrightarrow> at_sent (snd (f a)) = br_end (at_range a) - br_start (at_range a)) \<and>
        (\<forall>j. touches j (fst (f a)) \<longleftrightarrow> j = k) \<and> cmd_fine obj (fst (f a)) \<and>
        (\<exists>g \<in> lane_goals (at_state (snd (f a))). lane_move (fst (f a)) (Opened, br_start (at_range a) + at_sent a) =
          Some (g, br_start (at_range a) + at_sent (snd (f a))))"
  shows "transfer_inv obj n t' \<and> next_lease_id (tr_sched t') \<le> next_lease_id (tr_sched t) + OP_COST"
proof -
  obtain a where a: "tr_attempts t k = Some a" "tr_status t = WriterOpen" "at_state a = Streaming" "ok a"
    and t': "t' = set_attempt k (Some (snd (f a))) (send (fst (f a)) t)"
    using s by (auto simp: stream_step_def split: option.splits if_splits prod.splits)
  have L: "live_inv obj t" using I a(2) by (simp add: transfer_inv_def)
  note F = f [OF a(1,3,4)]
  then obtain g where g: "g \<in> lane_goals (at_state (snd (f a)))"
    "lane_move (fst (f a)) (Opened, br_start (at_range a) + at_sent a) = Some (g, br_start (at_range a) + at_sent (snd (f a)))"
    by blast
  have "live_inv obj t'" unfolding t'
    by (rule live_send [OF L a(2) _ _ _ _ _ _ _ g]) (use F a in blast)+
  moreover have "sched_moved (tr_sched t) {} (tr_sched t')"
    using I by (simp add: t' set_attempt_def send_def transfer_inv_def sched_moved_def)
  ultimately show ?thesis by (intro transfer_moved [OF I]) (simp_all add: t' set_attempt_def send_def)
qed

lemma release_step_inv:
  assumes I: "transfer_inv obj n t" and room: "roomy (tr_sched t)" and may: "may_release k t"
    and s': "sched_moved (tr_sched t) {} s'"
      "\<And>j r. j \<noteq> k \<Longrightarrow> lease_range (tr_sched t) j = Some r \<Longrightarrow> lease_range s' j = Some r"
  shows "transfer_inv obj n (set_attempt k None (t\<lparr>tr_sched := s'\<rparr>)) \<and>
    next_lease_id s' \<le> next_lease_id (tr_sched t) + OP_COST"
proof -
  let ?t = "set_attempt k None (t\<lparr>tr_sched := s'\<rparr>)"
  have "live_inv obj ?t" if "tr_status t \<noteq> WriterFailed"
  proof -
    have L: "live_inv obj t" using I that by (simp add: transfer_inv_def)
    have "\<not> lease_open (tr_writer t) k \<and> (\<forall>i. \<not> held (tr_writer t) k i) \<and> (\<forall>cmd \<in> set (tr_chan t). \<not> touches k cmd)"
    proof (cases "tr_attempts t k")
      case None
      then show ?thesis using live_invD(3,4,7) [OF L, where k = k] by blast
    next
      case (Some a)
      then have "at_state a = Settled" using may that by (simp add: may_release_def)
      then show ?thesis using lane_over(1,2,3) [OF L Some] by blast
    qed
    moreover have "acked s' = acked (tr_sched t)" using s'(1) by (simp add: sched_moved_def)
    ultimately show ?thesis using live_invD(8) [OF L] by (intro live_release [OF L] s'(2)) auto
  qed
  then show ?thesis using transfer_moved [OF I, of "{}" ?t] s'(1) by (simp add: set_attempt_def)
qed

lemma settle_step_inv:
  assumes I: "transfer_inv obj n t" and room: "roomy (tr_sched t)" and s: "settle_step k t = Some t'"
  shows "transfer_inv obj n t' \<and> next_lease_id (tr_sched t') \<le> next_lease_id (tr_sched t) + OP_COST"
proof -
  have inv: "sched_inv (tr_sched t)" using I by (simp add: transfer_inv_def)
  obtain a where a: "tr_attempts t k = Some a" "barrier_passed k t" "at_state a = Retaining \<or> at_state a = Discarding"
    using s by (auto simp: settle_step_def split: option.splits if_splits)
  show ?thesis
  proof (cases "tr_status t = WriterFailed")
    case True
    show ?thesis
    proof (cases "at_state a = Retaining")
      case ret: True
      then obtain s' where s': "retain_prefix (tr_sched t) k (br_start (at_range a) + at_sent a) = (s', True)"
        and t': "t' = set_attempt k (Some \<lparr>at_range = (at_range a)\<lparr>br_start := br_start (at_range a) + at_sent a\<rparr>,
          at_sent = 0, at_state = Settled\<rparr>) (t\<lparr>tr_sched := s'\<rparr>)"
        using s a by (auto simp: settle_step_def Let_def split: prod.splits bool.splits)
      have "op_ok (tr_sched t) (sched_acks (OpRetain k (br_start (at_range a) + at_sent a)) (tr_sched t)) s'"
        using sched_exec_ok [OF inv room, of "OpRetain k (br_start (at_range a) + at_sent a)"] s' by simp
      from op_ok_moved [OF this inv] show ?thesis
        using True by (intro transfer_moved [OF I]) (simp_all add: t' set_attempt_def)
    next
      case False
      then have t': "t' = set_attempt k (Some (a\<lparr>at_sent := 0, at_state := Settled\<rparr>)) t"
        using s a by (auto simp: settle_step_def)
      show ?thesis using True sched_moved_refl [OF inv]
        by (intro transfer_moved [OF I, where A = "{}"]) (simp_all add: t' set_attempt_def)
    qed
  next
    case False
    then have L: "live_inv obj t" using I by (simp add: transfer_inv_def)
    have ns: "at_state a \<noteq> Streaming" using a(3) by auto
    have over: "at_state a = Settled \<or> at_state a \<noteq> Streaming \<and> barrier_passed k t" using ns a(2) by blast
    note O = lane_over [OF L a(1) over]
    show ?thesis
    proof (cases "at_state a = Retaining")
      case ret: True
      let ?e = "br_start (at_range a) + at_sent a"
      obtain s' where s': "retain_prefix (tr_sched t) k ?e = (s', True)"
        and t': "t' = set_attempt k (Some \<lparr>at_range = (at_range a)\<lparr>br_start := ?e\<rparr>, at_sent = 0, at_state = Settled\<rparr>)
          (t\<lparr>tr_sched := s'\<rparr>)"
        using s a ret by (auto simp: settle_step_def Let_def split: prod.splits bool.splits)
      note M = settle_moved(5) [OF inv room O(5) s']
      have ack: "acked s' = acked (tr_sched t) \<union> {br_start (at_range a)..<?e}" using M by (simp add: sched_moved_def)
      have "view (tr_writer t) i = Some (obj i)" if "i \<in> acked s'" for i
        using that live_invD(8) [OF L] O(4) ret unfolding ack by auto
      then have "live_inv obj t'" unfolding t'
        using M settle_frame(5) [OF inv room, where k = k and c = ?e] s'
        by (intro live_settled [OF L a(1) ns a(2)]) auto
      then show ?thesis using M by (intro transfer_moved [OF I, of "{br_start (at_range a)..<?e}"]) (simp_all add: t' set_attempt_def)
    next
      case nr: False
      have t': "t' = set_attempt k (Some \<lparr>at_range = at_range a, at_sent = 0, at_state = Settled\<rparr>)
          (t\<lparr>tr_sched := tr_sched t\<rparr>)"
        using s a nr by (cases a) (auto simp: settle_step_def)
      have "live_inv obj t'" unfolding t'
        using O(5) live_invD(8) [OF L] by (intro live_settled [OF L a(1) ns a(2)]) auto
      then show ?thesis using sched_moved_refl [OF inv]
        by (intro transfer_moved [OF I, where A = "{}"]) (simp_all add: t' set_attempt_def)
    qed
  qed
qed

lemma complete_step_inv:
  assumes I: "transfer_inv obj n t" and room: "roomy (tr_sched t)" and s: "complete_step k t = Some t'"
  shows "transfer_inv obj n t' \<and> next_lease_id (tr_sched t') \<le> next_lease_id (tr_sched t) + OP_COST"
proof -
  have inv: "sched_inv (tr_sched t)" using I by (simp add: transfer_inv_def)
  let ?s = "fst (complete (tr_sched t) k)"
  obtain a where a: "tr_attempts t k = Some a" "barrier_passed k t" "at_state a = Committing"
    and t': "t' = set_attempt k None (t\<lparr>tr_sched := ?s\<rparr>)"
    using s by (auto simp: complete_step_def split: option.splits if_splits)
  have "op_ok (tr_sched t) (sched_acks (OpComplete k) (tr_sched t)) ?s"
    using sched_exec_ok [OF inv room, of "OpComplete k"] by simp
  note M = op_ok_moved [OF this inv]
  have "live_inv obj t'" if "tr_status t \<noteq> WriterFailed"
  proof -
    have L: "live_inv obj t" using I that by (simp add: transfer_inv_def)
    have over: "at_state a = Settled \<or> at_state a \<noteq> Streaming \<and> barrier_passed k t" using a by simp
    note O = lane_over [OF L a(1) over]
    have ack: "acked ?s = acked (tr_sched t) \<union> br_bytes (at_range a)"
      using settle_moved(4) [OF inv room O(5)] by (simp add: sched_moved_def)
    have "view (tr_writer t) i = Some (obj i)" if "i \<in> br_bytes (at_range a)" for i
      using that O(4) [of i] O(6) a(3) by (simp add: br_bytes_def)
    then have "view (tr_writer t) i = Some (obj i)" if "i \<in> acked ?s" for i
      using that live_invD(8) [OF L] unfolding ack by blast
    then show ?thesis unfolding t' using O(1-3) settle_frame(4) [OF inv room] by (intro live_release [OF L]) auto
  qed
  then show ?thesis using M by (intro transfer_moved [OF I]) (simp_all add: t' set_attempt_def)
qed

lemma handle_step_inv:
  assumes I: "transfer_inv obj n t" and s: "handle_step flt t = Some t'"
  shows "transfer_inv obj n t' \<and> next_lease_id (tr_sched t') \<le> next_lease_id (tr_sched t) + OP_COST"
proof -
  have inv: "sched_inv (tr_sched t)" using I by (simp add: transfer_inv_def)
  obtain cmd rest where q: "tr_chan t = cmd # rest" and op: "tr_status t = WriterOpen"
    using s by (auto simp: handle_step_def split: list.splits if_splits)
  have L: "live_inv obj t" using I op by (simp add: transfer_inv_def)
  obtain res w where h: "handle flt cmd (tr_writer t) = (res, w)" by fastforce
  show ?thesis
  proof (cases res)
    case (Inl e)
    then have t': "t' = t\<lparr>tr_writer := w, tr_status := WriterFailed\<rparr>" using s q op h by (simp add: handle_step_def)
    show ?thesis using sched_moved_refl [OF inv] by (intro transfer_moved [OF I, where A = "{}"]) (simp_all add: t')
  next
    case (Inr ack)
    note h' = h [unfolded Inr]
    define d where "d = (case cmd of FlushAll True \<Rightarrow> dk_bytes (wt_disk w) | _ \<Rightarrow> tr_durable t)"
    have t': "t' = t\<lparr>tr_writer := w, tr_chan := rest, tr_durable := d\<rparr>"
      using s q op h' by (simp add: handle_step_def d_def)
    have live: "live_inv obj t'" unfolding t' by (rule live_handle [OF L inv q h' op])
    have c: "checkpoint_inv obj t" using I by (simp add: transfer_inv_def)
    have "checkpoint_inv obj t'"
    proof (cases "cmd = FlushAll True")
      case True
      then have "dk_bytes (wt_disk w) = view (tr_writer t)"
        using handle_ok [OF live_invD(1) [OF L] head_ok(1) [OF L inv q] h'] by blast
      then have "d i = Some (obj i)" if "i \<in> acked (tr_sched t)" for i
        using that live_invD(8) [OF L] True by (simp add: d_def)
      then show ?thesis by (intro checkpoint_synced [OF c]) (simp_all add: t')
    next
      case False
      then have "d = tr_durable t" by (auto simp: d_def split: writer_command.split bool.split)
      then show ?thesis using False q by (intro checkpoint_mono [OF c]) (auto simp: t')
    qed
    then show ?thesis using I live by (simp add: transfer_inv_def t')
  qed
qed

lemma close_step_inv:
  assumes I: "transfer_inv obj n t" and s: "close_step flt t = Some t'"
  shows "transfer_inv obj n t' \<and> next_lease_id (tr_sched t') \<le> next_lease_id (tr_sched t) + OP_COST"
proof -
  have inv: "sched_inv (tr_sched t)" using I by (simp add: transfer_inv_def)
  have op: "tr_status t = WriterOpen" "tr_chan t = []" using s by (auto simp: close_step_def split: if_splits)
  have L: "live_inv obj t" using I op by (simp add: transfer_inv_def)
  obtain res w where r: "run_writer flt [] (tr_writer t) = (res, w)" by fastforce
  show ?thesis
  proof (cases res)
    case (Inl e)
    then have t': "t' = t\<lparr>tr_writer := w, tr_status := WriterFailed\<rparr>" using s op r by (simp add: close_step_def)
    show ?thesis using sched_moved_refl [OF inv] by (intro transfer_moved [OF I, where A = "{}"]) (simp_all add: t')
  next
    case (Inr u)
    have t': "t' = t\<lparr>tr_writer := w, tr_status := WriterClosed, tr_durable := dk_bytes (wt_disk w)\<rparr>"
      using s op r Inr by (simp add: close_step_def)
    obtain v w1 where w1: "flush_all flt (tr_writer t) = (Inr v, w1)" "sync_file flt w1 = (Inr u, w)"
      using r [unfolded Inr run_writer.simps(1) wr_then_ok] unfolding sync_file_def wr_then_ok by blast
    have "handle flt (FlushAll True) (tr_writer t) = (Inr (AllFlushed (written_bytes w) True), w)"
      by (simp add: w1)
    note h = this
    have ok: "cmd_ok (tr_writer t) (FlushAll True)" "keyed (FlushAll True)" by simp_all
    let ?t0 = "t\<lparr>tr_chan := [FlushAll True]\<rparr>"
    have "lane_run k [FlushAll True] st = Some st" for k st by simp
    then have L0: "live_inv obj ?t0"
      using L op unfolding live_inv_def by (simp add: attempt_ok_def lane_ok_def)
    have live0: "live_inv obj (t\<lparr>tr_writer := w, tr_chan := [], tr_durable := dk_bytes (wt_disk w)\<rparr>)"
      using live_handle [OF L0, of "FlushAll True" "[]" flt] inv h op by simp
    have v: "dk_bytes (wt_disk w) = view (tr_writer t)" "view w = view (tr_writer t)"
      using handle_ok [OF live_invD(1) [OF L] ok(1) h] by auto
    have "live_inv obj t'" using live0 op v unfolding t' live_inv_def by (simp add: attempt_ok_def)
    moreover have c: "checkpoint_inv obj t" using I by (simp add: transfer_inv_def)
    have "checkpoint_inv obj t'" by (rule checkpoint_synced [OF c]) (simp_all add: t' v live_invD(8) [OF L])
    ultimately show ?thesis using I by (simp add: transfer_inv_def t')
  qed
qed

lemma freeze_step_inv:
  assumes I: "transfer_inv obj n t" and ctx: "mc_total_size ctx = n" and s: "freeze_step ctx reason t = Some t'"
  shows "transfer_inv obj n t' \<and> next_lease_id (tr_sched t') \<le> next_lease_id (tr_sched t) + OP_COST"
proof -
  have inv: "sched_inv (tr_sched t)" and c: "checkpoint_inv obj t" and n: "total_size (pmap (tr_sched t)) = n"
    using I by (simp_all add: transfer_inv_def)
  obtain x tracker s' where f: "persist_freeze ctx reason (tr_tracker t) (tr_sched t) = (x, tracker, s')"
    by (metis prod_cases3)
  have none: "tr_frozen t = None" using s unfolding freeze_step_def by (meson option.distinct(1))
  have m: "sched_moved (tr_sched t) {} s'" "lease_range s' = lease_range (tr_sched t)"
    using persist_freeze_cases(1) [OF f inv] hints_moved [OF inv] sched_moved_refl [OF inv] by auto
  have ack: "acked s' = acked (tr_sched t)" using m(1) by (simp add: sched_moved_def)
  let ?t = "t\<lparr>tr_tracker := tracker, tr_sched := s'\<rparr>"
  have live: "live_inv obj ?t" if "tr_status t \<noteq> WriterFailed"
  proof -
    have L: "live_inv obj t" using I that by (simp add: transfer_inv_def)
    have "live_inv obj (t\<lparr>tr_sched := s'\<rparr>)" using live_invD(8) [OF L] m(2) ack by (intro live_sched [OF L]) simp_all
    then show ?thesis unfolding live_inv_def by (simp add: attempt_ok_def)
  qed
  have plain: "transfer_inv obj n ?t \<and> next_lease_id s' \<le> next_lease_id (tr_sched t) + OP_COST"
    using transfer_moved [OF I, of "{}" ?t] m(1) live by simp
  show ?thesis
  proof (cases "x = None \<or> tr_status t = WriterFailed")
    case True
    then have "t' = ?t" using s none f by (auto simp: freeze_step_def Let_def split: option.splits)
    then show ?thesis using plain by simp
  next
    case False
    then obtain snap hints where x: "x = Some (snap, hints)" by auto
    have sub: "snapshot_bytes snap \<subseteq> acked s'"
      using persist_freeze_cases(2) [OF f inv x] snapshot_acked [OF inv] ctx n ack by simp
    have L: "live_inv obj ?t" using live False by blast
    show ?thesis
    proof (cases "tr_status t")
      case WriterOpen
      then have t': "t' = send (FlushAll True) (?t\<lparr>tr_frozen := Some (snap, hints)\<rparr>)"
        using s none f x by (simp add: freeze_step_def Let_def)
      have "lane_run k (tr_chan t @ [FlushAll True]) st = lane_run k (tr_chan t) st" for k st
        by (simp add: lane_run_append split: option.split)
      then have "live_inv obj t'" using L WriterOpen unfolding live_inv_def t' by (simp add: attempt_ok_def lane_ok_def send_def)
      moreover have "checkpoint_inv obj t'"
        using c sub ack unfolding checkpoint_inv_def t' by (simp add: send_def claim_ok_def)
      ultimately show ?thesis using plain by (simp add: transfer_inv_def t' send_def)
    next
      case WriterClosed
      then have t': "t' = ?t\<lparr>tr_frozen := Some (snap, hints)\<rparr>" using s none f x by (simp add: freeze_step_def Let_def)
      have "live_inv obj t'" using L unfolding live_inv_def t' by (simp add: attempt_ok_def)
      moreover have "tr_durable t i = Some (obj i)" if "i \<in> acked s'" for i
        using live_invD(8) [OF L, of i] that L WriterClosed by (simp add: live_inv_def)
      then have "checkpoint_inv obj t'"
        using c sub ack unfolding checkpoint_inv_def t' claim_ok_def by auto
      ultimately show ?thesis using plain by (simp add: transfer_inv_def t')
    qed (use False in simp)
  qed
qed

lemma save_step_inv:
  assumes I: "transfer_inv obj n t" and s: "save_step ok t = Some t'"
  shows "transfer_inv obj n t' \<and> next_lease_id (tr_sched t') \<le> next_lease_id (tr_sched t) + OP_COST"
proof -
  have e: "tr_sched t' = tr_sched t" "tr_chan t' = tr_chan t" "tr_writer t' = tr_writer t" "tr_attempts t' = tr_attempts t"
    "tr_status t' = tr_status t" "tr_durable t' = tr_durable t" "tr_frozen t' = None"
    using s by (auto simp: save_step_def split: option.splits if_splits)
  have c: "checkpoint_inv obj t" using I by (simp add: transfer_inv_def)
  have d: "tr_saved t' = tr_saved t \<or> tr_saved t' = tr_frozen t \<and> FlushAll True \<notin> set (tr_chan t)"
    using s by (auto simp: save_step_def split: option.splits if_splits)
  have "live_inv obj t' = live_inv obj t" unfolding live_inv_def by (simp add: e attempt_ok_def)
  moreover have "checkpoint_inv obj t'"
    using c e d unfolding checkpoint_inv_def claim_ok_def by (metis option.distinct(1))
  ultimately show ?thesis using I by (simp add: transfer_inv_def e)
qed

lemma transfer_step_inv:
  assumes I: "transfer_inv obj n t" and room: "roomy (tr_sched t)" and ctx: "mc_total_size ctx = n"
    and s: "transfer_step flt obj ctx ev t = Some t'"
  shows "transfer_inv obj n t' \<and> next_lease_id (tr_sched t') \<le> next_lease_id (tr_sched t) + OP_COST"
proof -
  have inv: "sched_inv (tr_sched t)" using I by (simp add: transfer_inv_def)
  note M = settle_moved(1-3) [OF inv room] and F = settle_frame(1-3) [OF inv room]
  show ?thesis
  proof (cases ev)
    case (EvAssign op)
    then have t': "t' = t\<lparr>tr_sched := sched_exec op (tr_sched t)\<rparr>" and op: "issue_op op" using s by (auto split: if_splits)
    note A = issue_op_frame [OF inv room op]
    have "live_inv obj t'" if "tr_status t \<noteq> WriterFailed"
    proof -
      have L: "live_inv obj t" using I that by (simp add: transfer_inv_def)
      have "lease_range (sched_exec op (tr_sched t)) k = lease_range (tr_sched t) k" if "tr_attempts t k = Some a" for k a
        using live_invD(5) [OF L that] A(2) by (simp add: attempt_ok_def)
      then show ?thesis unfolding t' using live_invD(8) [OF L] A(1) by (intro live_sched [OF L]) (auto simp: sched_moved_def)
    qed
    then show ?thesis using A(1) by (intro transfer_moved [OF I]) (simp_all add: t')
  next
    case (EvBegin k)
    then obtain r where r: "lease_range (tr_sched t) k = Some r" "tr_attempts t k = None" "tr_status t = WriterOpen"
      and t': "t' = set_attempt k (Some \<lparr>at_range = r, at_sent = 0, at_state = Streaming\<rparr>) (send (BeginLease k) t)"
      using s by (auto split: option.splits if_splits)
    have L: "live_inv obj t" using I r(3) by (simp add: transfer_inv_def)
    have "live_inv obj t'" unfolding t' by (rule live_begin [OF L r(3,2,1)])
    then show ?thesis using sched_moved_refl [OF inv]
      by (intro transfer_moved [OF I, where A = "{}"]) (simp_all add: t' set_attempt_def send_def)
  next
    case (EvForward k data)
    show ?thesis by (rule stream_step_inv [OF I s [unfolded EvForward transfer_step.simps]]) auto
  next
    case (EvFlush k)
    show ?thesis by (rule stream_step_inv [OF I s [unfolded EvFlush transfer_step.simps]]) auto
  next
    case (EvRetain k)
    show ?thesis by (rule stream_step_inv [OF I s [unfolded EvRetain transfer_step.simps]]) auto
  next
    case (EvDiscard k)
    have sent: "at_sent a \<le> br_end (at_range a) - br_start (at_range a)" if "tr_attempts t k = Some a" "tr_status t = WriterOpen" for a
      using live_invD(5) [of obj t k a] that I by (simp add: attempt_ok_def transfer_inv_def)
    have "tr_status t = WriterOpen" using s EvDiscard by (auto simp: stream_step_def split: option.splits if_splits)
    then show ?thesis using sent by (intro stream_step_inv [OF I s [unfolded EvDiscard transfer_step.simps]]) auto
  next
    case (EvSettle k)
    then show ?thesis using settle_step_inv [OF I room] s by simp
  next
    case (EvComplete k)
    then show ?thesis using complete_step_inv [OF I room] s by simp
  next
    case (EvRenew k w)
    then have "may_release k t" and t': "t' = set_attempt k None (t\<lparr>tr_sched := fst (renew (tr_sched t) k w)\<rparr>)"
      using s by (auto simp: may_release_def split: option.splits if_splits)
    then show ?thesis using release_step_inv [OF I room _ M(1)] F(1) by (simp add: set_attempt_def)
  next
    case (EvReclaim k)
    then have "may_release k t" and t': "t' = set_attempt k None (t\<lparr>tr_sched := fst (reclaim (tr_sched t) k)\<rparr>)"
      using s by (auto split: if_splits)
    then show ?thesis using release_step_inv [OF I room _ M(2)] F(2) by (simp add: set_attempt_def)
  next
    case (EvStop k)
    then have "may_release k t" and t': "t' = set_attempt k None (t\<lparr>tr_sched := stop_and_reclaim (tr_sched t) k\<rparr>)"
      using s by (auto split: if_splits)
    then show ?thesis using release_step_inv [OF I room _ M(3)] F(3) by (simp add: set_attempt_def)
  next
    case EvHandle
    then show ?thesis using handle_step_inv [OF I] s by simp
  next
    case (EvFreeze reason)
    then show ?thesis using freeze_step_inv [OF I ctx] s by simp
  next
    case (EvSave ok)
    then show ?thesis using save_step_inv [OF I] s by simp
  next
    case EvClose
    then show ?thesis using close_step_inv [OF I] s by simp
  qed
qed

lemma transfer_run_inv:
  assumes "transfer_inv obj n t" "next_lease_id (tr_sched t) + length evs * OP_COST \<le> u64_max" "mc_total_size ctx = n"
    "transfer_run flt obj ctx evs t = Some t'"
  shows "transfer_inv obj n t'"
  using assms
proof (induction evs arbitrary: t)
  case (Cons ev evs)
  obtain t1 where t1: "transfer_step flt obj ctx ev t = Some t1" "transfer_run flt obj ctx evs t1 = Some t'"
    using Cons.prems(4) by (auto split: option.splits)
  have room: "roomy (tr_sched t)" using Cons.prems(2) by simp
  note S = transfer_step_inv [OF Cons.prems(1) room Cons.prems(3) t1(1)]
  show ?case by (rule Cons.IH [OF _ _ Cons.prems(3) t1(2)]) (use S Cons.prems(2) in simp_all)
qed simp

lemma acked_new:
  assumes "i \<in> acked (sched_new m)"
  shows "\<exists>p. is_complete m p \<and> i \<in> piece_bytes m p"
  using assms by (auto simp: sched_ledger_def piece_acked_def piece_free_def is_complete_def split: if_splits)

lemma transfer_new_inv:
  assumes "pm_inv m" "0 < wm"
    and disk: "\<And>p i. is_complete m p \<Longrightarrow> i \<in> piece_bytes m p \<Longrightarrow> dk_bytes d i = Some (obj i)"
  shows "transfer_inv obj (total_size m) (transfer_new m d wm)"
proof -
  let ?w = "writer_new d wm"
  have bo: "block_of ?w a = None" for a by (cases a) (simp_all add: writer_new_def cache_new_def)
  have nc: "\<not> Writer_View.covered ?w a i" for a i using bo covered_block by (metis option.distinct(1))
  have v: "view ?w i = dk_bytes d i" for i using view_free [of ?w i] nc by (simp add: writer_new_def)
  have "wt_single ?w = None" "\<not> lease_open ?w k" for k by (simp_all add: writer_new_def lease_open_def)
  then have "live_inv obj (transfer_new m d wm)"
    using writer_new_good [OF assms(2), of d] nc v acked_new disk by (fastforce simp: live_inv_def transfer_new_def)
  then show ?thesis using sched_inv_new [OF assms(1)] by (simp add: transfer_inv_def checkpoint_inv_def) (simp add: transfer_new_def)
qed

lemma acked_on_disk:
  assumes I: "transfer_inv obj n t" and st: "tr_status t \<noteq> WriterFailed" and i: "i \<in> acked (tr_sched t)"
  shows "dk_bytes (wt_disk (tr_writer t)) i = Some (obj i)"
proof -
  have L: "live_inv obj t" and inv: "sched_inv (tr_sched t)" using I st by (simp_all add: transfer_inv_def)
  have "\<not> Writer_View.covered (tr_writer t) a i" for a
  proof (cases a)
    case None
    then show ?thesis using live_invD(2) [OF L] by (simp add: Writer_View.covered_def)
  next
    case (Some k)
    then show ?thesis using held_in_lease [OF L, of k i] lease_bytes(4) [OF inv] i by blast
  qed
  then show ?thesis using view_free [of "tr_writer t" i] live_invD(8) [OF L i] by simp
qed

section \<open>Properties\<close>


text \<open>An example: one piece of four bytes, one connection.\<close>

definition sample_ctx :: multi_control_save_context where
  "sample_ctx = \<lparr>mc_request_url = ''u'', mc_total_size = 4, mc_etag = None, mc_last_modified = None, mc_sync_every = 1\<rparr>"

definition sample_start :: "nat transfer" where
  "sample_start = transfer_new (the (pm_new 4 4)) blank_disk 64"

definition sample_events :: "nat transfer_event list" where
  "sample_events = [EvAssign (OpAssign 0 1 1), EvBegin (LeaseKey 0 1), EvForward (LeaseKey 0 1) [0, 1, 2, 3],
     EvHandle, EvHandle, EvFlush (LeaseKey 0 1), EvHandle, EvComplete (LeaseKey 0 1)]"

lemmas transfer_eval = send_def set_attempt_def served_def barrier_passed_def stream_step_def complete_step_def
  handle_step_def freeze_step_def save_step_def settle_before_def push_permit_def store_data_def cache_insert_def
  flush_at_watermark_def flush_lease_def drain_lease_def retain_other_def write_block_def on_disk_def disk_seek_def
  disk_write_def lease_range_def lease_of_def single_bytes_def flush_all_def flush_single_def drain_all_def sync_file_def
  disk_sync_def persist_freeze_def multi_snapshot_def snapshot_bitset_def control_hints_def to_bitset_bytes_def Let_def

lemmas sample_eval = sample_events_def sample_start_def transfer_new_def sched_new_def pm_new_def div_ceil_def sched_eval
  writer_new_def cache_new_def blank_disk_def tracker_new_def transfer_eval upt_rec

lemma sample_hyps:
  "pm_inv (the (pm_new 4 4))" "total_size (the (pm_new 4 4)) = 4" "\<not> is_complete (the (pm_new 4 4)) p"
  by (intro pm_inv_new_the geometry_small) (simp_all add: pm_new_def Let_def is_complete_def div_ceil_def nth_Cons')


text \<open>C4. Checkpoints are crash safe: at every moment of a transfer, also after the writer
  has failed, the checkpoint on disk marks only pieces whose bytes were in the file, with
  the values of the object, at the last completed sync.\<close>

theorem multi_checkpoint_durable:
  assumes "pm_inv m" "0 < wm"
    "\<forall>p i. is_complete m p \<longrightarrow> i \<in> piece_bytes m p \<longrightarrow> dk_bytes d i = Some (obj i)"
    "mc_total_size ctx = total_size m" "1 + length evs * OP_COST \<le> u64_max"
    "transfer_run flt obj ctx evs (transfer_new m d wm) = Some t" "tr_saved t = Some (snap, hints)"
    "is_complete (ctrl_piece_map snap) p" "i \<in> piece_bytes (ctrl_piece_map snap) p"
  shows "tr_durable t i = Some (obj i)"
proof -
  have "transfer_inv obj (total_size m) (transfer_new m d wm)" using assms(1-3) by (intro transfer_new_inv) auto
  moreover have "next_lease_id (tr_sched (transfer_new m d wm)) + length evs * OP_COST \<le> u64_max"
    using assms(5) by (simp add: transfer_new_def)
  ultimately have "transfer_inv obj (total_size m) t" using transfer_run_inv assms(4,6) by blast
  then show ?thesis
    using assms(7-9) unfolding transfer_inv_def checkpoint_inv_def claim_ok_def snapshot_bytes_def by blast
qed

lemma sample_bits: "lsb0_as_raw_slice [True] = [Suc 0]" "advance_from [True] (Suc 0) 0 = Suc 0"
  by (simp_all add: lsb0_as_raw_slice.simps advance_from.simps)

theorem multi_checkpoint_durable_witness:
  "case transfer_run (\<lambda>_. None) id sample_ctx (sample_events @ [EvFreeze Terminal, EvHandle, EvSave True]) sample_start of
     None \<Rightarrow> False
   | Some t \<Rightarrow> tr_durable t 2 = Some 2"
proof -
  let ?evs = "sample_events @ [EvFreeze Terminal, EvHandle, EvSave True]"
  have "case transfer_run (\<lambda>_. None) id sample_ctx ?evs sample_start of
      None \<Rightarrow> False
    | Some t \<Rightarrow> map_option (\<lambda>x. ctrl_piece_map (fst x)) (tr_saved t) = Some (mark_complete (the (pm_new 4 4)) 0)"
    by (simp add: sample_eval sample_ctx_def piece_map_eval sample_bits)
  then obtain t snap hints where t: "transfer_run (\<lambda>_. None) id sample_ctx ?evs sample_start = Some t"
    "tr_saved t = Some (snap, hints)" "ctrl_piece_map snap = mark_complete (the (pm_new 4 4)) 0"
    by (auto split: option.splits)
  have "is_complete (ctrl_piece_map snap) 0" "2 \<in> piece_bytes (ctrl_piece_map snap) 0"
    by (simp_all add: t(3) pm_new_def div_ceil_def sched_eval piece_bytes_def Let_def)
  then have "tr_durable t 2 = Some (id 2)"
    using multi_checkpoint_durable [of "the (pm_new 4 4)" 64 blank_disk id sample_ctx ?evs "\<lambda>_. None" t snap hints 0 2]
      t(1,2) sample_hyps
    by (simp add: sample_start_def sample_events_def OP_COST_def MAX_REQUEST_LEASES_def u64_max_def sample_ctx_def)
  then show ?thesis using t(1) by simp
qed

end
