(* ===== verification/Request_Body.thy ===== *)
theory Request_Body
  imports Multi_Transfer
begin

text \<open>
  Consuming the body of a range request, \<open>src/session/multi/worker/request.rs\<close>: one
  response may span several adjacent leases, its frames may end anywhere, and the part of a
  frame that belongs to the next lease is kept across the writer barrier.  Also the
  speculative request of \<open>src/session/multi/worker.rs\<close>, which is staged in a file of its
  own and copied once it has won.

  A body is the list of frames the transport delivers and the error that ends it, if any;
  what the waits and the stop signal show is given by position.
\<close>

section \<open>Responses\<close>

record candidate_failure =
  cf_error :: download_error
  identity_changed :: bool

definition candidate_failure_of :: "download_error \<Rightarrow> candidate_failure" where
  "candidate_failure_of e =
     \<lparr>cf_error = e, identity_changed = (case e of HttpStatus status _ \<Rightarrow> status = 412 | _ \<Rightarrow> False)\<rparr>"

record request_context =
  rc_key :: lease_key
  rc_start :: nat
  rc_end :: nat
  rc_request_end :: nat
  rc_total :: nat
  rc_validator :: "string option"
  rc_require_validator :: bool

definition validator_changed :: candidate_failure where
  "validator_changed =
     \<lparr>cf_error = ResumeMismatch ''object validator changed during adaptive download'', identity_changed = True\<rparr>"

text \<open>The response is the one handed over or that of \<open>send_range\<close>.\<close>

definition checked_response ::
  "request_context \<Rightarrow> ('b http_response \<times> response_meta) dl_result \<Rightarrow> nat \<Rightarrow> candidate_failure + 'b http_response" where
  "checked_response ctx response request_end =
     (case response of
        Inl e \<Rightarrow> Inl (candidate_failure_of e)
      | Inr (resp, meta) \<Rightarrow>
          if (case (rc_validator ctx, etag meta) of (Some expected, Some actual) \<Rightarrow> actual \<noteq> expected | _ \<Rightarrow> False)
          then Inl validator_changed
          else case validate_range_response (rs_status resp) (retry_after_of resp) meta Segment
                      \<lparr>er_start = rc_start ctx, er_end_inclusive = request_end - 1, er_total_size = Some (rc_total ctx)\<rparr> of
                 Inl e \<Rightarrow> Inl (candidate_failure_of e)
               | Inr _ \<Rightarrow>
                   if rc_require_validator ctx \<and>
                      (case rc_validator ctx of Some e \<Rightarrow> etag meta \<noteq> Some e | None \<Rightarrow> False)
                   then Inl validator_changed
                   else Inr resp)"

section \<open>The body stream\<close>

record 'b request_stream =
  rq_frames :: "'b list list"
  rq_failure :: "download_error option"
  rq_buffered :: "'b list"
  rq_wire :: nat
  rq_expected :: nat
  rq_consumed :: nat

definition request_stream_new :: "request_context \<Rightarrow> 'b list list \<Rightarrow> download_error option \<Rightarrow> 'b request_stream" where
  "request_stream_new ctx frames failure =
     \<lparr>rq_frames = frames, rq_failure = failure, rq_buffered = [], rq_wire = 0,
      rq_expected = rc_request_end ctx - rc_start ctx, rq_consumed = 0\<rparr>"

definition next_data_chunk :: "'b request_stream \<Rightarrow> 'b list option dl_result \<times> 'b request_stream" where
  "next_data_chunk st =
     (case rq_frames st of
        f # fs \<Rightarrow> (Inr (Some f), st\<lparr>rq_frames := fs\<rparr>)
      | [] \<Rightarrow> (case rq_failure st of Some e \<Rightarrow> (Inl e, st) | None \<Rightarrow> (Inr None, st)))"

text \<open>Refilling the buffer: it holds data, the frame was empty, or the loop is over.\<close>

datatype 'b fetched = Ready "'b request_stream" | Again "'b request_stream" | Over "unit dl_result" "'b request_stream"

definition fetch :: "'b request_stream \<Rightarrow> 'b fetched" where
  "fetch st =
     (if rq_buffered st \<noteq> [] then Ready st
      else case next_data_chunk st of
             (Inl e, st1) \<Rightarrow> Over (Inl e) st1
           | (Inr None, st1) \<Rightarrow>
               if rq_wire st1 \<noteq> rq_expected st1
               then Over (Inl (Transport \<lparr>te_kind = Body, te_source = ''range body ended early''\<rparr>)) st1
               else Over (Inr ()) st1
           | (Inr (Some data), st1) \<Rightarrow>
               let st2 = st1\<lparr>rq_wire := sat_add_u64 (rq_wire st1) (length data)\<rparr>
               in if rq_expected st2 < rq_wire st2
                  then Over (Inl (ResumeMismatch ''server overran requested range'')) st2
                  else if data = [] then Again (st2\<lparr>rq_buffered := data\<rparr>)
                  else Ready (st2\<lparr>rq_buffered := data\<rparr>))"

definition stream_size :: "'b request_stream \<Rightarrow> nat" where
  "stream_size st = sum_list (map length (rq_frames st)) + length (rq_frames st) + length (rq_buffered st)"

lemma fetch_size:
  "fetch st = Again st1 \<Longrightarrow> stream_size st1 < stream_size st"
  "fetch st = Ready st1 \<Longrightarrow> stream_size st1 \<le> stream_size st \<and> rq_buffered st1 \<noteq> []"
  by (auto simp: fetch_def next_data_chunk_def stream_size_def Let_def
      split: if_splits list.splits option.splits prod.splits sum.splits)

definition take_len :: "memory_budget \<Rightarrow> request_context \<Rightarrow> nat \<Rightarrow> 'b request_stream \<Rightarrow> nat" where
  "take_len b ctx forwarded st =
     min (min (length (rq_buffered st)) (max_chunk b)) (rc_end ctx - rc_start ctx - forwarded)"

lemma split_size:
  "0 < n \<Longrightarrow> rq_buffered st \<noteq> [] \<Longrightarrow> stream_size (st\<lparr>rq_buffered := drop n (rq_buffered st), rq_consumed := c\<rparr>) < stream_size st"
  by (cases "rq_buffered st") (auto simp: stream_size_def)

text \<open>The loop of \<open>primary\<close>.  \<open>forwarded\<close> counts the bytes of the current lease handed to the
  writer; the result carries the commands sent, and \<open>None\<close> stands for a loop that does not
  end.\<close>

function primary_loop ::
  "memory_budget \<Rightarrow> request_context \<Rightarrow> (nat \<Rightarrow> chunk_wait) \<Rightarrow> (nat \<Rightarrow> stop_signal) \<Rightarrow> nat \<Rightarrow> nat \<Rightarrow> 'b request_stream \<Rightarrow>
    (unit dl_result \<times> 'b writer_command list \<times> nat \<times> 'b request_stream) option" where
  "primary_loop b ctx waits stop i forwarded st =
     (if forwarded = rc_end ctx - rc_start ctx \<and> rc_end ctx < rc_request_end ctx
      then Some (Inr (), [], forwarded, st)
      else case fetch st of
             Over r st1 \<Rightarrow> Some (r, [], forwarded, st1)
           | Again st1 \<Rightarrow> primary_loop b ctx waits stop i forwarded st1
           | Ready st1 \<Rightarrow>
               let len = take_len b ctx forwarded st1
               in if len = 0
                  then Some (Inl (ResumeMismatch ''server overran final piece''), [], forwarded, st1)
                  else case forward_observed b waits i (take len (rq_buffered st1)) (rc_start ctx + forwarded) (Some (rc_key ctx)) of
                         None \<Rightarrow> None
                       | Some (Inl e, cmds, n) \<Rightarrow>
                           Some (Inl e, cmds, forwarded + n,
                             st1\<lparr>rq_buffered := drop len (rq_buffered st1), rq_consumed := rq_consumed st1 + n\<rparr>)
                       | Some (Inr _, cmds, n) \<Rightarrow>
                           (case stop_signal_error (stop i) of
                              Some e \<Rightarrow>
                                Some (Inl e, cmds, forwarded + n,
                                  st1\<lparr>rq_buffered := drop len (rq_buffered st1), rq_consumed := rq_consumed st1 + n\<rparr>)
                            | None \<Rightarrow>
                                (case primary_loop b ctx waits stop (i + length cmds) (forwarded + n)
                                       (st1\<lparr>rq_buffered := drop len (rq_buffered st1), rq_consumed := rq_consumed st1 + n\<rparr>) of
                                   None \<Rightarrow> None
                                 | Some (r, rest, fw, st2) \<Rightarrow> Some (r, cmds @ rest, fw, st2))))"
  by pat_completeness auto
termination
  by (relation "measure (\<lambda>(b, ctx, waits, stop, i, forwarded, st). stream_size st)")
    (auto dest: fetch_size intro: less_le_trans [OF split_size])

declare primary_loop.simps [simp del]

text \<open>\<open>primary\<close>: the response is checked on the first lease of a request only; \<open>stream\<close> is
  the body kept from the lease before.\<close>

type_synonym 'b body = "'b list list \<times> download_error option"

definition primary ::
  "memory_budget \<Rightarrow> request_context \<Rightarrow> ('b body http_response \<times> response_meta) dl_result \<Rightarrow>
    (nat \<Rightarrow> chunk_wait) \<Rightarrow> (nat \<Rightarrow> stop_signal) \<Rightarrow> nat \<Rightarrow> 'b request_stream option \<Rightarrow>
    (unit dl_result \<times> 'b writer_command list \<times> nat \<times> 'b request_stream option) option" where
  "primary b ctx response waits stop i stream =
     (case (case stream of
              Some st \<Rightarrow> Inr st
            | None \<Rightarrow> (case checked_response ctx response (rc_request_end ctx) of
                        Inl f \<Rightarrow> Inl (cf_error f)
                      | Inr resp \<Rightarrow> Inr (request_stream_new ctx (fst (rs_body resp)) (snd (rs_body resp))))) of
        Inl e \<Rightarrow> Some (Inl e, [], 0, None)
      | Inr st \<Rightarrow> (case primary_loop b ctx waits stop i 0 st of
                    None \<Rightarrow> None
                  | Some (r, cmds, fw, st') \<Rightarrow> Some (r, cmds, fw, Some st')))"

text \<open>The leases of one request in turn, the \<open>Complete\<close> branch of the inner loop of
  \<open>worker_loop\<close>: begin the lease, stream it, flush it, go on with the next one on the same
  body.  A failed attempt leaves the loop before its flush.\<close>

type_synonym lease = "lease_key \<times> nat \<times> nat"

definition at_lease :: "request_context \<Rightarrow> lease \<Rightarrow> request_context" where
  "at_lease ctx l = (case l of (k, s, e) \<Rightarrow> ctx\<lparr>rc_key := k, rc_start := s, rc_end := e\<rparr>)"

fun request_run ::
  "memory_budget \<Rightarrow> request_context \<Rightarrow> ('b body http_response \<times> response_meta) dl_result \<Rightarrow>
    (nat \<Rightarrow> chunk_wait) \<Rightarrow> (nat \<Rightarrow> stop_signal) \<Rightarrow> nat \<Rightarrow> 'b request_stream option \<Rightarrow> lease list \<Rightarrow>
    (unit dl_result \<times> 'b writer_command list \<times> 'b request_stream option) option" where
  "request_run b ctx response waits stop i stream [] = Some (Inr (), [], stream)"
| "request_run b ctx response waits stop i stream (l # ls) =
     (case primary b (at_lease ctx l) response waits stop i stream of
        None \<Rightarrow> None
      | Some (Inl e, cmds, fw, stream') \<Rightarrow> Some (Inl e, BeginLease (fst l) # cmds, stream')
      | Some (Inr _, cmds, fw, stream') \<Rightarrow>
          (case request_run b ctx response waits stop (i + length cmds) stream' ls of
             None \<Rightarrow> None
           | Some (r, rest, stream'') \<Rightarrow> Some (r, BeginLease (fst l) # cmds @ FlushLease (fst l) # rest, stream'')))"

section \<open>The speculative request\<close>

text \<open>\<open>stage\<close> reads the whole segment into a file of its own: the bytes staged, or the
  failure, and the cost left on its reservation.  \<open>wr\<close> gives the outcome of the writes by
  the size the file has reached and \<open>fl\<close> that of the final flush; the semaphore of the
  memory budget is never closed.\<close>

fun stage_body :: "(nat \<Rightarrow> download_error option) \<Rightarrow> download_error option \<Rightarrow> nat \<Rightarrow> 'b list list \<Rightarrow>
    download_error option \<Rightarrow> nat \<Rightarrow> 'b list \<Rightarrow> (candidate_failure + 'b list) \<times> nat" where
  "stage_body wr fl len [] (Some e) wire staged = (Inl (candidate_failure_of e), wire)"
| "stage_body wr fl len [] None wire staged =
     (if wire \<noteq> len
      then (Inl (candidate_failure_of (Transport \<lparr>te_kind = Body, te_source = ''challenger body ended early''\<rparr>)), wire)
      else case fl of
             Some e \<Rightarrow> (Inl (candidate_failure_of e), wire)
           | None \<Rightarrow> (Inr staged, wire))"
| "stage_body wr fl len (f # fs) failure wire staged =
     (let wire' = sat_add_u64 wire (length f)
      in if len < wire'
         then (Inl (candidate_failure_of (ResumeMismatch ''challenger overran its range'')), wire')
         else case (if f = [] then None else wr (length staged)) of
                Some e \<Rightarrow> (Inl (candidate_failure_of e), wire')
              | None \<Rightarrow> stage_body wr fl len fs failure wire' (staged @ f))"

definition stage ::
  "request_context \<Rightarrow> download_error option \<Rightarrow> (nat \<Rightarrow> download_error option) \<Rightarrow> download_error option \<Rightarrow>
    ('b body http_response \<times> response_meta) dl_result \<Rightarrow> (candidate_failure + 'b list) \<times> nat" where
  "stage ctx tempfile wr fl response =
     (case tempfile of
        Some e \<Rightarrow> (Inl (candidate_failure_of e), 0)
      | None \<Rightarrow>
          (case checked_response ctx response (rc_end ctx) of
             Inl f \<Rightarrow> (Inl f, 0)
           | Inr resp \<Rightarrow>
               if Option.bind (rs_headers resp ''content-length'') parse_u64 \<noteq> Some (rc_end ctx - rc_start ctx) \<or>
                  rs_headers resp ''transfer-encoding'' \<noteq> None
               then (Inl (candidate_failure_of (ResumeMismatch
                       ''challenger requires an exact Content-Length for its extra-byte bound'')), 0)
               else stage_body wr fl (rc_end ctx - rc_start ctx) (fst (rs_body resp)) (snd (rs_body resp)) 0 []))"

text \<open>\<open>Staged::copy_to\<close>: the staged file is handed to the writer under the renewed lease.
  With a chunk limit of zero the loop of the source never ends.\<close>

definition COPY_CHUNK :: nat where
  "COPY_CHUNK = 64 * 1024"

partial_function (option) copy_to ::
  "memory_budget \<Rightarrow> (nat \<Rightarrow> chunk_wait) \<Rightarrow> nat \<Rightarrow> 'b list \<Rightarrow> lease \<Rightarrow> nat \<Rightarrow>
    (unit dl_result \<times> 'b writer_command list) option" where
  "copy_to b waits i staged l offset =
     (if \<not> offset < snd (snd l) then Some (Inr (), [])
      else
        let len = min (snd (snd l) - offset) (min (max_chunk b) COPY_CHUNK);
            c = waits i;
            data = take len (drop (offset - fst (snd l)) staged)
        in case wait_for_stop (cw_signals c) of
             Some e \<Rightarrow> Some (Inl e, [])
           | None \<Rightarrow>
               if cw_writer_closed c \<or> cw_semaphore_closed c then Some (Inl ChannelClosed, [])
               else if length data < len then Some (Inl (Io UnexpectedEof ''failed to fill whole buffer''), [])
               else if cw_slot_refused c then Some (Inl ChannelClosed, [])
               else Option.bind (copy_to b waits (Suc i) staged l (offset + len))
                      (\<lambda>(r, cmds). Some (r, Data offset data (Some len) (Some (fst l)) # cmds)))"

section \<open>Facts\<close>

abbreviation seg_len :: "request_context \<Rightarrow> nat" where
  "seg_len ctx \<equiv> rc_end ctx - rc_start ctx"

definition body_rest :: "'b request_stream \<Rightarrow> 'b list" where
  "body_rest st = rq_buffered st @ concat (rq_frames st)"

definition stream_ok :: "request_context \<Rightarrow> nat \<Rightarrow> 'b request_stream \<Rightarrow> bool" where
  "stream_ok ctx forwarded st \<longleftrightarrow>
     forwarded \<le> seg_len ctx \<and> rc_start ctx \<le> rc_end ctx \<and> rc_end ctx \<le> rc_request_end ctx \<and>
     rc_request_end ctx \<le> u64_max \<and> rq_expected st < u64_max \<and>
     rq_consumed st + length (rq_buffered st) = rq_wire st \<and> rq_wire st \<le> rq_expected st \<and>
     rc_start ctx + forwarded + (rq_expected st - rq_consumed st) = rc_request_end ctx"

lemma stream_ok_fetch:
  assumes "stream_ok ctx fw st"
  shows "fetch st = Again st1 \<Longrightarrow> stream_ok ctx fw st1 \<and> body_rest st1 = body_rest st"
    "fetch st = Ready st1 \<Longrightarrow> stream_ok ctx fw st1 \<and> body_rest st1 = body_rest st"
    "fetch st = Over (Inr ()) st1 \<Longrightarrow> st1 = st \<and> rc_start ctx + fw = rc_request_end ctx"
  using assms by (auto simp: fetch_def next_data_chunk_def stream_ok_def body_rest_def Let_def sat_add_u64_def
      split: if_splits list.splits option.splits prod.splits sum.splits)

lemma stream_ok_take:
  assumes "stream_ok ctx fw st" "n \<le> length (rq_buffered st)" "n \<le> seg_len ctx - fw"
  shows "stream_ok ctx (fw + n) (st\<lparr>rq_buffered := drop n (rq_buffered st), rq_consumed := rq_consumed st + n\<rparr>)"
  using assms by (auto simp: stream_ok_def)

lemma chunked_append:
  "chunked m off key d1 cmds1 \<Longrightarrow> chunked m (off + length d1) key d2 cmds2 \<Longrightarrow> chunked m off key (d1 @ d2) (cmds1 @ cmds2)"
proof (induction m off key d1 cmds1 rule: chunked.induct)
  case (2 m off key data o' d p k cmds)
  have l: "length d \<le> length data" using 2(2) by (metis chunked.simps(2) length_take min.cobounded1 min_def nat_le_linear)
  then show ?case using 2 by (auto simp: add.assoc)
qed auto

definition after_chunk :: "'b request_stream \<Rightarrow> nat \<Rightarrow> nat \<Rightarrow> 'b request_stream" where
  "after_chunk st len n = st\<lparr>rq_buffered := drop len (rq_buffered st), rq_consumed := rq_consumed st + n\<rparr>"

lemma primary_chunk:
  assumes m: "0 < max_chunk b" and ok: "stream_ok ctx fw st" and R: "fetch st = Ready st1"
    and len: "len = take_len b ctx fw st1" "len \<noteq> 0"
  obtains r1 cmds n where
    "forward_observed b waits i (take len (rq_buffered st1)) (rc_start ctx + fw) (Some (rc_key ctx)) = Some (r1, cmds, n)"
    "fw + n \<le> seg_len ctx" "n \<le> length (body_rest st)"
    "chunked (max_chunk b) (rc_start ctx + fw) (Some (rc_key ctx)) (take n (body_rest st)) cmds"
    "r1 = Inr () \<Longrightarrow> stream_ok ctx (fw + n) (after_chunk st1 len n) \<and>
       body_rest (after_chunk st1 len n) = drop n (body_rest st) \<and> stream_size (after_chunk st1 len n) < stream_size st"
proof -
  note st1 = stream_ok_fetch(2) [OF ok R] and sz = fetch_size(2) [OF R]
  have l: "len \<le> length (rq_buffered st1)" "len \<le> max_chunk b" "len \<le> seg_len ctx - fw" "fw \<le> seg_len ctx"
    using ok by (simp_all add: len take_len_def stream_ok_def)
  let ?d = "take len (rq_buffered st1)" and ?off = "rc_start ctx + fw" and ?key = "Some (rc_key ctx)"
  have B: "body_rest st = rq_buffered st1 @ concat (rq_frames st1)" using st1 by (simp add: body_rest_def)
  then have body: "take len (body_rest st) = ?d" using l(1) by simp
  have "?off + len \<le> rc_end ctx" "rc_end ctx \<le> u64_max" using l(3) ok unfolding stream_ok_def by linarith+
  then have "?off + length ?d \<le> u64_max" using l(1) by simp
  from forward_observed_ok [OF m this, of waits i ?key] obtain r1 cmds n where
    F: "forward_observed b waits i ?d ?off ?key = Some (r1, cmds, n)" "n \<le> length ?d"
      "chunked (max_chunk b) ?off ?key (take n ?d) cmds" "r1 = Inr () \<longleftrightarrow> n = length ?d" by blast
  show thesis
  proof (rule that [OF F(1)])
    show "fw + n \<le> seg_len ctx" "n \<le> length (body_rest st)" using F(2) l B by auto
    show "chunked (max_chunk b) ?off ?key (take n (body_rest st)) cmds"
    proof -
      have "n \<le> len" using F(2) by simp
      then have "take n (body_rest st) = take n ?d" by (metis body min.absorb1 take_take)
      then show ?thesis using F(3) by simp
    qed
    assume "r1 = Inr ()"
    then have n: "n = len" using F(4) l(1) by simp
    have "stream_ok ctx (fw + n) (after_chunk st1 len n)"
      unfolding after_chunk_def n using st1 l by (intro stream_ok_take) simp_all
    moreover have "body_rest (after_chunk st1 len n) = drop n (body_rest st)"
      unfolding B using l(1) n by (simp add: after_chunk_def body_rest_def)
    moreover have "stream_size (after_chunk st1 len n) < stream_size st"
      unfolding after_chunk_def using split_size [of len st1] len(2) sz by (meson less_le_trans neq0_conv)
    ultimately show "stream_ok ctx (fw + n) (after_chunk st1 len n) \<and>
      body_rest (after_chunk st1 len n) = drop n (body_rest st) \<and> stream_size (after_chunk st1 len n) < stream_size st"
      by blast
  qed
qed

definition loop_ok where
  "loop_ok b ctx fw st res \<longleftrightarrow>
     (case res of None \<Rightarrow> False
      | Some (r, cmds, fw', st') \<Rightarrow>
          fw \<le> fw' \<and> fw' \<le> seg_len ctx \<and> fw' - fw \<le> length (body_rest st) \<and>
          chunked (max_chunk b) (rc_start ctx + fw) (Some (rc_key ctx)) (take (fw' - fw) (body_rest st)) cmds \<and>
          (r = Inr () \<longrightarrow> fw' = seg_len ctx \<and> stream_ok ctx fw' st' \<and> body_rest st' = drop (fw' - fw) (body_rest st)))"

lemma loop_ok_cong: "body_rest st1 = body_rest st \<Longrightarrow> loop_ok b ctx fw st1 res = loop_ok b ctx fw st res"
  by (simp add: loop_ok_def split: option.split)

lemma loop_ok_append:
  assumes "loop_ok b ctx (fw + n) st1 (Some (r, rest, fw', st'))" "body_rest st1 = drop n (body_rest st)"
    "n \<le> length (body_rest st)" "chunked (max_chunk b) (rc_start ctx + fw) (Some (rc_key ctx)) (take n (body_rest st)) cmds"
  shows "loop_ok b ctx fw st (Some (r, cmds @ rest, fw', st'))"
proof -
  note H = assms(1) [unfolded loop_ok_def option.case prod.case assms(2)]
  have split: "fw' - fw = n + (fw' - (fw + n))" using H by simp
  have "take (fw' - fw) (body_rest st) = take n (body_rest st) @ take (fw' - (fw + n)) (drop n (body_rest st))"
    unfolding split by (rule take_add)
  then have "chunked (max_chunk b) (rc_start ctx + fw) (Some (rc_key ctx)) (take (fw' - fw) (body_rest st)) (cmds @ rest)"
    using chunked_append [OF assms(4)] H assms(3) by (simp add: add.assoc)
  moreover have "fw' - fw \<le> length (body_rest st)" using H assms(3) length_drop [of n "body_rest st"] by linarith
  moreover have "drop (fw' - (fw + n)) (drop n (body_rest st)) = drop (fw' - fw) (body_rest st)"
    unfolding split by (simp add: add.commute)
  ultimately show ?thesis using H by (auto simp add: loop_ok_def simp del: drop_drop)
qed

lemma primary_ok:
  assumes m: "0 < max_chunk b" and ok: "stream_ok ctx fw st"
  shows "loop_ok b ctx fw st (primary_loop b ctx waits stop i fw st)"
  using ok
proof (induction "stream_size st" arbitrary: st fw i rule: less_induct)
  case less
  note ok = less.prems
  have fw: "fw \<le> seg_len ctx" using ok by (simp add: stream_ok_def)
  let ?L = "primary_loop b ctx waits stop i fw st"
  show ?case
  proof (cases "fw = seg_len ctx \<and> rc_end ctx < rc_request_end ctx")
    case True
    then show ?thesis using ok by (subst primary_loop.simps) (simp add: loop_ok_def)
  next
    case nb: False
    show ?thesis
    proof (cases "fetch st")
      case (Over r st1)
      have "fw = seg_len ctx \<and> stream_ok ctx fw st1 \<and> body_rest st1 = body_rest st" if "r = Inr ()"
        using stream_ok_fetch(3) [OF ok Over [unfolded that]] ok by (auto simp: stream_ok_def)
      moreover have "?L = Some (r, [], fw, st1)" using nb Over by (subst primary_loop.simps) auto
      ultimately show ?thesis using fw by (auto simp: loop_ok_def)
    next
      case (Again st1)
      have "?L = primary_loop b ctx waits stop i fw st1" using nb Again by (subst primary_loop.simps) auto
      then show ?thesis using less.hyps [OF fetch_size(1) [OF Again], of fw i] stream_ok_fetch(1) [OF ok Again]
          loop_ok_cong by metis
    next
      case (Ready st1)
      define len where "len = take_len b ctx fw st1"
      show ?thesis
      proof (cases "len = 0")
        case True
        then have "?L = Some (Inl (ResumeMismatch ''server overran final piece''), [], fw, st1)"
          using nb Ready by (subst primary_loop.simps) (auto simp: len_def Let_def)
        then show ?thesis using fw by (simp add: loop_ok_def)
      next
        case False
        obtain r1 cmds n where F:
          "forward_observed b waits i (take len (rq_buffered st1)) (rc_start ctx + fw) (Some (rc_key ctx)) = Some (r1, cmds, n)"
          "fw + n \<le> seg_len ctx" "n \<le> length (body_rest st)"
          "chunked (max_chunk b) (rc_start ctx + fw) (Some (rc_key ctx)) (take n (body_rest st)) cmds"
          "r1 = Inr () \<Longrightarrow> stream_ok ctx (fw + n) (after_chunk st1 len n) \<and>
             body_rest (after_chunk st1 len n) = drop n (body_rest st) \<and> stream_size (after_chunk st1 len n) < stream_size st"
          using primary_chunk [OF m ok Ready len_def False, where waits = waits and i = i] by blast
        have step: "?L = (case (r1, stop_signal_error (stop i)) of
            (Inl e, _) \<Rightarrow> Some (Inl e, cmds, fw + n, after_chunk st1 len n)
          | (_, Some e) \<Rightarrow> Some (Inl e, cmds, fw + n, after_chunk st1 len n)
          | _ \<Rightarrow> (case primary_loop b ctx waits stop (i + length cmds) (fw + n) (after_chunk st1 len n) of
                   None \<Rightarrow> None | Some (r, rest, fw, st2) \<Rightarrow> Some (r, cmds @ rest, fw, st2)))"
          by (subst primary_loop.simps, subst if_not_P [OF nb])
            (simp add: Ready len_def [symmetric] False F(1) after_chunk_def Let_def split: sum.split option.split)
        show ?thesis
        proof (cases "\<exists>e. r1 = Inl e \<or> r1 = Inr () \<and> stop_signal_error (stop i) = Some e")
          case True
          then obtain e where "?L = Some (Inl e, cmds, fw + n, after_chunk st1 len n)" using step by auto
          then show ?thesis using F(2-4) by (simp add: loop_ok_def)
        next
          case go: False
          then have r1: "r1 = Inr ()" "stop_signal_error (stop i) = None" by (cases r1; auto)+
          note G = F(5) [OF r1(1)]
          obtain r rest fw' st' where
            H: "primary_loop b ctx waits stop (i + length cmds) (fw + n) (after_chunk st1 len n) = Some (r, rest, fw', st')"
               "loop_ok b ctx (fw + n) (after_chunk st1 len n) (Some (r, rest, fw', st'))"
            using less.hyps [of "after_chunk st1 len n" "fw + n" "i + length cmds"] G
            by (cases "primary_loop b ctx waits stop (i + length cmds) (fw + n) (after_chunk st1 len n)")
              (auto simp: loop_ok_def)
          have "?L = Some (r, cmds @ rest, fw', st')" using step r1 H(1) by simp
          then show ?thesis using loop_ok_append [OF H(2) conjunct1 [OF conjunct2 [OF G]] F(3,4)] by simp
        qed
      qed
    qed
  qed
qed

lemma primary_resumes:
  assumes "0 < max_chunk b" "stream_ok ctx 0 st"
  obtains r cmds fw st' where "primary b ctx response waits stop i (Some st) = Some (r, cmds, fw, Some st')"
    "loop_ok b ctx 0 st (Some (r, cmds, fw, st'))"
  using primary_ok [OF assms, of waits stop i]
  by (cases "primary_loop b ctx waits stop i 0 st") (auto simp: primary_def loop_ok_def)

text \<open>The leases of a request are adjacent and start where the request does.\<close>

fun tiled :: "nat \<Rightarrow> lease list \<Rightarrow> nat \<Rightarrow> bool" where
  "tiled s [] e \<longleftrightarrow> s = e"
| "tiled s ((k, a, b) # ls) e \<longleftrightarrow> a = s \<and> a < b \<and> tiled b ls e"

lemma tiled_le: "tiled s ls e \<Longrightarrow> s \<le> e"
  by (induction s ls e rule: tiled.induct) auto

lemma tiled_mem: "tiled s ls e \<Longrightarrow> (k, a, b) \<in> set ls \<Longrightarrow> s \<le> a \<and> a < b \<and> b \<le> e"
  by (induction s ls e rule: tiled.induct) (auto dest: tiled_le)

text \<open>A data command carries the bytes the body has at its offset and stays inside the lease
  it is keyed with; the other commands are free.\<close>

fun cmd_from :: "nat \<Rightarrow> 'b list \<Rightarrow> lease list \<Rightarrow> 'b writer_command \<Rightarrow> bool" where
  "cmd_from s body ls (Data off d p key) \<longleftrightarrow>
     (\<exists>k a b. key = Some k \<and> (k, a, b) \<in> set ls \<and> a \<le> off \<and> off + length d \<le> b \<and> p = Some (length d) \<and>
        d = take (length d) (drop (off - s) body))"
| "cmd_from s body ls _ \<longleftrightarrow> True"

text \<open>The command stream of a finished request: every lease begun, all its bytes, flushed.\<close>

fun lease_stream :: "nat \<Rightarrow> lease list \<Rightarrow> 'b list \<Rightarrow> 'b writer_command list \<Rightarrow> bool" where
  "lease_stream m [] body cmds \<longleftrightarrow> cmds = []"
| "lease_stream m ((k, a, b) # ls) body cmds \<longleftrightarrow>
     (\<exists>mid rest. cmds = BeginLease k # mid @ FlushLease k # rest \<and> b - a \<le> length body \<and>
        chunked m a (Some k) (take (b - a) body) mid \<and> lease_stream m ls (drop (b - a) body) rest)"

lemma chunked_from:
  "chunked m off key d cmds \<Longrightarrow> c \<in> set cmds \<Longrightarrow>
    \<exists>o' x. c = Data o' x (Some (length x)) key \<and> off \<le> o' \<and> o' + length x \<le> off + length d \<and>
      x = take (length x) (drop (o' - off) d)"
proof (induction m off key d cmds rule: chunked.induct)
  case (2 m off key data o' d p k cmds)
  have l: "length d \<le> length data" using 2(2) by (metis chunked.simps(2) length_take min.cobounded1 min_def nat_le_linear)
  show ?case
  proof (cases "c = Data o' d p k")
    case True
    then show ?thesis using 2(2) l by auto
  next
    case False
    then obtain o2 x where x: "c = Data o2 x (Some (length x)) key" "off + length d \<le> o2"
      "o2 + length x \<le> off + length d + length (drop (length d) data)"
      "x = take (length x) (drop (o2 - (off + length d)) (drop (length d) data))"
      using 2 by auto
    have "o2 - (off + length d) + length d = o2 - off" using x(2) by simp
    then have "x = take (length x) (drop (o2 - off) data)" using x(4) by simp
    then show ?thesis using x l by (intro exI [of _ o2] exI [of _ x]) simp
  qed
qed auto

lemma cmd_from_later:
  assumes "cmd_from b (drop (b - a) body) ls c" "tiled b ls e" "a \<le> b"
  shows "cmd_from a body (l # ls) c"
proof (cases c)
  case (Data off d p key)
  then obtain k a' b' where k: "key = Some k" "(k, a', b') \<in> set ls" "a' \<le> off" "off + length d \<le> b'" "p = Some (length d)"
    "d = take (length d) (drop (off - b) (drop (b - a) body))" using assms(1) by auto
  then have "off - b + (b - a) = off - a" using tiled_mem [OF assms(2) k(2)] assms(3) by simp
  then show ?thesis using k Data by (auto simp: add.commute)
qed auto

definition stream_at :: "request_context \<Rightarrow> nat \<Rightarrow> 'b request_stream \<Rightarrow> bool" where
  "stream_at ctx s st \<longleftrightarrow>
     rc_request_end ctx \<le> u64_max \<and> rq_expected st < u64_max \<and>
     rq_consumed st + length (rq_buffered st) = rq_wire st \<and> rq_wire st \<le> rq_expected st \<and>
     s + (rq_expected st - rq_consumed st) = rc_request_end ctx"

lemma stream_at_ok:
  "stream_at ctx s st \<Longrightarrow> s \<le> e \<Longrightarrow> e \<le> rc_request_end ctx \<Longrightarrow> stream_ok (at_lease ctx (k, s, e)) 0 st"
  "stream_ok (at_lease ctx (k, s, e)) (e - s) st \<Longrightarrow> stream_at ctx e st"
  by (auto simp: stream_at_def stream_ok_def at_lease_def)

lemma request_run_ok:
  assumes m: "0 < max_chunk b"
  shows "tiled s ls (rc_request_end ctx) \<Longrightarrow> stream_at ctx s st \<Longrightarrow>
    \<exists>r cmds st'. request_run b ctx response waits stop i (Some st) ls = Some (r, cmds, Some st') \<and>
      (\<forall>c \<in> set cmds. cmd_from s (body_rest st) ls c) \<and>
      (r = Inr () \<longrightarrow> lease_stream (max_chunk b) ls (body_rest st) cmds)"
proof (induction ls arbitrary: s st i)
  case (Cons l ls)
  obtain k e where l: "l = (k, s, e)" "s < e" "tiled e ls (rc_request_end ctx)"
    using Cons.prems(1) by (cases l) auto
  have ok: "stream_ok (at_lease ctx l) 0 st"
    unfolding l(1) using stream_at_ok(1) [OF Cons.prems(2)] l(2) tiled_le [OF l(3)] by simp
  obtain r cmds fw st' where P: "primary b (at_lease ctx l) response waits stop i (Some st) = Some (r, cmds, fw, Some st')"
    "loop_ok b (at_lease ctx l) 0 st (Some (r, cmds, fw, st'))" using primary_resumes [OF m ok] .
  have C: "chunked (max_chunk b) s (Some k) (take fw (body_rest st)) cmds" "fw \<le> e - s" "fw \<le> length (body_rest st)"
    using P(2) by (auto simp: loop_ok_def at_lease_def l(1))
  have here: "cmd_from s (body_rest st) (l # ls) c" if c: "c \<in> set cmds" for c
  proof -
    from chunked_from [OF C(1) c] obtain o' x where x: "c = Data o' x (Some (length x)) (Some k)" "s \<le> o'"
      "o' + length x \<le> s + length (take fw (body_rest st))" "x = take (length x) (drop (o' - s) (take fw (body_rest st)))" by blast
    have "o' + length x \<le> e" using x(3) C(2) l(2) by auto
    moreover have "x = take (length x) (drop (o' - s) (body_rest st))"
    proof -
      have "length x \<le> fw - (o' - s)" using x(2,3) C(3) by simp
      then have "take (length x) (drop (o' - s) (take fw (body_rest st))) = take (length x) (drop (o' - s) (body_rest st))"
        by (simp add: drop_take min_def)
      then show ?thesis using x(4) by simp
    qed
    ultimately show ?thesis using x(1,2) l(1) by auto
  qed
  show ?case
  proof (cases r)
    case (Inl err)
    then have "request_run b ctx response waits stop i (Some st) (l # ls) = Some (Inl err, BeginLease k # cmds, Some st')"
      using P(1) l(1) by simp
    then show ?thesis using here by auto
  next
    case (Inr u)
    then have D: "fw = e - s" "stream_at ctx e st'" "body_rest st' = drop (e - s) (body_rest st)"
      using P(2) stream_at_ok(2) [of ctx k s e st'] by (auto simp: loop_ok_def l(1) at_lease_def)
    obtain r2 rest st2 where R: "request_run b ctx response waits stop (i + length cmds) (Some st') ls = Some (r2, rest, Some st2)"
      "\<forall>c \<in> set rest. cmd_from e (body_rest st') ls c" "r2 = Inr () \<longrightarrow> lease_stream (max_chunk b) ls (body_rest st') rest"
      using Cons.IH [OF l(3) D(2), of "i + length cmds"] by blast
    have "request_run b ctx response waits stop i (Some st) (l # ls) =
        Some (r2, BeginLease k # cmds @ FlushLease k # rest, Some st2)"
      using P(1) R(1) Inr l(1) by simp
    moreover have "\<forall>c \<in> set rest. cmd_from s (body_rest st) (l # ls) c"
      using R(2) cmd_from_later [OF _ l(3) less_imp_le [OF l(2)]] D(3) by metis
    ultimately show ?thesis using here R(3) C D l(1) by auto
  qed
qed auto

definition validator_agrees :: "request_context \<Rightarrow> response_meta \<Rightarrow> bool" where
  "validator_agrees ctx meta \<longleftrightarrow>
     (case rc_validator ctx of
        None \<Rightarrow> True
      | Some v \<Rightarrow> etag meta = Some v \<or> etag meta = None \<and> \<not> rc_require_validator ctx)"

definition answer_ok :: "request_context \<Rightarrow> nat \<Rightarrow> 'b http_response \<Rightarrow> response_meta \<Rightarrow> bool" where
  "answer_ok ctx request_end resp meta \<longleftrightarrow>
     range_answer_ok (rs_status resp) meta Segment
       \<lparr>er_start = rc_start ctx, er_end_inclusive = request_end - 1, er_total_size = Some (rc_total ctx)\<rparr> \<and>
     validator_agrees ctx meta"

lemma checked_response_iff:
  "checked_response ctx response request_end = Inr resp \<longleftrightarrow> (\<exists>meta. response = Inr (resp, meta) \<and> answer_ok ctx request_end resp meta)"
proof (cases response)
  case (Inr x)
  obtain resp' meta where x: "x = (resp', meta)" by (cases x)
  let ?v = "validate_range_response (rs_status resp') (retry_after_of resp') meta Segment
    \<lparr>er_start = rc_start ctx, er_end_inclusive = request_end - 1, er_total_size = Some (rc_total ctx)\<rparr>"
  have "?v = Inr d \<longleftrightarrow> d = Accept \<and> ?v = Inr Accept" for d
    using validate_fallback_iff [of "rs_status resp'" "retry_after_of resp'" meta Segment] by (cases d) auto
  then have "(\<exists>d. ?v = Inr d) \<longleftrightarrow> range_answer_ok (rs_status resp') meta Segment
    \<lparr>er_start = rc_start ctx, er_end_inclusive = request_end - 1, er_total_size = Some (rc_total ctx)\<rparr>"
    using validate_accept_iff by metis
  then show ?thesis unfolding Inr x checked_response_def answer_ok_def validator_agrees_def
    by (cases ?v) (auto split: option.splits)
qed (simp add: checked_response_def)

lemma stream_new_at:
  assumes "s < rc_request_end ctx" "rc_request_end ctx \<le> u64_max" "rc_request_end ctx - s < u64_max"
  shows "stream_at ctx s (request_stream_new (at_lease ctx (k, s, e)) fs f)"
    "body_rest (request_stream_new (at_lease ctx (k, s, e)) fs f) = concat fs"
  using assms by (auto simp: stream_at_def request_stream_new_def at_lease_def body_rest_def)

lemma request_run_fresh:
  "request_run b ctx response waits stop i None ((k, s, e) # ls) =
     (case checked_response (at_lease ctx (k, s, e)) response (rc_request_end ctx) of
        Inl f \<Rightarrow> Some (Inl (cf_error f), [BeginLease k], None)
      | Inr resp \<Rightarrow> request_run b ctx response waits stop i
          (Some (request_stream_new (at_lease ctx (k, s, e)) (fst (rs_body resp)) (snd (rs_body resp)))) ((k, s, e) # ls))"
  by (simp add: primary_def at_lease_def split: sum.split)

lemma stage_body_exact:
  "stage_body wr fl len fs failure wire staged = (Inr out, cost) \<Longrightarrow> len < u64_max \<Longrightarrow>
    failure = None \<and> out = staged @ concat fs \<and> wire + length (concat fs) = len \<and> cost = len"
proof (induction fs arbitrary: wire staged)
  case Nil
  then show ?case by (cases failure) (auto split: if_splits option.splits)
next
  case (Cons f fs)
  have w: "sat_add_u64 wire (length f) \<le> len" using Cons.prems by (auto simp: Let_def split: if_splits)
  then have "sat_add_u64 wire (length f) = wire + length f"
    using Cons.prems(2) by (auto simp: sat_add_u64_def min_def split: if_splits)
  then have "stage_body wr fl len fs failure (wire + length f) (staged @ f) = (Inr out, cost)"
    using Cons.prems(1) w by (auto simp: Let_def split: if_splits option.splits)
  from Cons.IH [OF this Cons.prems(2)] show ?case by simp
qed

lemma copy_to_ok:
  assumes m: "0 < max_chunk b" and len: "a + length staged = e"
  shows "a \<le> off \<Longrightarrow> off \<le> e \<Longrightarrow>
    \<exists>r cmds n. copy_to b waits i staged (k, a, e) off = Some (r, cmds) \<and> n \<le> e - off \<and>
      chunked (min (max_chunk b) COPY_CHUNK) off (Some k) (take n (drop (off - a) staged)) cmds \<and>
      (r = Inr () \<longleftrightarrow> n = e - off)"
proof (induction "e - off" arbitrary: off i rule: less_induct)
  case less
  define l where "l = min (e - off) (min (max_chunk b) COPY_CHUNK)"
  define c where "c = waits i"
  define data where "data = take l (drop (off - a) staged)"
  have dl: "length data = l" using less.prems len by (auto simp: data_def l_def)
  have step: "copy_to b waits i staged (k, a, e) off =
     (if \<not> off < e then Some (Inr (), [])
      else case wait_for_stop (cw_signals c) of
             Some err \<Rightarrow> Some (Inl err, [])
           | None \<Rightarrow>
               if cw_writer_closed c \<or> cw_semaphore_closed c then Some (Inl ChannelClosed, [])
               else if cw_slot_refused c then Some (Inl ChannelClosed, [])
               else Option.bind (copy_to b waits (Suc i) staged (k, a, e) (off + l))
                      (\<lambda>(r, cmds). Some (r, Data off data (Some l) (Some k) # cmds)))"
    by (subst copy_to.simps) (simp only: Let_def fst_conv snd_conv l_def [symmetric] c_def [symmetric]
        data_def [symmetric] dl less_irrefl if_False)
  show ?case
  proof (cases "off < e \<and> wait_for_stop (cw_signals c) = None \<and> \<not> cw_writer_closed c \<and> \<not> cw_semaphore_closed c \<and> \<not> cw_slot_refused c")
    case False
    then show ?thesis unfolding step using less.prems
      by (intro exI [of _ "fst (the (copy_to b waits i staged (k, a, e) off))"] exI [of _ "[]"] exI [of _ 0])
        (auto simp: step split: option.splits)
  next
    case True
    then have l: "0 < l" "l \<le> e - off" using m by (auto simp: l_def COPY_CHUNK_def)
    have lm: "l \<le> min (max_chunk b) COPY_CHUNK" unfolding l_def by (rule min.cobounded2)
    from l obtain r cmds n where H: "copy_to b waits (Suc i) staged (k, a, e) (off + l) = Some (r, cmds)" "n \<le> e - (off + l)"
      "chunked (min (max_chunk b) COPY_CHUNK) (off + l) (Some k) (take n (drop (off + l - a) staged)) cmds"
      "r = Inr () \<longleftrightarrow> n = e - (off + l)"
      using less.hyps [of "off + l" "Suc i"] less.prems True by fastforce
    have "drop l (take (l + n) (drop (off - a) staged)) = take n (drop (off + l - a) staged)"
      using less.prems by (simp add: drop_take add.commute)
    moreover have "take l (take (l + n) (drop (off - a) staged)) = data" by (simp add: data_def min_def)
    ultimately have "chunked (min (max_chunk b) COPY_CHUNK) off (Some k) (take (l + n) (drop (off - a) staged))
        (Data off data (Some l) (Some k) # cmds)"
      using H(3) dl l lm by auto
    moreover have "copy_to b waits i staged (k, a, e) off = Some (r, Data off data (Some l) (Some k) # cmds)"
      unfolding step using True H(1) by simp
    ultimately show ?thesis using H(2,4) l by (intro exI [of _ r] exI [of _ "Data off data (Some l) (Some k) # cmds"] exI [of _ "l + n"]) auto
  qed
qed

section \<open>Properties\<close>

text \<open>C5. One ranged request over several adjacent leases always ends, and whatever the
  frames of its body, the stop signals and the waits, every data command it hands to the
  writer carries the bytes the body has at that offset and lies inside the lease it is keyed
  with.  It succeeds only for a 206 answer with exactly the requested range, the known total
  and no different validator, and then every lease was begun, received all its bytes in
  adjacent chunks within the memory limit, and was flushed.\<close>

theorem request_leases_exact:
  assumes "0 < max_chunk b" "tiled s ((k, s, e) # ls) (rc_request_end ctx)"
    "rc_request_end ctx \<le> u64_max" "rc_request_end ctx - s < u64_max"
  shows "case request_run b ctx (Inr (resp, meta)) waits stop i None ((k, s, e) # ls) of
      None \<Rightarrow> False
    | Some (r, cmds, st) \<Rightarrow>
        (\<forall>c \<in> set cmds. cmd_from s (concat (fst (rs_body resp))) ((k, s, e) # ls) c) \<and>
        (r = Inr () \<longrightarrow>
          answer_ok (at_lease ctx (k, s, e)) (rc_request_end ctx) resp meta \<and>
          lease_stream (max_chunk b) ((k, s, e) # ls) (concat (fst (rs_body resp))) cmds)"
proof (cases "checked_response (at_lease ctx (k, s, e)) (Inr (resp, meta)) (rc_request_end ctx)")
  case (Inl f)
  show ?thesis unfolding request_run_fresh Inl sum.case option.case prod.case by simp
next
  case (Inr resp')
  then have ok: "resp' = resp" "answer_ok (at_lease ctx (k, s, e)) (rc_request_end ctx) resp meta"
    using checked_response_iff [of "at_lease ctx (k, s, e)" "Inr (resp, meta)" "rc_request_end ctx" resp'] by auto
  have "s < rc_request_end ctx" using assms(2) tiled_le [of e ls "rc_request_end ctx"] by auto
  note st = stream_new_at [OF this assms(3,4), where k = k and e = e and fs = "fst (rs_body resp)" and f = "snd (rs_body resp)"]
  obtain r cmds st' where R: "request_run b ctx (Inr (resp, meta)) waits stop i None ((k, s, e) # ls) = Some (r, cmds, Some st')"
    "\<forall>c \<in> set cmds. cmd_from s (concat (fst (rs_body resp))) ((k, s, e) # ls) c"
    "r = Inr () \<longrightarrow> lease_stream (max_chunk b) ((k, s, e) # ls) (concat (fst (rs_body resp))) cmds"
    using request_run_ok [OF assms(1,2) st(1), where response = "Inr (resp, meta)" and waits = waits and stop = stop and i = i]
    unfolding request_run_fresh Inr ok(1) sum.case st(2) by blast
  show ?thesis unfolding R(1) option.case prod.case using R(2,3) ok(2) by blast
qed

text \<open>An example: a request for four bytes over two leases; the first frame ends inside the
  second lease.\<close>

definition sample_request :: request_context where
  "sample_request = \<lparr>rc_key = LeaseKey 0 1, rc_start = 0, rc_end = 2, rc_request_end = 4, rc_total = 4,
     rc_validator = Some ''v'', rc_require_validator = True\<rparr>"

definition sample_response :: "nat body http_response" where
  "sample_response = \<lparr>rs_status = 206, rs_headers = [''content-length'' \<mapsto> show_nat 4], rs_body = ([[10, 11, 12], [], [13]], None)\<rparr>"

definition sample_meta :: response_meta where
  "sample_meta = plain_meta\<lparr>content_range_start := Some 0, content_range_end := Some 3, content_range_total := Some 4,
     etag := Some ''v''\<rparr>"

definition sample_budget :: memory_budget where
  "sample_budget = \<lparr>mb_bytes = 4, max_chunk = 2, watermark = 2\<rparr>"

definition quiet_wait :: chunk_wait where
  "quiet_wait = \<lparr>cw_signals = [], cw_writer_closed = False, cw_semaphore_closed = False, cw_slot_refused = False\<rparr>"

lemmas sample_request_defs = sample_request_def sample_response_def sample_meta_def sample_budget_def quiet_wait_def plain_meta_def

lemma sample_answer:
  "checked_response (at_lease sample_request (LeaseKey 0 1, 0, 2)) (Inr (sample_response, sample_meta)) 4 = Inr sample_response"
  unfolding checked_response_iff
  by (auto simp: answer_ok_def validator_agrees_def range_answer_ok_def range_response_allowed_def announced_end_def
      at_lease_def sample_request_defs u64_max_def)

lemmas body_eval = primary_loop.simps fetch_def next_data_chunk_def take_len_def forward_observed.simps chunk_error_def
  stop_signal_error_def at_lease_def primary_def request_stream_new_def sat_add_u64_def add_u64_def u64_max_def Let_def

theorem request_leases_exact_witness:
  "case request_run sample_budget sample_request (Inr (sample_response, sample_meta)) (\<lambda>_. quiet_wait) (\<lambda>_. Running) 0 None
     [(LeaseKey 0 1, 0, 2), (LeaseKey 1 2, 2, 4)] of
     None \<Rightarrow> False
   | Some (r, cmds, st) \<Rightarrow> r = Inr () \<and>
       lease_stream 2 [(LeaseKey 0 1, 0, 2), (LeaseKey 1 2, 2, 4)] [10, 11, 12, 13] cmds"
proof -
  let ?run = "request_run sample_budget sample_request (Inr (sample_response, sample_meta)) (\<lambda>_. quiet_wait) (\<lambda>_. Running) 0 None
     [(LeaseKey 0 1, 0, 2), (LeaseKey 1 2, 2, 4)]"
  have E: "rc_request_end sample_request = 4" by (simp add: sample_request_def)
  have "\<exists>cmds st. ?run = Some (Inr (), cmds, st)"
    unfolding request_run_fresh E sample_answer sum.case by (simp add: sample_request_defs body_eval)
  then show ?thesis
    using request_leases_exact [of sample_budget 0 "LeaseKey 0 1" 2 "[(LeaseKey 1 2, 2, 4)]" sample_request sample_response
      sample_meta "\<lambda>_. quiet_wait" "\<lambda>_. Running" 0]
    by (auto simp: sample_budget_def sample_request_def sample_response_def u64_max_def simp del: request_run.simps lease_stream.simps)
qed

text \<open>C6. A staged speculative copy is complete before it competes: \<open>stage\<close> succeeds only
  for an exact answer whose body is exactly the segment, and charges exactly its length.
  Copying it to the writer always ends, and hands over adjacent chunks of the staged bytes,
  all of them when it succeeds.\<close>

theorem staged_copy_exact:
  assumes "stage ctx tempfile wr fl response = (Inr staged, cost)" "0 < max_chunk b"
    "rc_start ctx \<le> rc_end ctx" "rc_end ctx - rc_start ctx < u64_max"
  shows "(\<exists>resp meta. response = Inr (resp, meta) \<and> answer_ok ctx (rc_end ctx) resp meta \<and> staged = concat (fst (rs_body resp))) \<and>
    length staged = rc_end ctx - rc_start ctx \<and> cost = length staged \<and>
    (\<exists>r cmds n. copy_to b waits i staged (k, rc_start ctx, rc_end ctx) (rc_start ctx) = Some (r, cmds) \<and> n \<le> length staged \<and>
       chunked (min (max_chunk b) COPY_CHUNK) (rc_start ctx) (Some k) (take n staged) cmds \<and> (r = Inr () \<longleftrightarrow> n = length staged))"
proof -
  obtain resp where R: "checked_response ctx response (rc_end ctx) = Inr resp"
    "stage_body wr fl (rc_end ctx - rc_start ctx) (fst (rs_body resp)) (snd (rs_body resp)) 0 [] = (Inr staged, cost)"
    using assms(1) by (auto simp: stage_def split: option.splits sum.splits if_splits)
  note B = stage_body_exact [OF R(2) assms(4)]
  have "rc_start ctx + length staged = rc_end ctx" using B assms(3) by simp
  from copy_to_ok [OF assms(2) this, of "rc_start ctx" waits i k] show ?thesis
    using B R(1) assms(3) checked_response_iff [of ctx response "rc_end ctx" resp] by auto
qed

theorem staged_copy_exact_witness:
  "case stage (sample_request\<lparr>rc_end := 4\<rparr>) None (\<lambda>_. None) None (Inr (sample_response, sample_meta)) of
     (Inr staged, cost) \<Rightarrow>
       (\<exists>r cmds n. copy_to sample_budget (\<lambda>_. quiet_wait) 0 staged (LeaseKey 0 2, 0, 4) 0 = Some (r, cmds) \<and>
          chunked 2 0 (Some (LeaseKey 0 2)) (take n [10, 11, 12, 13]) cmds \<and> (r = Inr () \<longleftrightarrow> n = length staged))
   | _ \<Rightarrow> False"
proof -
  let ?ctx = "sample_request\<lparr>rc_end := 4\<rparr>"
  have "checked_response ?ctx (Inr (sample_response, sample_meta)) 4 = Inr sample_response"
    unfolding checked_response_iff
    by (auto simp: answer_ok_def validator_agrees_def range_answer_ok_def range_response_allowed_def announced_end_def
      sample_request_defs u64_max_def)
  moreover have "parse_u64 (show_nat 4) = Some 4" by (rule parse_show_nat) (simp add: u64_max_def)
  ultimately have S: "stage ?ctx None (\<lambda>_. None) None (Inr (sample_response, sample_meta)) = (Inr [10, 11, 12, 13], 4)"
    by (simp add: stage_def sample_request_def del: show_nat.simps)
      (simp add: sample_response_def sat_add_u64_def u64_max_def Let_def del: show_nat.simps)
  have v: "max_chunk sample_budget = 2" "rc_start ?ctx = 0" "rc_end ?ctx = 4" "min 2 COPY_CHUNK = 2"
    by (simp_all add: sample_budget_def sample_request_def COPY_CHUNK_def)
  have "(0::nat) < 2" "(0::nat) \<le> 4" "4 - 0 < u64_max" by (simp_all add: u64_max_def)
  then show ?thesis using staged_copy_exact [OF S, of sample_budget "\<lambda>_. quiet_wait" 0 "LeaseKey 0 2", unfolded v]
    unfolding S prod.case sum.case by blast
qed

end
