(* ===== verification/Ip_Policy.thy ===== *)
theory Ip_Policy
  imports Config
begin

text \<open>
  The candidate policy of direct transfers, \<open>src/network/curl/ip_policy.rs\<close>: per origin a
  table of the addresses its name resolved to, with their reservations, cooldowns and
  measured rates; every request reserves one address, and the outcome settles it.

  Time is nanoseconds on the monotonic clock and is passed in, as in the source.  The
  arithmetic on rates is that of \<open>f64\<close>; it only orders and smooths, so the operations the
  source uses are the fields of a record and every result holds for any choice of them.
  Event counters are unbounded.
\<close>

section \<open>Data\<close>

datatype ip_addr = V4 nat | V6 nat

record pool_key =
  pk_origin :: string
  pk_proxy :: "string option"

text \<open>\<open>rate_of\<close> bytes over a window, \<open>rate_decay\<close> by age, \<open>rate_blend\<close> of a new sample with
  the old rate, \<open>rate_le\<close> for \<open>total_cmp\<close>, \<open>rate_beats\<close> the switching gap, and
  \<open>mostly_waiting\<close> the share of a window spent on backpressure.\<close>

record 'f rate_ops =
  rate_of :: "nat \<Rightarrow> nat \<Rightarrow> 'f"
  rate_decay :: "'f \<Rightarrow> nat \<Rightarrow> 'f"
  rate_blend :: "'f \<Rightarrow> 'f \<Rightarrow> 'f"
  rate_le :: "'f \<Rightarrow> 'f \<Rightarrow> bool"
  rate_beats :: "'f \<Rightarrow> 'f \<Rightarrow> bool"
  mostly_waiting :: "nat \<Rightarrow> nat \<Rightarrow> bool"

definition millis :: "nat \<Rightarrow> nat" where
  "millis n = n * 1000000"

definition PREFERRED_SET :: nat where "PREFERRED_SET = 2"

definition MIN_SAMPLES :: nat where "MIN_SAMPLES = 3"

definition MIN_WINDOW :: nat where "MIN_WINDOW = millis 200"

definition MIN_SAMPLE_BYTES :: nat where "MIN_SAMPLE_BYTES = 64 * 1024"

definition SAMPLE_TTL :: nat where "SAMPLE_TTL = secs 60"

definition MIN_DWELL :: nat where "MIN_DWELL = secs 5"

definition EXPLORE_PERIOD :: nat where "EXPLORE_PERIOD = 16"

definition CONNECT_FAILURE_COOLDOWN :: nat where "CONNECT_FAILURE_COOLDOWN = secs 3"

definition REMOVED_HISTORY :: nat where "REMOVED_HISTORY = secs 120"

datatype attempt_outcome = AttemptCompleted | AttemptFailed | ConnectFailed | AttemptCancelled

record transfer_sample =
  sm_bytes :: nat
  sm_window :: nat
  sm_backpressure :: nat

datatype selection_reason = Single | Coverage | Preferred | Exploration | Fallback

record selection =
  sl_address :: ip_addr
  sl_generation :: nat
  sl_reason :: selection_reason

datatype selection_error = Expired | NoCandidates

record candidate_set =
  ca_host :: string
  ca_port :: nat
  ca_addresses :: "ip_addr list"
  ca_valid_until :: nat

record 'f candidate =
  cd_address :: ip_addr
  cd_generation :: nat
  cd_present :: bool
  cd_last_seen :: nat
  cd_in_flight :: nat
  cd_attempts :: nat
  cd_cooldown_until :: "nat option"
  cd_rate :: "'f option"
  cd_samples :: nat
  cd_polluted :: nat
  cd_updated_at :: "nat option"
  cd_successes :: nat
  cd_failures :: nat

record 'f origin =
  og_generation :: nat
  og_valid_until :: nat
  og_candidates :: "'f candidate list"
  og_preferred :: "ip_addr option"
  og_preferred_since :: "nat option"

record 'f ip_policy =
  po_origins :: "pool_key \<Rightarrow> 'f origin option"
  po_selections :: nat
  po_polluted_windows :: nat

section \<open>Candidates\<close>

definition candidate_new :: "ip_addr \<Rightarrow> nat \<Rightarrow> nat \<Rightarrow> 'f candidate" where
  "candidate_new address generation now =
     \<lparr>cd_address = address, cd_generation = generation, cd_present = True, cd_last_seen = now,
      cd_in_flight = 0, cd_attempts = 0, cd_cooldown_until = None, cd_rate = None, cd_samples = 0,
      cd_polluted = 0, cd_updated_at = None, cd_successes = 0, cd_failures = 0\<rparr>"

definition is_available :: "'f candidate \<Rightarrow> nat \<Rightarrow> bool" where
  "is_available c now \<longleftrightarrow> cd_present c \<and> (case cd_cooldown_until c of None \<Rightarrow> True | Some until \<Rightarrow> until \<le> now)"

definition effective_rate :: "'f rate_ops \<Rightarrow> 'f candidate \<Rightarrow> nat \<Rightarrow> 'f option" where
  "effective_rate ops c now =
     (case (cd_rate c, cd_updated_at c) of
        (Some rate, Some updated_at) \<Rightarrow>
          if SAMPLE_TTL \<le> now - updated_at then None else Some (rate_decay ops rate (now - updated_at))
      | _ \<Rightarrow> None)"

definition is_proven :: "'f candidate \<Rightarrow> bool" where
  "is_proven c \<longleftrightarrow> MIN_SAMPLES \<le> cd_samples c"

definition candidate_at :: "'f candidate list \<Rightarrow> ip_addr \<Rightarrow> 'f candidate option" where
  "candidate_at cs address = find (\<lambda>c. cd_address c = address) cs"

text \<open>An update through \<open>candidate_mut\<close>: the first entry with the address.\<close>

fun upd_candidate :: "ip_addr \<Rightarrow> ('f candidate \<Rightarrow> 'f candidate) \<Rightarrow> 'f candidate list \<Rightarrow> 'f candidate list" where
  "upd_candidate address f [] = []"
| "upd_candidate address f (c # cs) =
     (if cd_address c = address then f c # cs else c # upd_candidate address f cs)"

section \<open>DNS answers\<close>

definition origin_new :: "nat \<Rightarrow> 'f origin" where
  "origin_new now =
     \<lparr>og_generation = 0, og_valid_until = now, og_candidates = [], og_preferred = None, og_preferred_since = None\<rparr>"

fun position :: "'a \<Rightarrow> 'a list \<Rightarrow> nat option" where
  "position x [] = None"
| "position x (y # ys) = (if x = y then Some 0 else map_option Suc (position x ys))"

definition offer :: "nat \<Rightarrow> nat \<Rightarrow> 'f candidate list \<Rightarrow> ip_addr \<Rightarrow> 'f candidate list" where
  "offer generation now cs address =
     (case candidate_at cs address of
        Some _ \<Rightarrow>
          upd_candidate address (\<lambda>c. c\<lparr>cd_present := True, cd_generation := generation, cd_last_seen := now\<rparr>) cs
      | None \<Rightarrow> cs @ [candidate_new address generation now])"

definition origin_observe :: "candidate_set \<Rightarrow> nat \<Rightarrow> 'f origin \<Rightarrow> 'f origin" where
  "origin_observe cset now og =
     (let offered = map cd_address (filter cd_present (og_candidates og));
          same_set = (length offered = length (ca_addresses cset) \<and>
                      list_all (\<lambda>a. a \<in> set (ca_addresses cset)) offered);
          generation = (if same_set then og_generation og else og_generation og + 1);
          cs1 = map (\<lambda>c. c\<lparr>cd_present := False\<rparr>) (og_candidates og);
          cs2 = foldl (offer generation now) cs1 (ca_addresses cset);
          cs3 = sort_key (\<lambda>c. case position (cd_address c) (ca_addresses cset) of Some i \<Rightarrow> i | None \<Rightarrow> u64_max) cs2;
          cs4 = filter (\<lambda>c. cd_present c \<or> 0 < cd_in_flight c \<or> now - cd_last_seen c < REMOVED_HISTORY) cs3;
          removed = (case og_preferred og of Some a \<Rightarrow> a \<notin> set (ca_addresses cset) | None \<Rightarrow> False)
      in \<lparr>og_generation = generation, og_valid_until = ca_valid_until cset, og_candidates = cs4,
          og_preferred = (if removed then None else og_preferred og),
          og_preferred_since = (if removed then None else og_preferred_since og)\<rparr>)"

section \<open>Ranking\<close>

text \<open>\<open>sort_by\<close> on rates, best first; the sort is stable.\<close>

fun rank_insert :: "'f rate_ops \<Rightarrow> ip_addr \<times> 'f \<Rightarrow> (ip_addr \<times> 'f) list \<Rightarrow> (ip_addr \<times> 'f) list" where
  "rank_insert ops x [] = [x]"
| "rank_insert ops x (y # ys) =
     (if rate_le ops (snd y) (snd x) then x # y # ys else y # rank_insert ops x ys)"

definition ranked :: "'f rate_ops \<Rightarrow> 'f candidate list \<Rightarrow> nat \<Rightarrow> (ip_addr \<times> 'f) list" where
  "ranked ops cs now =
     foldr (rank_insert ops)
       (List.map_filter (\<lambda>c. map_option (Pair (cd_address c)) (effective_rate ops c now))
         (filter (\<lambda>c. cd_present c \<and> is_proven c) cs)) []"

definition update_preferred :: "'f rate_ops \<Rightarrow> nat \<Rightarrow> 'f origin \<Rightarrow> 'f origin" where
  "update_preferred ops now og =
     (case ranked ops (og_candidates og) now of
        [] \<Rightarrow> og\<lparr>og_preferred := None, og_preferred_since := None\<rparr>
      | (best, best_rate) # _ \<Rightarrow>
          (case og_preferred og of
             None \<Rightarrow> og\<lparr>og_preferred := Some best, og_preferred_since := Some now\<rparr>
           | Some current \<Rightarrow>
               if current = best then og
               else
                 let current_rate = Option.bind (candidate_at (og_candidates og) current) (\<lambda>c. effective_rate ops c now);
                     settled = (case og_preferred_since og of None \<Rightarrow> True | Some since \<Rightarrow> MIN_DWELL \<le> now - since);
                     clearly_better = (case current_rate of None \<Rightarrow> True | Some rate \<Rightarrow> rate_beats ops best_rate rate)
                 in if settled \<and> clearly_better
                    then og\<lparr>og_preferred := Some best, og_preferred_since := Some now\<rparr> else og))"

definition preferred_set :: "'f rate_ops \<Rightarrow> nat \<Rightarrow> 'f origin \<Rightarrow> ip_addr list" where
  "preferred_set ops now og =
     (let top = take PREFERRED_SET (map fst (ranked ops (og_candidates og) now))
      in case og_preferred og of
           None \<Rightarrow> top
         | Some p \<Rightarrow> take PREFERRED_SET (p # filter (\<lambda>a. a \<noteq> p) top))"

section \<open>Choosing an address\<close>

text \<open>\<open>min_by_key\<close> returns the first minimum, \<open>max_by_key\<close> the last maximum.\<close>

fun min_by_key :: "('a \<Rightarrow> nat) \<Rightarrow> 'a list \<Rightarrow> 'a option" where
  "min_by_key f [] = None"
| "min_by_key f (x # xs) =
     (case min_by_key f xs of None \<Rightarrow> Some x | Some y \<Rightarrow> if f x \<le> f y then Some x else Some y)"

fun max_by_key :: "('a \<Rightarrow> nat) \<Rightarrow> 'a list \<Rightarrow> 'a option" where
  "max_by_key f [] = None"
| "max_by_key f (x # xs) =
     (case max_by_key f xs of None \<Rightarrow> Some x | Some y \<Rightarrow> if f x \<le> f y then Some y else Some x)"

definition explore_candidate :: "'f rate_ops \<Rightarrow> nat \<Rightarrow> 'f origin \<Rightarrow> ip_addr list \<Rightarrow> ip_addr option" where
  "explore_candidate ops now og preferred =
     map_option cd_address
       (max_by_key (\<lambda>c. if cd_samples c = 0 then 2 else if effective_rate ops c now = None then 1 else 0)
         (filter (\<lambda>c. cd_present c \<and> cd_address c \<notin> set preferred \<and> is_available c now) (og_candidates og)))"

definition eligible_addresses :: "'f rate_ops \<Rightarrow> nat \<Rightarrow> 'f origin \<Rightarrow> ip_addr list" where
  "eligible_addresses ops now og =
     (let pref = filter (\<lambda>a. case candidate_at (og_candidates og) a of Some c \<Rightarrow> is_available c now | None \<Rightarrow> False)
                   (preferred_set ops now og)
      in if pref = [] then map cd_address (filter (\<lambda>c. is_available c now) (og_candidates og)) else pref)"

definition pick :: "'f rate_ops \<Rightarrow> nat \<Rightarrow> bool \<Rightarrow> 'f origin \<Rightarrow> (ip_addr \<times> selection_reason) option" where
  "pick ops now exploration_due og =
     (let cs = og_candidates og; present = filter cd_present cs
      in if present = [] then None
         else if length present = 1
         then map_option (\<lambda>c. (cd_address c, Single)) (find cd_present cs)
         else
           case find (\<lambda>c. cd_present c \<and> cd_attempts c = 0 \<and> cd_samples c = 0) cs of
             Some c \<Rightarrow> Some (cd_address c, Coverage)
           | None \<Rightarrow>
               let eligible = eligible_addresses ops now og
               in if eligible \<noteq> []
                  then (case (if exploration_due then explore_candidate ops now og eligible else None) of
                          Some address \<Rightarrow> Some (address, Exploration)
                        | None \<Rightarrow>
                            map_option (\<lambda>a. (a, Preferred))
                              (min_by_key (\<lambda>a. case candidate_at cs a of Some c \<Rightarrow> cd_in_flight c | None \<Rightarrow> u64_max)
                                eligible))
                  else map_option (\<lambda>c. (cd_address c, Fallback))
                         (min_by_key (\<lambda>c. case cd_cooldown_until c of Some until \<Rightarrow> until - now | None \<Rightarrow> 0) present))"

section \<open>The policy\<close>

definition policy_new :: "'f ip_policy" where
  "policy_new = \<lparr>po_origins = (\<lambda>_. None), po_selections = 0, po_polluted_windows = 0\<rparr>"

definition set_origin :: "pool_key \<Rightarrow> 'f origin \<Rightarrow> 'f ip_policy \<Rightarrow> 'f ip_policy" where
  "set_origin pool og p = p\<lparr>po_origins := (po_origins p)(pool := Some og)\<rparr>"

definition observe :: "pool_key \<Rightarrow> candidate_set \<Rightarrow> nat \<Rightarrow> 'f ip_policy \<Rightarrow> 'f ip_policy" where
  "observe pool cset now p =
     set_origin pool
       (origin_observe cset now (case po_origins p pool of Some og \<Rightarrow> og | None \<Rightarrow> origin_new now)) p"

definition reserve :: "'f candidate \<Rightarrow> 'f candidate" where
  "reserve c = c\<lparr>cd_in_flight := cd_in_flight c + 1, cd_attempts := cd_attempts c + 1\<rparr>"

definition select ::
  "'f rate_ops \<Rightarrow> pool_key \<Rightarrow> nat \<Rightarrow> 'f ip_policy \<Rightarrow> (selection_error + selection) \<times> 'f ip_policy" where
  "select ops pool now p =
     (case po_origins p pool of
        None \<Rightarrow> (Inl NoCandidates, p)
      | Some og \<Rightarrow>
          if \<not> list_ex cd_present (og_candidates og) then (Inl NoCandidates, p)
          else if og_valid_until og \<le> now then (Inl Expired, p)
          else
            let p1 = p\<lparr>po_selections := po_selections p + 1\<rparr>;
                exploration_due = (po_selections p1 mod EXPLORE_PERIOD = 0);
                og1 = update_preferred ops now og
            in case pick ops now exploration_due og1 of
                 None \<Rightarrow> (Inl NoCandidates, set_origin pool og1 p1)
               | Some (address, reason) \<Rightarrow>
                   let og2 = og1\<lparr>og_candidates := upd_candidate address reserve (og_candidates og1)\<rparr>
                   in (Inr \<lparr>sl_address = address,
                            sl_generation = (case candidate_at (og_candidates og2) address of
                                               Some c \<Rightarrow> cd_generation c | None \<Rightarrow> 0),
                            sl_reason = reason\<rparr>,
                       set_origin pool og2 p1))"

definition settle_candidate :: "nat \<Rightarrow> nat \<Rightarrow> attempt_outcome \<Rightarrow> nat \<Rightarrow> 'f candidate \<Rightarrow> 'f candidate" where
  "settle_candidate current_generation generation outcome now c =
     (let c1 = c\<lparr>cd_in_flight := cd_in_flight c - 1\<rparr>
      in case outcome of
           ConnectFailed \<Rightarrow>
             (if generation = current_generation
              then c1\<lparr>cd_cooldown_until := Some (now + CONNECT_FAILURE_COOLDOWN), cd_failures := cd_failures c + 1\<rparr>
              else c1\<lparr>cd_failures := cd_failures c + 1\<rparr>)
         | AttemptFailed \<Rightarrow> c1\<lparr>cd_failures := cd_failures c + 1\<rparr>
         | AttemptCompleted \<Rightarrow> c1\<lparr>cd_successes := cd_successes c + 1\<rparr>
         | AttemptCancelled \<Rightarrow> c1)"

definition settle ::
  "pool_key \<Rightarrow> ip_addr \<Rightarrow> nat \<Rightarrow> attempt_outcome \<Rightarrow> nat \<Rightarrow> 'f ip_policy \<Rightarrow> 'f ip_policy" where
  "settle pool address generation outcome now p =
     (case po_origins p pool of
        None \<Rightarrow> p
      | Some og \<Rightarrow>
          set_origin pool
            (og\<lparr>og_candidates :=
                 upd_candidate address (settle_candidate (og_generation og) generation outcome now) (og_candidates og)\<rparr>) p)"

definition sample_is_usable :: "'f rate_ops \<Rightarrow> transfer_sample \<Rightarrow> bool" where
  "sample_is_usable ops s \<longleftrightarrow>
     \<not> (sm_window s < MIN_WINDOW \<or> sm_bytes s < MIN_SAMPLE_BYTES) \<and>
     \<not> mostly_waiting ops (sm_backpressure s) (sm_window s)"

definition note_pollution :: "'f candidate \<Rightarrow> 'f candidate" where
  "note_pollution c = c\<lparr>cd_polluted := cd_polluted c + 1\<rparr>"

definition fold_rate :: "'f rate_ops \<Rightarrow> 'f \<Rightarrow> nat \<Rightarrow> 'f candidate \<Rightarrow> 'f candidate" where
  "fold_rate ops rate now c =
     c\<lparr>cd_rate := Some (case effective_rate ops c now of
                          Some previous \<Rightarrow> rate_blend ops rate previous
                        | None \<Rightarrow> rate),
       cd_samples := cd_samples c + 1, cd_updated_at := Some now\<rparr>"

definition record_sample ::
  "'f rate_ops \<Rightarrow> pool_key \<Rightarrow> ip_addr \<Rightarrow> transfer_sample \<Rightarrow> nat \<Rightarrow> 'f ip_policy \<Rightarrow> bool \<times> 'f ip_policy" where
  "record_sample ops pool address s now p =
     (case po_origins p pool of
        None \<Rightarrow> (False, p)
      | Some og \<Rightarrow>
          (case candidate_at (og_candidates og) address of
             None \<Rightarrow> (False, p)
           | Some _ \<Rightarrow>
               if \<not> sample_is_usable ops s
               then (False,
                     set_origin pool
                       (og\<lparr>og_candidates :=
                            upd_candidate address note_pollution (og_candidates og)\<rparr>)
                       (p\<lparr>po_polluted_windows := po_polluted_windows p + 1\<rparr>))
               else
                 (True,
                  set_origin pool
                    (og\<lparr>og_candidates :=
                         upd_candidate address (fold_rate ops (rate_of ops (sm_bytes s) (sm_window s)) now)
                           (og_candidates og)\<rparr>) p)))"

section \<open>Lemmas\<close>

named_theorems table_simps \<open>lookup laws of the candidate table\<close>

definition keeps_address :: "('f candidate \<Rightarrow> 'f candidate) \<Rightarrow> bool" where
  "keeps_address f \<longleftrightarrow> (\<forall>c. cd_address (f c) = cd_address c)"

lemma keeps_address_updates [simp]:
  "keeps_address (\<lambda>c. c\<lparr>cd_present := True, cd_generation := g, cd_last_seen := n\<rparr>)"
  "keeps_address reserve" "keeps_address (settle_candidate cg g out n)" "keeps_address note_pollution"
  "keeps_address (fold_rate ops r n)"
  by (auto simp: keeps_address_def reserve_def settle_candidate_def note_pollution_def fold_rate_def Let_def
      split: attempt_outcome.split)

lemma upd_addresses [simp]: "keeps_address f \<Longrightarrow> map cd_address (upd_candidate a f cs) = map cd_address cs"
  by (induction cs) (auto simp: keeps_address_def)

lemma candidate_at_Nil [simp]: "candidate_at [] a = None"
  by (simp add: candidate_at_def)

lemma candidate_at_Cons: "candidate_at (c # cs) a = (if cd_address c = a then Some c else candidate_at cs a)"
  by (simp add: candidate_at_def)

lemma candidate_at_upd [table_simps]:
  "keeps_address f \<Longrightarrow>
    candidate_at (upd_candidate a f cs) b = (if b = a then map_option f (candidate_at cs a) else candidate_at cs b)"
  by (induction cs) (auto simp: candidate_at_Cons keeps_address_def)

lemma candidate_at_None: "candidate_at cs a = None \<longleftrightarrow> a \<notin> cd_address ` set cs"
  by (induction cs) (auto simp: candidate_at_Cons)

lemma candidate_at_mem: "candidate_at cs a = Some c \<Longrightarrow> c \<in> set cs \<and> cd_address c = a"
  by (induction cs) (auto simp: candidate_at_Cons split: if_splits)

lemma candidate_at_distinct:
  "distinct (map cd_address cs) \<Longrightarrow> candidate_at cs a = Some c \<longleftrightarrow> c \<in> set cs \<and> cd_address c = a"
  by (induction cs) (auto simp: candidate_at_Cons)

lemma upd_mem:
  assumes "distinct (map cd_address cs)" "keeps_address f"
  shows "c \<in> set (upd_candidate a f cs) \<longleftrightarrow>
    (\<exists>d \<in> set cs. cd_address d = a \<and> c = f d) \<or> c \<in> set cs \<and> cd_address c \<noteq> a"
  using assms(1)
proof (induction cs)
  case (Cons d cs)
  show ?case
  proof (cases "cd_address d = a")
    case True
    have "cd_address x \<noteq> a" if "x \<in> set cs" for x
      using Cons.prems True that by (metis distinct.simps(2) image_eqI list.simps(9) set_map)
    then show ?thesis using True by auto
  next
    case False
    then show ?thesis using Cons by auto
  qed
qed simp

subsection \<open>Reservations\<close>

definition in_flight :: "'f candidate list \<Rightarrow> ip_addr \<Rightarrow> nat" where
  "in_flight cs a = (case candidate_at cs a of None \<Rightarrow> 0 | Some c \<Rightarrow> cd_in_flight c)"

lemma in_flight_upd [table_simps]:
  "keeps_address f \<Longrightarrow>
    in_flight (upd_candidate a f cs) b =
      (if b = a then (case candidate_at cs a of None \<Rightarrow> 0 | Some c \<Rightarrow> cd_in_flight (f c)) else in_flight cs b)"
  by (auto simp: in_flight_def candidate_at_upd split: option.split)

lemma in_flight_not_present: "in_flight (map (\<lambda>c. c\<lparr>cd_present := False\<rparr>) cs) a = in_flight cs a"
  by (induction cs) (auto simp: in_flight_def candidate_at_Cons)

lemma candidate_at_append: "candidate_at (cs @ ds) a = (case candidate_at cs a of None \<Rightarrow> candidate_at ds a | x \<Rightarrow> x)"
  by (induction cs) (auto simp: candidate_at_Cons)

lemma offer_laws:
  assumes "distinct (map cd_address cs)"
  shows "distinct (map cd_address (offer g now cs a))" "in_flight (offer g now cs a) b = in_flight cs b"
    "cd_address ` set (offer g now cs a) = insert a (cd_address ` set cs)"
    "cd_address ` {c \<in> set (offer g now cs a). cd_present c} = insert a (cd_address ` {c \<in> set cs. cd_present c})"
proof -
  show "distinct (map cd_address (offer g now cs a))" "cd_address ` set (offer g now cs a) = insert a (cd_address ` set cs)"
    "in_flight (offer g now cs a) b = in_flight cs b"
    using assms candidate_at_None [of cs a] candidate_at_mem [of cs a]
    by (auto simp: offer_def candidate_new_def in_flight_def candidate_at_append candidate_at_Cons table_simps
        simp flip: set_map split: option.split)
  show "cd_address ` {c \<in> set (offer g now cs a). cd_present c} = insert a (cd_address ` {c \<in> set cs. cd_present c})"
  proof (cases "candidate_at cs a")
    case None
    then have "{c \<in> set (offer g now cs a). cd_present c} = insert (candidate_new a g now) {c \<in> set cs. cd_present c}"
      by (auto simp: offer_def candidate_new_def)
    then show ?thesis by (simp add: candidate_new_def)
  next
    case (Some c)
    note c = candidate_at_mem [OF Some]
    let ?f = "\<lambda>c. c\<lparr>cd_present := True, cd_generation := g, cd_last_seen := now\<rparr>"
    have "{d \<in> set (offer g now cs a). cd_present d} =
        ?f ` {d \<in> set cs. cd_address d = a} \<union> {d \<in> set cs. cd_present d \<and> cd_address d \<noteq> a}"
      by (auto simp: offer_def Some upd_mem [OF assms keeps_address_updates(1)])
    moreover have "cd_address ` ?f ` {d \<in> set cs. cd_address d = a} = {a}" using c by (auto simp: image_image)
    moreover have "insert a (cd_address ` {d \<in> set cs. cd_present d}) =
        {a} \<union> cd_address ` {d \<in> set cs. cd_present d \<and> cd_address d \<noteq> a}" by auto
    ultimately show ?thesis by (simp add: image_Un)
  qed
qed

lemma foldl_offer:
  assumes "distinct (map cd_address cs)"
  shows "distinct (map cd_address (foldl (offer g now) cs as))" "in_flight (foldl (offer g now) cs as) b = in_flight cs b"
    "cd_address ` {c \<in> set (foldl (offer g now) cs as). cd_present c} = set as \<union> cd_address ` {c \<in> set cs. cd_present c}"
  using assms by (induction as arbitrary: cs) (auto simp: offer_laws)

lemma in_flight_pos:
  assumes "distinct (map cd_address es)" "0 < n"
  shows "in_flight es a = n \<longleftrightarrow> (\<exists>c \<in> set es. cd_address c = a \<and> cd_in_flight c = n)"
proof (cases "candidate_at es a")
  case None
  then show ?thesis using assms(2) candidate_at_None [of es a] by (auto simp: in_flight_def)
next
  case (Some y)
  then have "c \<in> set es \<and> cd_address c = a \<longleftrightarrow> c = y" for c
    using candidate_at_distinct [OF assms(1), of a c] by auto
  moreover have "in_flight es a = cd_in_flight y" by (simp add: in_flight_def Some)
  ultimately show ?thesis by metis
qed

lemma in_flight_same:
  assumes "distinct (map cd_address cs)" "distinct (map cd_address ds)"
    "\<And>c. 0 < cd_in_flight c \<Longrightarrow> c \<in> set ds \<longleftrightarrow> c \<in> set cs"
  shows "in_flight ds a = in_flight cs a"
proof -
  have "in_flight ds a = n \<longleftrightarrow> in_flight cs a = n" if "0 < n" for n
    unfolding in_flight_pos [OF assms(1) that] in_flight_pos [OF assms(2) that] using assms(3) that by metis
  then show ?thesis by (metis neq0_conv)
qed

lemma origin_observe_laws:
  assumes d: "distinct (map cd_address (og_candidates og))"
  shows "distinct (map cd_address (og_candidates (origin_observe cset now og)))"
    "in_flight (og_candidates (origin_observe cset now og)) a = in_flight (og_candidates og) a"
    "cd_address ` {c \<in> set (og_candidates (origin_observe cset now og)). cd_present c} = set (ca_addresses cset)"
    "og_valid_until (origin_observe cset now og) = ca_valid_until cset"
proof -
  obtain g where g: "og_candidates (origin_observe cset now og) =
      filter (\<lambda>c. cd_present c \<or> 0 < cd_in_flight c \<or> now - cd_last_seen c < REMOVED_HISTORY)
        (sort_key (\<lambda>c. case position (cd_address c) (ca_addresses cset) of Some i \<Rightarrow> i | None \<Rightarrow> u64_max)
          (foldl (offer g now) (map (\<lambda>c. c\<lparr>cd_present := False\<rparr>) (og_candidates og)) (ca_addresses cset)))"
    (is "_ = filter ?keep (sort_key ?k ?cs)")
    by (rule that, unfold origin_observe_def Let_def origin.simps, rule refl)
  have d1: "distinct (map cd_address (map (\<lambda>c. c\<lparr>cd_present := False\<rparr>) (og_candidates og)))"
    using d by (simp add: comp_def)
  note F = foldl_offer [OF d1, of g now "ca_addresses cset"]
  have ds: "distinct (map cd_address (sort_key ?k ?cs))"
    using F(1) by (simp add: distinct_map)
  then show d4: "distinct (map cd_address (og_candidates (origin_observe cset now og)))"
    unfolding g by (rule distinct_map_filter)
  have "in_flight (og_candidates (origin_observe cset now og)) a = in_flight ?cs a"
    by (rule in_flight_same [OF F(1) d4]) (auto simp: g)
  then show "in_flight (og_candidates (origin_observe cset now og)) a = in_flight (og_candidates og) a"
    using F(2) by (simp add: in_flight_not_present)
  have "{c \<in> set (og_candidates (origin_observe cset now og)). cd_present c} = {c \<in> set ?cs. cd_present c}"
    by (auto simp: g)
  then show "cd_address ` {c \<in> set (og_candidates (origin_observe cset now og)). cd_present c} = set (ca_addresses cset)"
    using F(3) by auto
  show "og_valid_until (origin_observe cset now og) = ca_valid_until cset" by (simp add: origin_observe_def Let_def)
qed

subsection \<open>Choice\<close>

lemma min_by_key_None [simp]: "min_by_key f xs = None \<longleftrightarrow> xs = []"
  by (induction xs) (auto split: option.split)

lemma min_by_key_Some: "min_by_key f xs = Some y \<Longrightarrow> y \<in> set xs \<and> (\<forall>z \<in> set xs. f y \<le> f z)"
  by (induction xs arbitrary: y) (auto split: option.splits if_splits)

lemma max_by_key_Some: "max_by_key f xs = Some y \<Longrightarrow> y \<in> set xs"
  by (induction xs arbitrary: y) (auto split: option.splits if_splits)

lemma eligible_available:
  "a \<in> set (eligible_addresses ops now og) \<Longrightarrow> \<exists>c \<in> set (og_candidates og). cd_address c = a \<and> is_available c now"
  by (auto simp: eligible_addresses_def Let_def split: if_splits option.splits dest!: candidate_at_mem)

lemma eligible_Nil: "eligible_addresses ops now og = [] \<Longrightarrow> c \<in> set (og_candidates og) \<Longrightarrow> \<not> is_available c now"
  by (auto simp: eligible_addresses_def Let_def filter_empty_conv split: if_splits)

definition pick_ok :: "nat \<Rightarrow> 'f candidate list \<Rightarrow> 'f candidate \<Rightarrow> selection_reason \<Rightarrow> bool" where
  "pick_ok now cs c reason \<longleftrightarrow>
     (case reason of
        Single \<Rightarrow> \<forall>d \<in> set cs. cd_present d \<longrightarrow> d = c
      | Coverage \<Rightarrow> cd_attempts c = 0 \<and> cd_samples c = 0
      | Fallback \<Rightarrow> (\<forall>d \<in> set cs. \<not> is_available d now)
      | _ \<Rightarrow> is_available c now) \<and>
     (reason \<noteq> Single \<and> reason \<noteq> Coverage \<longrightarrow>
        (\<forall>d \<in> set cs. cd_present d \<longrightarrow> 0 < cd_attempts d \<or> 0 < cd_samples d))"

lemma explore_sound:
  "explore_candidate ops now og el = Some a \<Longrightarrow> \<exists>c \<in> set (og_candidates og). cd_address c = a \<and> is_available c now"
  by (auto simp: explore_candidate_def dest!: max_by_key_Some)

lemma single_present:
  "length (filter P xs) = 1 \<Longrightarrow> find P xs = Some c \<Longrightarrow> c \<in> set xs \<and> P c \<and> (\<forall>d \<in> set xs. P d \<longrightarrow> d = c)"
proof -
  assume l: "length (filter P xs) = 1" and f: "find P xs = Some c"
  then have "c \<in> set xs" "P c" by (auto simp: find_Some_iff)
  moreover obtain x where "filter P xs = [x]" using l by (auto simp: length_Suc_conv)
  moreover have "d \<in> set (filter P xs)" if "d \<in> set xs" "P d" for d using that by simp
  ultimately show ?thesis by (metis empty_iff empty_set insert_iff list.simps(15))
qed

lemma pick_sound:
  assumes p: "pick ops now due og = Some (a, reason)"
  shows "\<exists>c \<in> set (og_candidates og). cd_address c = a \<and> cd_present c \<and> pick_ok now (og_candidates og) c reason"
proof -
  let ?cs = "og_candidates og"
  have ne: "filter cd_present ?cs \<noteq> []" using p by (auto simp: pick_def Let_def)
  show ?thesis
  proof (cases "length (filter cd_present ?cs) = 1")
    case True
    then obtain c where "find cd_present ?cs = Some c" "a = cd_address c" "reason = Single"
      using p ne by (auto simp: pick_def Let_def)
    then show ?thesis using single_present [OF True] by (auto simp: pick_ok_def)
  next
    case multi: False
    show ?thesis
    proof (cases "find (\<lambda>c. cd_present c \<and> cd_attempts c = 0 \<and> cd_samples c = 0) ?cs")
      case (Some c)
      then have "a = cd_address c" "reason = Coverage" using p ne multi by (auto simp: pick_def Let_def)
      then show ?thesis using Some by (auto simp: find_Some_iff pick_ok_def)
    next
      case None
      then have tried: "\<forall>d \<in> set ?cs. cd_present d \<longrightarrow> 0 < cd_attempts d \<or> 0 < cd_samples d"
        by (auto simp: find_None_iff)
      show ?thesis
      proof (cases "eligible_addresses ops now og = []")
        case True
        then obtain c where "min_by_key (\<lambda>c. case cd_cooldown_until c of Some until \<Rightarrow> until - now | None \<Rightarrow> 0)
            (filter cd_present ?cs) = Some c" "a = cd_address c" "reason = Fallback"
          using p ne multi None by (auto simp: pick_def Let_def)
        then show ?thesis using tried eligible_Nil [OF True] by (fastforce simp: pick_ok_def dest!: min_by_key_Some)
      next
        case el: False
        have "reason = Exploration \<or> reason = Preferred" "\<exists>c \<in> set ?cs. cd_address c = a \<and> is_available c now"
          using p ne multi None el
          by (auto simp: pick_def Let_def split: option.splits if_splits
              dest!: explore_sound min_by_key_Some dest: eligible_available)
        then show ?thesis using tried by (auto simp: pick_ok_def is_available_def)
      qed
    qed
  qed
qed

lemma pick_total:
  assumes "c \<in> set (og_candidates og)" "cd_present c"
  shows "pick ops now due og \<noteq> None"
proof
  assume "pick ops now due og = None"
  then show False using assms
    by (auto simp: pick_def Let_def filter_empty_conv find_None_iff split: option.splits if_splits)
qed

lemma update_preferred_candidates [simp]:
  "og_candidates (update_preferred ops now og) = og_candidates og"
  "og_valid_until (update_preferred ops now og) = og_valid_until og"
  "og_generation (update_preferred ops now og) = og_generation og"
  by (auto simp: update_preferred_def Let_def split: list.split option.split)

section \<open>Runs\<close>

text \<open>The calls the driver makes, and the reservations it holds: an address is settled only
  by the attempt that reserved it.\<close>

datatype policy_op =
    PObserve pool_key candidate_set nat
  | PSelect pool_key nat
  | PSettle pool_key ip_addr nat attempt_outcome nat
  | PSample pool_key ip_addr transfer_sample nat

type_synonym held = "pool_key \<Rightarrow> ip_addr \<Rightarrow> nat"

definition hold :: "pool_key \<Rightarrow> ip_addr \<Rightarrow> (nat \<Rightarrow> nat) \<Rightarrow> held \<Rightarrow> held" where
  "hold pool a f h = h(pool := (h pool)(a := f (h pool a)))"

fun policy_step :: "'f rate_ops \<Rightarrow> policy_op \<Rightarrow> 'f ip_policy \<times> held \<Rightarrow> ('f ip_policy \<times> held) option" where
  "policy_step ops (PObserve pool cset now) (p, h) = Some (observe pool cset now p, h)"
| "policy_step ops (PSelect pool now) (p, h) =
     (case select ops pool now p of
        (Inr s, p') \<Rightarrow> Some (p', hold pool (sl_address s) Suc h)
      | (Inl _, p') \<Rightarrow> Some (p', h))"
| "policy_step ops (PSettle pool a g out now) (p, h) =
     (if 0 < h pool a then Some (settle pool a g out now p, hold pool a (\<lambda>n. n - 1) h) else None)"
| "policy_step ops (PSample pool a s now) (p, h) = Some (snd (record_sample ops pool a s now p), h)"

fun policy_run :: "'f rate_ops \<Rightarrow> policy_op list \<Rightarrow> 'f ip_policy \<times> held \<Rightarrow> ('f ip_policy \<times> held) option" where
  "policy_run ops [] x = Some x"
| "policy_run ops (op # evs) x = Option.bind (policy_step ops op x) (policy_run ops evs)"

definition table_of :: "'f ip_policy \<Rightarrow> pool_key \<Rightarrow> 'f candidate list" where
  "table_of p pool = (case po_origins p pool of None \<Rightarrow> [] | Some og \<Rightarrow> og_candidates og)"

definition policy_inv :: "'f ip_policy \<Rightarrow> held \<Rightarrow> bool" where
  "policy_inv p h \<longleftrightarrow> (\<forall>pool. distinct (map cd_address (table_of p pool)) \<and> (\<forall>a. in_flight (table_of p pool) a = h pool a))"

lemma table_set [simp]: "table_of (set_origin pool og p) q = (if q = pool then og_candidates og else table_of p q)"
  by (simp add: table_of_def set_origin_def)

lemma table_counters [simp]:
  "table_of (p\<lparr>po_selections := n\<rparr>) q = table_of p q" "table_of (p\<lparr>po_polluted_windows := n\<rparr>) q = table_of p q"
  by (simp_all add: table_of_def)

lemma observe_laws:
  assumes "distinct (map cd_address (table_of p pool))"
  shows "q \<noteq> pool \<Longrightarrow> table_of (observe pool cset now p) q = table_of p q"
    "distinct (map cd_address (table_of (observe pool cset now p) pool))"
    "in_flight (table_of (observe pool cset now p) pool) a = in_flight (table_of p pool) a"
    "cd_address ` {c \<in> set (table_of (observe pool cset now p) pool). cd_present c} = set (ca_addresses cset)"
    "\<exists>og. po_origins (observe pool cset now p) pool = Some og \<and> og_valid_until og = ca_valid_until cset"
proof -
  define og where "og = (case po_origins p pool of Some og \<Rightarrow> og | None \<Rightarrow> origin_new now)"
  have t: "og_candidates og = table_of p pool" by (simp add: og_def table_of_def origin_new_def split: option.split)
  note L = origin_observe_laws [of og cset now, unfolded t, OF assms]
  have o: "observe pool cset now p = set_origin pool (origin_observe cset now og) p" by (simp add: observe_def og_def)
  show "q \<noteq> pool \<Longrightarrow> table_of (observe pool cset now p) q = table_of p q"
    "distinct (map cd_address (table_of (observe pool cset now p) pool))"
    "in_flight (table_of (observe pool cset now p) pool) a = in_flight (table_of p pool) a"
    "cd_address ` {c \<in> set (table_of (observe pool cset now p) pool). cd_present c} = set (ca_addresses cset)"
    unfolding o using L by simp_all
  show "\<exists>og. po_origins (observe pool cset now p) pool = Some og \<and> og_valid_until og = ca_valid_until cset"
    unfolding o using L(4) by (simp add: set_origin_def)
qed

lemma select_Inr:
  assumes "select ops pool now p = (Inr s, p')"
  obtains c og where "po_origins p pool = Some og" "now < og_valid_until og" "c \<in> set (table_of p pool)"
    "cd_address c = sl_address s" "cd_present c" "pick_ok now (table_of p pool) c (sl_reason s)"
    "\<And>q. table_of p' q = (if q = pool
       then upd_candidate (sl_address s) reserve
              (table_of p pool)
       else table_of p q)"
proof -
  obtain og where og: "po_origins p pool = Some og" "now < og_valid_until og"
    using assms by (auto simp: select_def split: option.splits if_splits)
  obtain a reason where p: "pick ops now (po_selections (p\<lparr>po_selections := po_selections p + 1\<rparr>) mod EXPLORE_PERIOD = 0)
      (update_preferred ops now og) = Some (a, reason)"
    and s: "sl_address s = a" "sl_reason s = reason"
    and p': "p' = set_origin pool ((update_preferred ops now og)\<lparr>og_candidates := upd_candidate a
      reserve (og_candidates og)\<rparr>)
      (p\<lparr>po_selections := po_selections p + 1\<rparr>)"
    using assms og by (auto simp: select_def Let_def split: option.splits if_splits)
  have t: "table_of p pool = og_candidates og" by (simp add: table_of_def og)
  obtain c where "c \<in> set (og_candidates og)" "cd_address c = a" "cd_present c" "pick_ok now (og_candidates og) c reason"
    using pick_sound [OF p] by auto
  then show thesis using that og s by (auto simp: p' t)
qed

lemma select_Inl:
  assumes "select ops pool now p = (Inl e, p')"
  shows "table_of p' q = table_of p q"
    "e = NoCandidates \<longleftrightarrow> (\<forall>c \<in> set (table_of p pool). \<not> cd_present c)"
    "e = Expired \<Longrightarrow> \<exists>og. po_origins p pool = Some og \<and> og_valid_until og \<le> now"
proof -
  have "e = NoCandidates \<and> (\<forall>c \<in> set (table_of p pool). \<not> cd_present c) \<and> p' = p \<or>
    e = Expired \<and> (\<exists>c \<in> set (table_of p pool). cd_present c) \<and> p' = p \<and>
      (\<exists>og. po_origins p pool = Some og \<and> og_valid_until og \<le> now)"
  proof (cases "po_origins p pool")
    case None
    then show ?thesis using assms by (simp add: select_def table_of_def)
  next
    case (Some og)
    then have t: "table_of p pool = og_candidates og" by (simp add: table_of_def)
    show ?thesis
    proof (cases "list_ex cd_present (og_candidates og)")
      case True
      then obtain c where c: "c \<in> set (og_candidates og)" "cd_present c" by (auto simp: list_ex_iff)
      then have "pick ops now (Suc (po_selections p) mod EXPLORE_PERIOD = 0) (update_preferred ops now og) \<noteq> None"
        using pick_total [of c "update_preferred ops now og"] by simp
      then show ?thesis using assms Some True c unfolding t
        by (auto simp: select_def Let_def split: if_splits option.splits prod.splits)
    next
      case False
      then show ?thesis using assms Some unfolding t by (auto simp: select_def list_ex_iff)
    qed
  qed
  then show "table_of p' q = table_of p q" "e = NoCandidates \<longleftrightarrow> (\<forall>c \<in> set (table_of p pool). \<not> cd_present c)"
    "e = Expired \<Longrightarrow> \<exists>og. po_origins p pool = Some og \<and> og_valid_until og \<le> now" by auto
qed

lemma in_flight_reserve:
  assumes "c \<in> set cs" "cd_address c = a"
  shows "in_flight (upd_candidate a reserve cs) b =
    in_flight cs b + (if b = a then 1 else 0)"
proof -
  have "candidate_at cs a \<noteq> None" using assms candidate_at_None [of cs a] by auto
  then show ?thesis by (auto simp: table_simps in_flight_def reserve_def)
qed

lemma in_flight_settle: "in_flight (upd_candidate a (settle_candidate cg g out now) cs) b = in_flight cs b - (if b = a then 1 else 0)"
  by (auto simp: table_simps in_flight_def settle_candidate_def Let_def split: option.split attempt_outcome.split)

lemma table_settle:
  "table_of (settle pool a g out now p) q =
     (if q = pool \<and> po_origins p pool \<noteq> None
      then upd_candidate a (settle_candidate (og_generation (the (po_origins p pool))) g out now) (table_of p pool)
      else table_of p q)"
  by (auto simp: settle_def table_of_def set_origin_def split: option.split)

lemma record_sample_keeps:
  "map cd_address (table_of (snd (record_sample ops pool a s now p)) q) = map cd_address (table_of p q)"
  "in_flight (table_of (snd (record_sample ops pool a s now p)) q) b = in_flight (table_of p q) b"
  by (auto simp: record_sample_def table_of_def set_origin_def Let_def table_simps in_flight_def
      note_pollution_def fold_rate_def split: option.split)

lemma policy_step_inv:
  assumes inv: "policy_inv p h" and st: "policy_step ops op (p, h) = Some (p', h')"
  shows "policy_inv p' h'"
proof (cases op)
  case (PObserve pool cset now)
  have d: "distinct (map cd_address (table_of p pool))" using inv by (simp add: policy_inv_def)
  show ?thesis using PObserve st inv observe_laws(1,2,3) [OF d, where cset = cset and now = now] unfolding policy_inv_def
    by (metis (no_types, lifting) old.prod.inject option.inject policy_step.simps(1))
next
  case (PSelect pool now)
  show ?thesis
  proof (cases "select ops pool now p")
    case (Pair r p1)
    show ?thesis
    proof (cases r)
      case (Inl e)
      then have "table_of p1 = table_of p" "p' = p1" "h' = h"
        using select_Inl(1) [OF Pair [unfolded Inl]] PSelect Pair st by auto
      then show ?thesis using inv by (simp add: policy_inv_def)
    next
      case (Inr s)
      obtain c where "c \<in> set (table_of p pool)" "cd_address c = sl_address s" and T: "\<And>q. table_of p1 q = (if q = pool
         then upd_candidate (sl_address s) reserve
                (table_of p pool) else table_of p q)"
        using select_Inr [OF Pair [unfolded Inr]] by metis
      then show ?thesis using PSelect Pair Inr st inv
        by (auto simp: policy_inv_def in_flight_reserve hold_def)
    qed
  qed
next
  case (PSettle pool a g out now)
  have "in_flight (table_of p pool) a = h pool a" using inv by (simp add: policy_inv_def)
  then have "po_origins p pool \<noteq> None" using PSettle st
    by (cases "po_origins p pool") (auto simp: table_of_def in_flight_def split: if_splits)
  then show ?thesis using PSettle st inv
    by (auto simp: policy_inv_def table_settle in_flight_settle hold_def split: if_splits)
next
  case (PSample pool a s now)
  then show ?thesis using st inv by (auto simp: policy_inv_def record_sample_keeps)
qed

lemma policy_run_inv: "policy_inv p h \<Longrightarrow> policy_run ops evs (p, h) = Some (p', h') \<Longrightarrow> policy_inv p' h'"
proof (induction evs arbitrary: p h)
  case (Cons op evs)
  then obtain p1 h1 where "policy_step ops op (p, h) = Some (p1, h1)" "policy_run ops evs (p1, h1) = Some (p', h')"
    by (cases "policy_step ops op (p, h)") auto
  then show ?case using Cons policy_step_inv by blast
qed simp

lemma policy_new_inv: "policy_inv policy_new (\<lambda>_ _. 0)"
  by (simp add: policy_inv_def policy_new_def table_of_def in_flight_def)

section \<open>Properties\<close>

text \<open>C9. Reservations are counted exactly: whatever DNS answers, selections, settlements and
  samples come in whatever order, every address appears once in the table of its origin and
  the transfers counted against it are those that reserved it and have not settled; an
  address that leaves the answer while busy is not forgotten.\<close>

theorem ip_reservations_exact:
  assumes "policy_run ops evs (policy_new, \<lambda>_ _. 0) = Some (p, h)"
  shows "distinct (map cd_address (table_of p pool)) \<and> in_flight (table_of p pool) a = h pool a"
  using policy_run_inv [OF policy_new_inv assms] by (simp add: policy_inv_def)

definition sample_pool :: pool_key where
  "sample_pool = \<lparr>pk_origin = ''http://h:80'', pk_proxy = None\<rparr>"

definition sample_set :: candidate_set where
  "sample_set = \<lparr>ca_host = ''h'', ca_port = 80, ca_addresses = [V4 1, V4 2], ca_valid_until = 100\<rparr>"

definition flat_rates :: "nat rate_ops" where
  "flat_rates = \<lparr>rate_of = (\<lambda>b w. b div w), rate_decay = (\<lambda>r a. r), rate_blend = (\<lambda>a b. a), rate_le = (\<le>),
     rate_beats = (\<lambda>a b. b < a), mostly_waiting = (\<lambda>b w. w < 10 * b)\<rparr>"

lemmas policy_eval = observe_def origin_observe_def origin_new_def set_origin_def policy_new_def offer_def candidate_at_def
  candidate_new_def select_def update_preferred_def ranked_def pick_def eligible_addresses_def reserve_def hold_def
  settle_def settle_candidate_def Let_def map_filter_def effective_rate_def is_proven_def MIN_SAMPLES_def
  REMOVED_HISTORY_def secs_def

theorem ip_reservations_exact_witness:
  "case policy_run flat_rates
      [PObserve sample_pool sample_set 0, PSelect sample_pool 1, PSelect sample_pool 2,
       PObserve sample_pool (sample_set\<lparr>ca_addresses := [V4 2]\<rparr>) 3, PSettle sample_pool (V4 2) 1 AttemptCompleted 4]
      (policy_new, \<lambda>_ _. 0) of
     None \<Rightarrow> False
   | Some (p, h) \<Rightarrow> in_flight (table_of p sample_pool) (V4 1) = 1 \<and> in_flight (table_of p sample_pool) (V4 2) = 0"
proof -
  let ?run = "policy_run flat_rates
      [PObserve sample_pool sample_set 0, PSelect sample_pool 1, PSelect sample_pool 2,
       PObserve sample_pool (sample_set\<lparr>ca_addresses := [V4 2]\<rparr>) 3, PSettle sample_pool (V4 2) 1 AttemptCompleted 4]
      (policy_new, \<lambda>_ _. 0)"
  have "case ?run of None \<Rightarrow> False | Some (p, h) \<Rightarrow> h sample_pool (V4 1) = 1 \<and> h sample_pool (V4 2) = 0"
    by (simp add: policy_eval sample_set_def)
  then obtain p h where r: "?run = Some (p, h)" "h sample_pool (V4 1) = 1" "h sample_pool (V4 2) = 0"
    by (auto split: option.splits)
  then show ?thesis
    using ip_reservations_exact [OF r(1), of sample_pool "V4 1"] ip_reservations_exact [OF r(1), of sample_pool "V4 2"]
    unfolding r(1) by simp
qed



end
