(* ===== verification/Body_Sink.thy ===== *)
theory Body_Sink
  imports Ip_Policy Error_Model
begin

text \<open>
  The byte channel between the libcurl write callback on the driver thread and the Tokio
  consumer of a response body: \<open>BodySink\<close> of \<open>src/network/curl/driver/mod.rs\<close>.  Each
  operation holds the lock of the sink, so it is one step; a run interleaves the steps of the
  two sides with the driver's handling of the resume command.

  Of libcurl the model uses what it documents: a chunk whose callback returned pause is
  delivered again after the handle is unpaused, and a transfer finishes successfully only
  once all its data was accepted.
\<close>

section \<open>The sink\<close>

datatype terminal = Eof | BodyCancelled | BodyFailed transport_error_kind "nat option" string

definition terminal_error :: "terminal \<Rightarrow> download_error option" where
  "terminal_error t =
     (case t of
        Eof \<Rightarrow> None
      | BodyCancelled \<Rightarrow> Some Cancelled
      | BodyFailed kind code message \<Rightarrow> Some (Transport \<lparr>te_kind = kind, te_source = message\<rparr>))"

record 'b body_sink =
  sk_budget :: nat
  sk_queue :: "'b list list"
  sk_buffered :: nat
  sk_terminal :: "terminal option"
  sk_paused :: bool
  sk_drained_since_pause :: bool
  sk_first_byte_at :: "nat option"
  sk_last_byte_at :: "nat option"
  sk_paused_at :: "nat option"
  sk_paused_total :: nat
  sk_pause_count :: nat
  sk_accepted_bytes :: nat
  sk_paused_for_wait :: bool

definition sink_new :: "nat \<Rightarrow> 'b body_sink" where
  "sink_new budget =
     \<lparr>sk_budget = max budget 1, sk_queue = [], sk_buffered = 0, sk_terminal = None, sk_paused = False,
      sk_drained_since_pause = False, sk_first_byte_at = None, sk_last_byte_at = None, sk_paused_at = None,
      sk_paused_total = 0, sk_pause_count = 0, sk_accepted_bytes = 0, sk_paused_for_wait = False\<rparr>"

definition get_or_insert :: "'a option \<Rightarrow> 'a \<Rightarrow> 'a option" where
  "get_or_insert x v = (case x of None \<Rightarrow> Some v | Some _ \<Rightarrow> x)"

definition start_pause :: "nat \<Rightarrow> 'b body_sink \<Rightarrow> 'b body_sink" where
  "start_pause now s =
     s\<lparr>sk_paused := True, sk_drained_since_pause := False, sk_paused_at := get_or_insert (sk_paused_at s) now,
       sk_paused_for_wait := True, sk_pause_count := sk_pause_count s + 1\<rparr>"

text \<open>\<open>write\<close>: \<open>None\<close> is the pause request.\<close>

definition sink_write :: "nat \<Rightarrow> 'b list \<Rightarrow> 'b body_sink \<Rightarrow> nat option \<times> 'b body_sink" where
  "sink_write now data s =
     (if data = [] then (Some 0, s)
      else if sk_terminal s \<noteq> None then (None, start_pause now s)
      else if sk_queue s \<noteq> [] \<and> sk_budget s < sk_buffered s + length data then (None, start_pause now s)
      else (Some (length data),
            s\<lparr>sk_buffered := sk_buffered s + length data, sk_queue := sk_queue s @ [data],
              sk_first_byte_at := get_or_insert (sk_first_byte_at s) now, sk_last_byte_at := Some now,
              sk_accepted_bytes := sk_accepted_bytes s + length data\<rparr>))"

text \<open>Closing an interval of backpressure.\<close>

definition end_pause :: "nat \<Rightarrow> 'b body_sink \<Rightarrow> 'b body_sink" where
  "end_pause now s =
     (case sk_paused_at s of
        None \<Rightarrow> s
      | Some at \<Rightarrow> s\<lparr>sk_paused_at := None, sk_paused_total := sk_paused_total s + (now - at)\<rparr>)"

definition sink_finish :: "terminal \<Rightarrow> nat \<Rightarrow> 'b body_sink \<Rightarrow> 'b body_sink" where
  "sink_finish t now s =
     (if sk_terminal s \<noteq> None then s else (end_pause now s)\<lparr>sk_terminal := Some t\<rparr>)"

definition sink_sample :: "'b body_sink \<Rightarrow> transfer_sample option" where
  "sink_sample s =
     (case (sk_first_byte_at s, sk_last_byte_at s) of
        (Some first, Some latest) \<Rightarrow>
          Some \<lparr>sm_bytes = sk_accepted_bytes s, sm_window = latest - first, sm_backpressure = sk_paused_total s\<rparr>
      | _ \<Rightarrow> None)"

definition discard_buffer :: "'b body_sink \<Rightarrow> 'b body_sink" where
  "discard_buffer s = s\<lparr>sk_queue := [], sk_buffered := 0\<rparr>"

datatype 'b poll_result = Chunk "'b list" | PollTerminal terminal | Pending

definition sink_poll :: "'b body_sink \<Rightarrow> 'b poll_result \<times> 'b body_sink" where
  "sink_poll s =
     (case sk_queue s of
        chunk # rest \<Rightarrow>
          (Chunk chunk,
           s\<lparr>sk_queue := rest, sk_buffered := sk_buffered s - length chunk,
             sk_drained_since_pause := (sk_paused s \<or> sk_drained_since_pause s)\<rparr>)
      | [] \<Rightarrow> (case sk_terminal s of Some t \<Rightarrow> (PollTerminal t, s) | None \<Rightarrow> (Pending, s)))"

definition needs_resume :: "nat \<Rightarrow> 'b body_sink \<Rightarrow> bool \<times> 'b body_sink" where
  "needs_resume now s =
     (if sk_paused s \<and> sk_drained_since_pause s
      then (True, (end_pause now s)\<lparr>sk_paused := False, sk_drained_since_pause := False, sk_paused_for_wait := False\<rparr>)
      else (False, s))"

section \<open>The channel\<close>

text \<open>Both sides: what libcurl still has to deliver, what the consumer got, whether libcurl
  has the handle paused, whether the consumer stands between its two locked calls in
  \<open>next_chunk\<close>, and the resume commands in the driver's queue.\<close>

record 'b channel =
  ch_sink :: "'b body_sink"
  ch_wire :: "'b list list"
  ch_got :: "'b list list"
  ch_curl_paused :: bool
  ch_check :: bool
  ch_resumes :: nat
  ch_discarded :: bool

definition channel_new :: "nat \<Rightarrow> 'b list list \<Rightarrow> 'b channel" where
  "channel_new budget wire =
     \<lparr>ch_sink = sink_new budget, ch_wire = wire, ch_got = [], ch_curl_paused = False, ch_check = False,
      ch_resumes = 0, ch_discarded = False\<rparr>"

datatype channel_event =
    CurlWrite nat
  | CurlFinish terminal nat
  | CurlAbort terminal nat
  | DriverResume
  | ConsumerPoll
  | ConsumerCheck nat

fun channel_step :: "channel_event \<Rightarrow> 'b channel \<Rightarrow> 'b channel option" where
  "channel_step (CurlWrite now) c =
     (case ch_wire c of
        [] \<Rightarrow> None
      | data # rest \<Rightarrow>
          if ch_curl_paused c then None
          else (case sink_write now data (ch_sink c) of
                  (Some _, s) \<Rightarrow> Some (c\<lparr>ch_sink := s, ch_wire := rest\<rparr>)
                | (None, s) \<Rightarrow> Some (c\<lparr>ch_sink := s, ch_curl_paused := True\<rparr>)))"
| "channel_step (CurlFinish t now) c =
     (if t = Eof \<and> ch_wire c \<noteq> [] then None else Some (c\<lparr>ch_sink := sink_finish t now (ch_sink c)\<rparr>))"
| "channel_step (CurlAbort t now) c =
     (if t = Eof \<or> sk_terminal (ch_sink c) \<noteq> None then None
      else Some (c\<lparr>ch_sink := sink_finish t now (discard_buffer (ch_sink c)), ch_discarded := True\<rparr>))"
| "channel_step DriverResume c =
     (if ch_resumes c = 0 then None else Some (c\<lparr>ch_resumes := ch_resumes c - 1, ch_curl_paused := False\<rparr>))"
| "channel_step ConsumerPoll c =
     (if ch_check c then None
      else case sink_poll (ch_sink c) of
             (Chunk chunk, s) \<Rightarrow> Some (c\<lparr>ch_sink := s, ch_got := ch_got c @ [chunk], ch_check := True\<rparr>)
           | (_, s) \<Rightarrow> Some (c\<lparr>ch_sink := s\<rparr>))"
| "channel_step (ConsumerCheck now) c =
     (if \<not> ch_check c then None
      else case needs_resume now (ch_sink c) of
             (b, s) \<Rightarrow> Some (c\<lparr>ch_sink := s, ch_check := False, ch_resumes := ch_resumes c + (if b then 1 else 0)\<rparr>))"

fun channel_run :: "channel_event list \<Rightarrow> 'b channel \<Rightarrow> 'b channel option" where
  "channel_run [] c = Some c"
| "channel_run (ev # evs) c = Option.bind (channel_step ev c) (channel_run evs)"

section \<open>Invariant\<close>

text \<open>\<open>all\<close> is what the server sends and \<open>m\<close> bounds one chunk.\<close>

definition stream_inv :: "'b list \<Rightarrow> nat \<Rightarrow> 'b channel \<Rightarrow> bool" where
  "stream_inv all m c \<longleftrightarrow>
     (let s = ch_sink c
      in sk_buffered s = length (concat (sk_queue s)) \<and> [] \<notin> set (sk_queue s) \<and>
         sk_buffered s \<le> max (sk_budget s) m \<and> (\<forall>d \<in> set (ch_wire c). length d \<le> m) \<and>
         (\<not> ch_discarded c \<longrightarrow> concat (ch_got c) @ concat (sk_queue s) @ concat (ch_wire c) = all) \<and>
         (\<exists>rest. concat (ch_got c) @ rest = all) \<and>
         (sk_terminal s = None \<longrightarrow> \<not> ch_discarded c) \<and> (ch_discarded c \<longrightarrow> sk_queue s = []) \<and>
         (sk_terminal s = Some Eof \<longrightarrow> \<not> ch_discarded c \<and> ch_wire c = []))"

definition pause_inv :: "'b channel \<Rightarrow> bool" where
  "pause_inv c \<longleftrightarrow>
     (let s = ch_sink c
      in (sk_terminal s = None \<longrightarrow>
            (if ch_curl_paused c
             then (if sk_paused s
                   then ch_resumes c = 0 \<and> (if sk_drained_since_pause s then ch_check c else sk_queue s \<noteq> [])
                   else ch_resumes c = 1)
             else \<not> sk_paused s \<and> ch_resumes c = 0)))"

lemmas sink_defs = sink_write_def start_pause_def sink_finish_def end_pause_def discard_buffer_def sink_poll_def
  needs_resume_def get_or_insert_def

lemma new_inv:
  assumes "\<forall>d \<in> set wire. length d \<le> m"
  shows "stream_inv (concat wire) m (channel_new budget wire)" "pause_inv (channel_new budget wire)"
  using assms by (auto simp: stream_inv_def pause_inv_def channel_new_def sink_new_def Let_def)

lemma needs_resume_fields:
  assumes "needs_resume now s = (b, s')"
  shows "sk_queue s' = sk_queue s" "sk_buffered s' = sk_buffered s" "sk_budget s' = sk_budget s"
    "sk_terminal s' = sk_terminal s"
  using assms by (auto simp: needs_resume_def end_pause_def split: if_splits option.splits)

lemma stream_step:
  assumes inv: "stream_inv all m c" and st: "channel_step ev c = Some c'"
  shows "stream_inv all m c'"
proof (cases ev)
  case (CurlWrite now)
  then obtain d rest where w: "ch_wire c = d # rest" using st by (auto split: list.splits)
  show ?thesis using inv st CurlWrite w
    by (auto simp: stream_inv_def Let_def sink_defs split: if_splits)
next
  case (CurlFinish t now)
  then show ?thesis using inv st by (auto simp: stream_inv_def Let_def sink_defs split: if_splits option.splits)
next
  case (CurlAbort t now)
  then show ?thesis using inv st by (auto simp: stream_inv_def Let_def sink_defs split: if_splits option.splits)
next
  case DriverResume
  then show ?thesis using inv st by (auto simp: stream_inv_def Let_def split: if_splits)
next
  case ConsumerPoll
  show ?thesis
  proof (cases "sk_queue (ch_sink c)")
    case Nil
    then show ?thesis using inv st ConsumerPoll by (auto simp: stream_inv_def Let_def sink_defs split: if_splits option.splits)
  next
    case (Cons d q)
    then have c': "c' = c\<lparr>ch_sink := snd (sink_poll (ch_sink c)), ch_got := ch_got c @ [d], ch_check := True\<rparr>"
      using st ConsumerPoll by (auto simp: sink_poll_def split: if_splits)
    show ?thesis using inv Cons unfolding c' by (auto simp: stream_inv_def Let_def sink_poll_def)
  qed
next
  case (ConsumerCheck now)
  obtain b s' where n: "needs_resume now (ch_sink c) = (b, s')" by (cases "needs_resume now (ch_sink c)")
  note F = needs_resume_fields [OF n]
  have "ch_sink c' = s'" "ch_wire c' = ch_wire c" "ch_got c' = ch_got c" "ch_discarded c' = ch_discarded c"
    using st ConsumerCheck n by (auto split: if_splits)
  then show ?thesis using inv by (simp add: stream_inv_def Let_def F)
qed

text \<open>The lock-free mirror of the pause flag never disagrees with it.\<close>

lemma sink_mirror:
  assumes "sk_paused_for_wait s = sk_paused s"
  shows "sk_paused_for_wait (snd (sink_write now d s)) = sk_paused (snd (sink_write now d s))"
    "sk_paused_for_wait (snd (sink_poll s)) = sk_paused (snd (sink_poll s))"
    "sk_paused_for_wait (snd (needs_resume now s)) = sk_paused (snd (needs_resume now s))"
    "sk_paused_for_wait (sink_finish t now s) = sk_paused (sink_finish t now s)"
  using assms by (simp_all add: sink_defs split: list.split option.split)

lemma pause_write:
  assumes inv: "pause_inv c" and np: "\<not> ch_curl_paused c" and w: "ch_wire c = d # rest"
    and st: "channel_step (CurlWrite now) c = Some c'"
  shows "pause_inv c'"
proof -
  consider "d = []" | "d \<noteq> []" "sk_terminal (ch_sink c) \<noteq> None"
    | "d \<noteq> []" "sk_terminal (ch_sink c) = None" "sk_queue (ch_sink c) \<noteq> [] \<and> sk_budget (ch_sink c) < sk_buffered (ch_sink c) + length d"
    | "d \<noteq> []" "sk_terminal (ch_sink c) = None" "\<not> (sk_queue (ch_sink c) \<noteq> [] \<and> sk_budget (ch_sink c) < sk_buffered (ch_sink c) + length d)"
    by blast
  then show ?thesis
  proof cases
    case 4
    then obtain n s' where k: "sink_write now d (ch_sink c) = (Some n, s')" "sk_paused s' = sk_paused (ch_sink c)"
      "sk_terminal s' = None" by (auto simp: sink_write_def)
    then have "c' = c\<lparr>ch_sink := s', ch_wire := rest\<rparr>" using st np w by simp
    then show ?thesis using 4 inv np k by (simp add: pause_inv_def Let_def)
  qed (use inv np w st in \<open>auto simp: pause_inv_def Let_def sink_write_def start_pause_def\<close>)
qed

lemma pause_step:
  assumes inv: "pause_inv c" and st: "channel_step ev c = Some c'"
  shows "pause_inv c'"
proof (cases ev)
  case (CurlWrite now)
  then obtain d rest where "ch_wire c = d # rest" "\<not> ch_curl_paused c" using st by (auto split: list.splits if_splits)
  then show ?thesis using pause_write [OF inv] st CurlWrite by blast
next
  case (CurlFinish t now)
  then have "sk_terminal (ch_sink c') \<noteq> None" using st by (auto simp: sink_finish_def split: if_splits)
  then show ?thesis by (auto simp: pause_inv_def Let_def)
next
  case (CurlAbort t now)
  then have "sk_terminal (ch_sink c') \<noteq> None" using st by (auto simp: sink_finish_def split: if_splits)
  then show ?thesis by (auto simp: pause_inv_def Let_def)
next
  case DriverResume
  then show ?thesis using inv st
    by (cases "sk_paused (ch_sink c)"; cases "ch_curl_paused c") (auto simp: pause_inv_def Let_def split: if_splits)
next
  case ConsumerPoll
  then show ?thesis using inv st
    by (cases "sk_queue (ch_sink c)"; cases "sk_terminal (ch_sink c)")
      (auto simp: pause_inv_def Let_def sink_poll_def split: if_splits)
next
  case (ConsumerCheck now)
  show ?thesis
  proof (cases "sk_paused (ch_sink c) \<and> sk_drained_since_pause (ch_sink c)")
    case True
    then show ?thesis using inv st ConsumerCheck
      by (cases "sk_paused_at (ch_sink c)") (auto simp: pause_inv_def Let_def needs_resume_def end_pause_def split: if_splits)
  next
    case False
    then have "c' = c\<lparr>ch_check := False\<rparr>" using st ConsumerCheck by (auto simp: needs_resume_def split: if_splits)
    then show ?thesis using inv False by (auto simp: pause_inv_def Let_def)
  qed
qed

lemma channel_run_inv:
  "stream_inv all m c \<Longrightarrow> pause_inv c \<Longrightarrow> channel_run evs c = Some c' \<Longrightarrow> stream_inv all m c' \<and> pause_inv c'"
proof (induction evs arbitrary: c)
  case (Cons ev evs)
  then obtain c1 where "channel_step ev c = Some c1" "channel_run evs c1 = Some c'" by (cases "channel_step ev c") auto
  then show ?case using Cons stream_step pause_step by blast
qed simp

lemma channel_run_append: "channel_run (xs @ ys) c = Option.bind (channel_run xs c) (channel_run ys)"
proof (induction xs arbitrary: c)
  case (Cons x xs)
  then show ?case by (cases "channel_step x c") auto
qed simp

subsection \<open>Draining\<close>

text \<open>A step both sides can always take while data is outstanding, and the measure it
  decreases.\<close>

definition pump :: "'b channel \<Rightarrow> channel_event" where
  "pump c =
     (if ch_check c then ConsumerCheck 0
      else if 0 < ch_resumes c then DriverResume
      else if \<not> ch_curl_paused c \<and> ch_wire c \<noteq> [] then CurlWrite 0
      else ConsumerPoll)"

definition outstanding :: "'b channel \<Rightarrow> nat" where
  "outstanding c =
     5 * length (ch_wire c) + 4 * length (sk_queue (ch_sink c)) + (if ch_check c then 3 else 0) + 2 * ch_resumes c +
     (if ch_curl_paused c then 0 else 1)"

lemma pump_progress:
  assumes inv: "pause_inv c" and t: "sk_terminal (ch_sink c) = None" and left: "ch_wire c \<noteq> [] \<or> sk_queue (ch_sink c) \<noteq> []"
  shows "\<exists>c'. channel_step (pump c) c = Some c' \<and> sk_terminal (ch_sink c') = None \<and> outstanding c' < outstanding c"
proof -
  consider "ch_check c" | "\<not> ch_check c" "0 < ch_resumes c" | "\<not> ch_check c" "ch_resumes c = 0" "\<not> ch_curl_paused c" "ch_wire c \<noteq> []"
    | "\<not> ch_check c" "ch_resumes c = 0" "ch_curl_paused c \<or> ch_wire c = []" by blast
  then show ?thesis
  proof cases
    case 1
    then show ?thesis using t by (auto simp: pump_def outstanding_def sink_defs split: option.split)
  next
    case 2
    then show ?thesis using t by (auto simp: pump_def outstanding_def)
  next
    case 3
    then obtain d rest where w: "ch_wire c = d # rest" by (cases "ch_wire c") auto
    then show ?thesis using 3 t by (auto simp: pump_def outstanding_def sink_defs)
  next
    case 4
    then have "sk_queue (ch_sink c) \<noteq> []" using inv t left by (auto simp: pause_inv_def Let_def split: if_splits)
    then obtain d q where q: "sk_queue (ch_sink c) = d # q" by (cases "sk_queue (ch_sink c)") auto
    then show ?thesis using 4 t by (auto simp: pump_def outstanding_def sink_defs)
  qed
qed

lemma drains:
  assumes "pause_inv c" "sk_terminal (ch_sink c) = None"
  shows "\<exists>evs c'. channel_run evs c = Some c' \<and> sk_terminal (ch_sink c') = None \<and> ch_wire c' = [] \<and> sk_queue (ch_sink c') = []"
  using assms
proof (induction "outstanding c" arbitrary: c rule: less_induct)
  case less
  show ?case
  proof (cases "ch_wire c = [] \<and> sk_queue (ch_sink c) = []")
    case True
    then show ?thesis using less.prems by (intro exI [of _ "[]"]) simp
  next
    case False
    then obtain c1 where c1: "channel_step (pump c) c = Some c1" "sk_terminal (ch_sink c1) = None" "outstanding c1 < outstanding c"
      using pump_progress [OF less.prems] by blast
    then obtain evs c' where "channel_run evs c1 = Some c'" "sk_terminal (ch_sink c') = None" "ch_wire c' = []"
      "sk_queue (ch_sink c') = []" using less.hyps [OF c1(3) pause_step [OF less.prems(1) c1(1)] c1(2)] by blast
    then show ?thesis using c1(1) by (intro exI [of _ "pump c # evs"] exI [of _ c']) simp
  qed
qed

section \<open>Properties\<close>

text \<open>C7. The body channel is an exact bounded pipe: in every interleaving the consumer has a
  prefix of what the server sent; unless the transfer was aborted, what it has, what is
  queued and what is still to come are exactly the body; the queue never holds more than the
  budget, or one chunk; and a clean end is reported only when everything was delivered.\<close>

theorem body_channel_exact:
  assumes "\<forall>d \<in> set wire. length d \<le> m" "channel_run evs (channel_new budget wire) = Some c"
  shows "(\<exists>rest. concat (ch_got c) @ rest = concat wire) \<and>
    (\<not> ch_discarded c \<longrightarrow> concat (ch_got c) @ concat (sk_queue (ch_sink c)) @ concat (ch_wire c) = concat wire) \<and>
    length (concat (sk_queue (ch_sink c))) \<le> max (sk_budget (ch_sink c)) m \<and>
    (fst (sink_poll (ch_sink c)) = PollTerminal Eof \<longrightarrow> concat (ch_got c) = concat wire)"
proof -
  have inv: "stream_inv (concat wire) m c" using channel_run_inv [OF new_inv [OF assms(1)] assms(2)] by blast
  have "concat (ch_got c) = concat wire" if "fst (sink_poll (ch_sink c)) = PollTerminal Eof"
    using that inv by (auto simp: sink_poll_def stream_inv_def Let_def split: list.splits option.splits)
  then show ?thesis using inv unfolding stream_inv_def Let_def by metis
qed

text \<open>C8. Backpressure never deadlocks: from every state a transfer can reach before it has
  ended, the consumer and the driver can go on until the whole body is delivered, whatever
  pauses and resume requests are pending.\<close>

theorem body_channel_drains:
  assumes "channel_run evs (channel_new budget wire) = Some c" "sk_terminal (ch_sink c) = None"
  shows "\<exists>evs' c'. channel_run (evs @ evs') (channel_new budget wire) = Some c' \<and> concat (ch_got c') = concat wire"
proof -
  define m where "m = sum_list (map length wire)"
  have m: "\<forall>d \<in> set wire. length d \<le> m" unfolding m_def by (simp add: member_le_sum_list)
  note I = channel_run_inv [OF new_inv [OF m] assms(1)]
  obtain evs' c' where D: "channel_run evs' c = Some c'" "sk_terminal (ch_sink c') = None" "ch_wire c' = []"
    "sk_queue (ch_sink c') = []" using drains [OF conjunct2 [OF I] assms(2)] by blast
  have "stream_inv (concat wire) m c'" using channel_run_inv [OF conjunct1 [OF I] conjunct2 [OF I] D(1)] by blast
  then have "concat (ch_got c') = concat wire" using D by (simp add: stream_inv_def Let_def)
  then show ?thesis using D(1) assms(1) by (intro exI [of _ evs'] exI [of _ c']) (simp add: channel_run_append)
qed

text \<open>An example: a budget of three bytes and chunks of two, so the second write pauses.\<close>

definition sample_run :: "channel_event list" where
  "sample_run = [CurlWrite 1, CurlWrite 2, ConsumerPoll, ConsumerCheck 5, DriverResume, CurlWrite 6]"

theorem body_channel_exact_witness:
  "case channel_run (sample_run @ [CurlFinish Eof 7, ConsumerPoll, ConsumerCheck 8]) (channel_new 3 [[1, 2], [3, 4 :: nat]]) of
     None \<Rightarrow> False | Some c \<Rightarrow> concat (ch_got c) = [1, 2, 3, 4]"
proof -
  let ?run = "channel_run (sample_run @ [CurlFinish Eof 7, ConsumerPoll, ConsumerCheck 8]) (channel_new 3 [[1, 2], [3, 4 :: nat]])"
  have "case ?run of None \<Rightarrow> False | Some c \<Rightarrow> fst (sink_poll (ch_sink c)) = PollTerminal Eof"
    by (simp add: sample_run_def channel_new_def sink_new_def sink_defs)
  then obtain c where "?run = Some c" "fst (sink_poll (ch_sink c)) = PollTerminal Eof" by (auto split: option.splits)
  moreover have "\<forall>d \<in> set [[1, 2], [3, 4 :: nat]]. length d \<le> 2" by simp
  ultimately show ?thesis using body_channel_exact [of "[[1, 2], [3, 4 :: nat]]" 2] by fastforce
qed

theorem body_channel_drains_witness:
  "\<exists>evs' c'. channel_run ([CurlWrite 1, CurlWrite 2] @ evs') (channel_new 3 [[1, 2], [3, 4 :: nat]]) = Some c' \<and>
     concat (ch_got c') = [1, 2, 3, 4]"
proof -
  let ?run = "channel_run [CurlWrite 1, CurlWrite 2] (channel_new 3 [[1, 2], [3, 4 :: nat]])"
  have "case ?run of None \<Rightarrow> False | Some c \<Rightarrow> sk_terminal (ch_sink c) = None"
    by (simp add: channel_new_def sink_new_def sink_defs)
  then obtain c where "?run = Some c" "sk_terminal (ch_sink c) = None" by (auto split: option.splits)
  from body_channel_drains [OF this] show ?thesis by simp
qed

end
