(* ===== verification/Single_Writer.thy ===== *)
theory Single_Writer
  imports Flow Config
begin

text \<open>
  The writer of a single-connection transfer, \<open>SingleWriterRuntime\<close> of
  \<open>src/session/single.rs\<close> with the file creation of \<open>src/storage/file.rs\<close>: one writer task
  whose channel has one producer, so its state after a prefix of the commands does not
  depend on when it ran.  A task that failed drops the commands behind the failing one and
  keeps its error for whoever joins it.  File-system operations outside the writer fail as
  \<open>sv_fs\<close> says; for a creation the number tells how far it got: \<open>0\<close> leaves the file alone,
  \<open>Suc n\<close> has truncated it and preallocated \<open>n\<close> bytes.
\<close>

section \<open>State\<close>

record 'b single_env =
  sv_io :: io_fault
  sv_fs :: io_fault
  sv_zero :: 'b

record 'b single_writer =
  sw_task :: "'b writer_task"
  sw_open :: bool
  sw_joined :: bool
  sw_stopped :: "download_error option"
  sw_file_total_size :: "nat option"
  sw_budget :: memory_budget
  sw_fs_ops :: nat

definition sw_disk :: "'b single_writer \<Rightarrow> 'b disk" where
  "sw_disk w = wt_disk (sw_task w)"

definition set_contents :: "'b contents \<Rightarrow> 'b single_writer \<Rightarrow> 'b single_writer" where
  "set_contents f w = w\<lparr>sw_task := (sw_task w)\<lparr>wt_disk := (sw_disk w)\<lparr>dk_bytes := f, dk_cursor := 0\<rparr>\<rparr>\<rparr>"

definition zeros :: "'b \<Rightarrow> nat \<Rightarrow> 'b contents" where
  "zeros z n = (\<lambda>i. if i < n then Some z else None)"

section \<open>Files\<close>

definition open_existing_file :: "'b single_env \<Rightarrow> 'b single_writer \<Rightarrow> unit dl_result \<times> 'b single_writer" where
  "open_existing_file env w =
     (let w1 = w\<lparr>sw_fs_ops := Suc (sw_fs_ops w)\<rparr>
      in case sv_fs env (sw_fs_ops w) of
           Some (e, _) \<Rightarrow> (Inl e, w1)
         | None \<Rightarrow> (Inr (), set_contents (dk_bytes (sw_disk w)) w1))"

definition create_output_file ::
  "'b single_env \<Rightarrow> nat option \<Rightarrow> file_allocation \<Rightarrow> 'b single_writer \<Rightarrow> unit dl_result \<times> 'b single_writer" where
  "create_output_file env total_size allocation w =
     (let w1 = w\<lparr>sw_fs_ops := Suc (sw_fs_ops w)\<rparr>
      in case sv_fs env (sw_fs_ops w) of
           Some (e, 0) \<Rightarrow> (Inl e, w1)
         | Some (e, Suc n) \<Rightarrow> (Inl e, set_contents (zeros (sv_zero env) n) w1)
         | None \<Rightarrow>
             (Inr (), set_contents
                (case (allocation, total_size) of
                   (Prealloc, Some n) \<Rightarrow> if 0 < n then zeros (sv_zero env) n else (\<lambda>_. None)
                 | _ \<Rightarrow> (\<lambda>_. None)) w1))"

section \<open>Operations\<close>

definition start_writer ::
  "'b single_env \<Rightarrow> download_spec \<Rightarrow> nat \<Rightarrow> nat option \<Rightarrow> 'b single_writer \<Rightarrow> unit dl_result \<times> 'b single_writer" where
  "start_writer env spec start_offset total_size w =
     (case (if 0 < start_offset then open_existing_file env w
            else create_output_file env total_size (file_allocation (storage spec)) w) of
        (Inl e, w1) \<Rightarrow> (Inl e, w1)
      | (Inr _, w1) \<Rightarrow>
          let b = memory_budget_new (memory_budget (storage spec))
          in (Inr (),
              \<lparr>sw_task = (writer_new (sw_disk w1) (watermark b))\<lparr>written_bytes := start_offset\<rparr>,
               sw_open = True, sw_joined = False, sw_stopped = None, sw_file_total_size = total_size,
               sw_budget = b, sw_fs_ops = sw_fs_ops w1\<rparr>))"

text \<open>The runtime before its first writer exists.\<close>

definition runtime_new :: "download_spec \<Rightarrow> 'b disk \<Rightarrow> nat \<Rightarrow> nat option \<Rightarrow> 'b single_writer" where
  "runtime_new spec d start_offset total_size =
     (let b = memory_budget_new (memory_budget (storage spec))
      in \<lparr>sw_task = (writer_new d (watermark b))\<lparr>written_bytes := start_offset\<rparr>, sw_open = False, sw_joined = True,
          sw_stopped = None, sw_file_total_size = total_size, sw_budget = b, sw_fs_ops = 0\<rparr>)"

definition runtime_start ::
  "'b single_env \<Rightarrow> download_spec \<Rightarrow> 'b disk \<Rightarrow> nat \<Rightarrow> nat option \<Rightarrow> unit dl_result \<times> 'b single_writer" where
  "runtime_start env spec d start_offset total_size =
     start_writer env spec start_offset total_size (runtime_new spec d start_offset total_size)"

text \<open>Commands in the channel of the task.\<close>

fun feed :: "io_fault \<Rightarrow> 'b writer_command list \<Rightarrow> 'b single_writer \<Rightarrow> 'b single_writer" where
  "feed flt [] w = w"
| "feed flt (c # cs) w =
     (if sw_stopped w \<noteq> None then w
      else case handle flt c (sw_task w) of
             (Inl e, t) \<Rightarrow> w\<lparr>sw_task := t, sw_stopped := Some e\<rparr>
           | (Inr _, t) \<Rightarrow> feed flt cs (w\<lparr>sw_task := t\<rparr>))"

text \<open>\<open>flush_all_and_wait\<close> on this channel: a stopped task never acknowledges.\<close>

definition flush_and_wait :: "io_fault \<Rightarrow> 'b single_writer \<Rightarrow> nat dl_result \<times> 'b single_writer" where
  "flush_and_wait flt w =
     (let w1 = feed flt [FlushAll True] w
      in if sw_stopped w1 \<noteq> None then (Inl ChannelClosed, w1) else (Inr (written_bytes (sw_task w1)), w1))"

definition close :: "io_fault \<Rightarrow> 'b single_writer \<Rightarrow> unit dl_result \<times> 'b single_writer" where
  "close flt w =
     (let w1 = w\<lparr>sw_open := False, sw_joined := True\<rparr>
      in if sw_joined w then (Inr (), w1)
         else case sw_stopped w of
                Some e \<Rightarrow> (Inl e, w1)
              | None \<Rightarrow> (case run_writer flt [] (sw_task w) of (r, t) \<Rightarrow> (r, w1\<lparr>sw_task := t\<rparr>)))"

definition flush :: "io_fault \<Rightarrow> 'b single_writer \<Rightarrow> nat dl_result \<times> 'b single_writer" where
  "flush flt w =
     (if \<not> sw_open w then (Inl ChannelClosed, w)
      else case flush_and_wait flt w of
             (Inr n, w1) \<Rightarrow> (Inr n, w1)
           | (Inl e, w1) \<Rightarrow> (case close flt w1 of (Inr _, w2) \<Rightarrow> (Inl e, w2) | (Inl e', w2) \<Rightarrow> (Inl e', w2)))"

definition reset ::
  "'b single_env \<Rightarrow> download_spec \<Rightarrow> nat option \<Rightarrow> 'b single_writer \<Rightarrow> unit dl_result \<times> 'b single_writer" where
  "reset env spec total_size w = wr_then (close (sv_io env) w) (start_writer env spec 0 total_size)"

section \<open>What the writer of one contiguous stream holds\<close>

text \<open>\<open>p\<close> is everything handed to the writer so far, from the start of the file.\<close>

definition prefix_safe :: "'b list \<Rightarrow> 'b writer_task \<Rightarrow> bool" where
  "prefix_safe p t \<longleftrightarrow>
     written_bytes t \<le> length p \<and> (\<forall>i < written_bytes t. dk_bytes (wt_disk t) i = Some (p ! i))"

definition holds :: "'b list \<Rightarrow> nat \<Rightarrow> 'b writer_task \<Rightarrow> bool" where
  "holds p lim t \<longleftrightarrow>
     prefix_safe p t \<and> cursor_ok t \<and> wc_pieces (wt_cache t) = [] \<and> total_bytes (wt_cache t) = 0 \<and>
     (case wt_single t of
        None \<Rightarrow> written_bytes t = length p
      | Some (s, buf) \<Rightarrow> s = written_bytes t \<and> buf = drop s p) \<and>
     (\<forall>i. dk_bytes (wt_disk t) i \<noteq> None \<longrightarrow> i < max (written_bytes t) lim)"

definition sw_inv :: "'b list \<Rightarrow> nat \<Rightarrow> 'b single_writer \<Rightarrow> bool" where
  "sw_inv p lim w \<longleftrightarrow> prefix_safe p (sw_task w) \<and> (sw_stopped w = None \<longrightarrow> holds p lim (sw_task w))"

lemma prefix_safe_more: "prefix_safe p t \<Longrightarrow> prefix_safe (p @ q) t"
  by (auto simp: prefix_safe_def nth_append)

lemma write_block_at:
  assumes "write_block flt off data t = (r, t')" "cursor_ok t" "off = written_bytes t" "off + length data \<le> u64_max"
  shows "same_state t t' \<and> (\<forall>i < off. dk_bytes (wt_disk t') i = dk_bytes (wt_disk t) i) \<and>
    (case r of
       Inl _ \<Rightarrow> written_bytes t' = off
     | Inr _ \<Rightarrow> cursor_ok t' \<and> dk_bytes (wt_disk t') = put (dk_bytes (wt_disk t)) off data \<and>
         written_bytes t' = off + length data)"
  using assms add_u64_exact [of off "length data"]
  by (auto simp: write_block_def on_disk_def disk_seek_def disk_write_def same_state_def cursor_ok_def put_def Let_def
      split: if_splits option.splits)

lemma append_block:
  assumes wb: "write_block flt off q t = (r, t')" and t: "prefix_safe p t" "cursor_ok t" "off = written_bytes t"
    and len: "length p \<le> u64_max" and q: "off + length q \<le> length p" "\<And>i. i < length q \<Longrightarrow> q ! i = p ! (off + i)"
    and lim: "\<forall>i. dk_bytes (wt_disk t) i \<noteq> None \<longrightarrow> i < max off lim"
  shows "same_state t t' \<and> prefix_safe p t' \<and>
    (case r of
       Inl _ \<Rightarrow> written_bytes t' = off
     | Inr _ \<Rightarrow> cursor_ok t' \<and> written_bytes t' = off + length q \<and>
         (\<forall>i. dk_bytes (wt_disk t') i \<noteq> None \<longrightarrow> i < max (off + length q) lim))"
proof -
  note W = write_block_at [OF wb t(2,3) le_trans [OF q(1) len]]
  show ?thesis
  proof (cases r)
    case (Inl e)
    then show ?thesis using W t q(1) by (auto simp: prefix_safe_def)
  next
    case (Inr u)
    then have D: "dk_bytes (wt_disk t') = put (dk_bytes (wt_disk t)) off q" "written_bytes t' = off + length q"
      "cursor_ok t'" "same_state t t'" using W by simp_all
    have "dk_bytes (wt_disk t') i = Some (p ! i)" if "i < off + length q" for i
      using that t(1,3) q(2) [of "i - off"] unfolding D(1) prefix_safe_def put_def by auto
    moreover have "i < max (off + length q) lim" if "dk_bytes (wt_disk t') i \<noteq> None" for i
      using that lim unfolding D(1) put_def by (auto split: if_splits simp: less_max_iff_disj)
    ultimately show ?thesis using D q(1) Inr by (simp add: prefix_safe_def)
  qed
qed

lemma holdsD:
  assumes "holds p lim t"
  shows "prefix_safe p t" "cursor_ok t" "wc_pieces (wt_cache t) = []" "total_bytes (wt_cache t) = 0"
    "\<forall>i. dk_bytes (wt_disk t) i \<noteq> None \<longrightarrow> i < max (written_bytes t) lim"
    "wt_single t = None \<Longrightarrow> written_bytes t = length p"
    "\<And>s buf. wt_single t = Some (s, buf) \<Longrightarrow> s = written_bytes t \<and> buf = drop s p"
  using assms by (auto simp: holds_def split: option.splits)

text \<open>What every step of the writer does, whether it succeeds or not.\<close>

definition kept :: "'b list \<Rightarrow> nat \<Rightarrow> 'b writer_task \<Rightarrow> 'a dl_result \<times> 'b writer_task \<Rightarrow> bool" where
  "kept p lim t res \<longleftrightarrow>
     prefix_safe p (snd res) \<and> written_bytes t \<le> written_bytes (snd res) \<and>
     (\<forall>x. fst res = Inr x \<longrightarrow> holds p lim (snd res))"

lemma flush_single_kept:
  assumes h: "holds p lim t" and len: "length p \<le> u64_max"
  shows "kept p lim t (flush_single flt t) \<and>
    (\<forall>x. fst (flush_single flt t) = Inr x \<longrightarrow> wt_single (snd (flush_single flt t)) = None)"
proof (cases "wt_single t")
  case None
  then show ?thesis using h by (simp add: flush_single_def kept_def holdsD(1))
next
  case (Some sb)
  obtain s buf where sb: "sb = (s, buf)" by (cases sb)
  note H = holdsD [OF h]
  have b: "s = written_bytes t" "buf = drop s p" using H(7) Some sb by blast+
  have le: "s \<le> length p" using H(1) b(1) by (simp add: prefix_safe_def)
  obtain r t' where wb: "write_block flt s buf (t\<lparr>wt_single := None\<rparr>) = (r, t')" by fastforce
  have A: "same_state (t\<lparr>wt_single := None\<rparr>) t' \<and> prefix_safe p t' \<and>
    (case r of
       Inl _ \<Rightarrow> written_bytes t' = s
     | Inr _ \<Rightarrow> cursor_ok t' \<and> written_bytes t' = s + length buf \<and>
         (\<forall>i. dk_bytes (wt_disk t') i \<noteq> None \<longrightarrow> i < max (s + length buf) lim))"
    using H(1,2,5) b le len
    by (intro append_block [OF wb]) (auto simp: prefix_safe_def cursor_ok_def)
  have "flush_single flt t = (r, t')" using Some sb wb by (simp add: flush_single_def)
  then show ?thesis using A b le H(3,4) by (cases r) (auto simp: kept_def holds_def same_state_def)
qed

lemma flush_all_kept:
  assumes h: "holds p lim t" and len: "length p \<le> u64_max"
  shows "kept p lim t (flush_all flt t) \<and>
    (\<forall>x. fst (flush_all flt t) = Inr x \<longrightarrow> written_bytes (snd (flush_all flt t)) = length p)"
proof -
  obtain r t1 where fs: "flush_single flt t = (r, t1)" by fastforce
  note F = flush_single_kept [OF h len, of flt, unfolded fs]
  show ?thesis
  proof (cases r)
    case (Inl e)
    then show ?thesis using F fs by (simp add: flush_all_def kept_def)
  next
    case (Inr u)
    then have h1: "holds p lim t1" "wt_single t1 = None" "written_bytes t \<le> written_bytes t1"
      using F by (auto simp: kept_def)
    note H = holdsD [OF h1(1)]
    have "flush_all flt t = (Inr (), t1\<lparr>wt_cache := (wt_cache t1)\<lparr>wc_pieces := [], total_bytes := 0\<rparr>, permits := []\<rparr>)"
      using fs Inr H(3) by (simp add: flush_all_def drain_all_def)
    then show ?thesis using h1 H by (simp add: kept_def holds_def prefix_safe_def cursor_ok_def)
  qed
qed

lemma wr_then_kept:
  assumes "kept p lim t res" "\<And>t1. holds p lim t1 \<Longrightarrow> written_bytes t \<le> written_bytes t1 \<Longrightarrow> kept p lim t (f t1)"
  shows "kept p lim t (wr_then res f)"
proof (cases res)
  case (Pair r t1)
  then show ?thesis using assms by (cases r) (auto simp: kept_def)
qed

lemma kept_refl: "holds p lim t \<Longrightarrow> kept p lim t (Inr x, t)"
  by (simp add: kept_def holdsD(1))

lemma kept_le: "kept p lim t1 res \<Longrightarrow> written_bytes t \<le> written_bytes t1 \<Longrightarrow> kept p lim t res"
  by (auto simp: kept_def)

lemma holds_cong:
  assumes "wt_disk t' = wt_disk t" "written_bytes t' = written_bytes t" "wt_cache t' = wt_cache t"
    "wt_single t' = wt_single t" "file_offset t' = file_offset t"
  shows "holds p lim t' = holds p lim t"
  by (simp add: holds_def prefix_safe_def cursor_ok_def assms split: option.split)

lemma buffer_single_kept:
  assumes h: "holds p lim t" and len: "length p + length data \<le> u64_max" and ne: "data \<noteq> []"
  shows "kept (p @ data) lim t (buffer_single flt (length p) data t)"
proof (cases "min SINGLE_LIMIT (cache_high_watermark t) \<le> length data")
  case True
  obtain r t1 where fs: "flush_single flt t = (r, t1)" by fastforce
  have l: "length p \<le> u64_max" using len by linarith
  note F = flush_single_kept [OF h l, of flt, unfolded fs]
  show ?thesis
  proof (cases r)
    case (Inl e)
    then show ?thesis using F fs True ne by (simp add: buffer_single_def kept_def prefix_safe_more)
  next
    case (Inr u)
    then have h1: "holds p lim t1" "wt_single t1 = None" "written_bytes t \<le> written_bytes t1"
      using F by (auto simp: kept_def)
    note H = holdsD [OF h1(1)]
    have w1: "written_bytes t1 = length p" using H(6) h1(2) by simp
    obtain r' t2 where wb: "write_block flt (length p) data t1 = (r', t2)" by fastforce
    have A: "same_state t1 t2 \<and> prefix_safe (p @ data) t2 \<and>
      (case r' of
         Inl _ \<Rightarrow> written_bytes t2 = length p
       | Inr _ \<Rightarrow> cursor_ok t2 \<and> written_bytes t2 = length p + length data \<and>
           (\<forall>i. dk_bytes (wt_disk t2) i \<noteq> None \<longrightarrow> i < max (length p + length data) lim))"
      using H(1,2,5) w1 len by (intro append_block [OF wb]) (auto simp: prefix_safe_more)
    have "holds (p @ data) lim (retain_keyed t2)" if "r' = Inr u" for u
      using A that h1(2) H(3,4) by (auto simp: holds_def retain_keyed_def prefix_safe_def cursor_ok_def same_state_def)
    moreover have "buffer_single flt (length p) data t = (case r' of Inl e \<Rightarrow> (Inl e, t2) | Inr _ \<Rightarrow> (Inr (), retain_keyed t2))"
      using True ne fs Inr wb by (cases r') (simp_all add: buffer_single_def)
    ultimately show ?thesis using A h1(3) w1
      by (cases r') (auto simp: kept_def retain_keyed_def prefix_safe_def)
  qed
next
  case False
  note H = holdsD [OF h]
  obtain s buf where sb: "(case wt_single t of Some q \<Rightarrow> q | None \<Rightarrow> (length p, [])) = (s, buf)" by fastforce
  have b: "s = written_bytes t" "buf = drop s p" "s \<le> length p"
    using sb H(1,6,7) by (auto simp: prefix_safe_def split: option.splits)
  let ?t1 = "t\<lparr>wt_single := Some (s, buf @ data)\<rparr>"
  have h1: "holds (p @ data) lim ?t1" using b H by (auto simp: holds_def prefix_safe_more) (auto simp: prefix_safe_def nth_append cursor_ok_def)
  have len': "length (p @ data) \<le> u64_max" using len by simp
  have "buffer_single flt (length p) data t =
      (if SINGLE_LIMIT \<le> single_bytes ?t1 then wr_then (flush_single flt ?t1) (\<lambda>w. (Inr (), retain_keyed w)) else (Inr (), ?t1))"
    using False ne sb by (simp add: buffer_single_def split_def Let_def)
  moreover have "kept (p @ data) lim ?t1 (wr_then (flush_single flt ?t1) (\<lambda>w. (Inr (), retain_keyed w)))"
  proof (rule wr_then_kept [OF conjunct1 [OF flush_single_kept [OF h1 len']]])
    fix t2 assume "holds (p @ data) lim t2" "written_bytes ?t1 \<le> written_bytes t2"
    moreover have "holds (p @ data) lim (retain_keyed t2) = holds (p @ data) lim t2"
      by (rule holds_cong) (simp_all add: retain_keyed_def)
    ultimately show "kept (p @ data) lim ?t1 (Inr (), retain_keyed t2)"
      by (intro kept_le [OF kept_refl]) (simp_all add: retain_keyed_def)
  qed
  moreover have "kept (p @ data) lim t res = kept (p @ data) lim ?t1 res" for res :: "unit dl_result \<times> 'a writer_task"
    by (simp add: kept_def)
  ultimately show ?thesis using kept_refl [OF h1, of "()"] by simp
qed

lemma handle_data_kept:
  assumes h: "holds p lim t" and len: "length p + length data \<le> u64_max" and ne: "data \<noteq> []"
  shows "kept (p @ data) lim t (handle flt (Data (length p) data permit None) t)"
proof -
  note H = holdsD [OF h]
  have "add_u64 s (length buf) = length p" if "wt_single t = Some (s, buf)" for s buf
    using H(7) [OF that] H(1) len by (auto simp: prefix_safe_def add_u64_exact)
  then have sb: "settle_before flt (length p) data None t = (Inr (), t)"
    using H(4) by (auto simp: settle_before_def split: option.split)
  let ?t1 = "push_permit None permit t"
  have h1: "holds p lim ?t1" using h
    by (subst holds_cong [of _ t]) (simp_all add: push_permit_def split: option.split)
  have w1: "written_bytes ?t1 = written_bytes t" by (simp add: push_permit_def split: option.split)
  have len': "length (p @ data) \<le> u64_max" using len by simp
  have "kept (p @ data) lim ?t1 (wr_then (store_data flt (length p) data None ?t1)
         (\<lambda>w. wr_then (flush_at_watermark flt w) (\<lambda>w. (Inr NoAck, w))))"
  proof (rule wr_then_kept)
    show "kept (p @ data) lim ?t1 (store_data flt (length p) data None ?t1)"
      using buffer_single_kept [OF h1 len ne] by (simp add: store_data_def)
    fix t2 assume t2: "holds (p @ data) lim t2" "written_bytes ?t1 \<le> written_bytes t2"
    have "kept (p @ data) lim t2 (flush_at_watermark flt t2)"
      using flush_all_kept [OF t2(1) len'] kept_refl [OF t2(1), of "()"] by (simp add: flush_at_watermark_def)
    then have "kept (p @ data) lim t2 (wr_then (flush_at_watermark flt t2) (\<lambda>w. (Inr NoAck, w)))"
      by (rule wr_then_kept) (rule kept_le [OF kept_refl])
    then show "kept (p @ data) lim ?t1 (wr_then (flush_at_watermark flt t2) (\<lambda>w. (Inr NoAck, w)))"
      using t2(2) by (rule kept_le)
  qed
  then show ?thesis using sb w1 by (simp add: kept_def)
qed

lemma sync_steps:
  "wt_single (snd (sync_file flt t)) = wt_single t" "dk_bytes (wt_disk (snd (sync_file flt t))) = dk_bytes (wt_disk t)"
  "written_bytes (snd (sync_file flt t)) = written_bytes t" "wt_cache (snd (sync_file flt t)) = wt_cache t"
  "file_offset (snd (sync_file flt t)) = file_offset t" "dk_cursor (wt_disk (snd (sync_file flt t))) = dk_cursor (wt_disk t)"
  by (auto simp: sync_file_def on_disk_def disk_sync_def split: option.split)

lemma sync_file_holds: "holds p lim (snd (sync_file flt t)) = holds p lim t"
  by (simp add: holds_def prefix_safe_def cursor_ok_def sync_steps split: option.split)

text \<open>Flushing and syncing, as a command and at the end of the task.\<close>

lemma flush_sync_kept:
  assumes h: "holds p lim t" and len: "length p \<le> u64_max"
  shows "kept p lim t (wr_then (flush_all flt t) (sync_file flt)) \<and>
    (\<forall>x. fst (wr_then (flush_all flt t) (sync_file flt)) = Inr x \<longrightarrow>
       written_bytes (snd (wr_then (flush_all flt t) (sync_file flt))) = length p)"
proof -
  obtain r t1 where fa: "flush_all flt t = (r, t1)" by fastforce
  note F = flush_all_kept [OF h len, of flt, unfolded fa]
  show ?thesis
  proof (cases r)
    case (Inl e)
    then show ?thesis using F fa by (simp add: kept_def)
  next
    case (Inr u)
    then have "holds p lim t1" "written_bytes t1 = length p" "written_bytes t \<le> length p" using F by (auto simp: kept_def)
    then show ?thesis using fa Inr holdsD(1) sync_file_holds [of p lim flt t1] by (simp add: kept_def sync_steps) blast
  qed
qed

lemma handle_flush_all:
  "handle flt (FlushAll True) t =
     wr_then (wr_then (flush_all flt t) (sync_file flt)) (\<lambda>t. (Inr (AllFlushed (written_bytes t) True), t))"
proof -
  obtain r t1 where "flush_all flt t = (r, t1)" by fastforce
  then show ?thesis by (cases r) simp_all
qed

lemma run_writer_Nil: "run_writer flt [] t = wr_then (flush_all flt t) (sync_file flt)"
  by (simp add: sync_file_def [abs_def])

lemma feed_stopped: "sw_stopped w = Some e \<Longrightarrow> feed flt cs w = w"
  by (cases cs) simp_all

lemma feed_data_inv:
  assumes "sw_inv p lim w" "chunked m (length p) None data cs" "length p + length data \<le> u64_max"
  shows "sw_inv (p @ data) lim (feed flt cs w) \<and> written_bytes (sw_task w) \<le> written_bytes (sw_task (feed flt cs w))"
  using assms
proof (induction m "length p" "None :: lease_key option" data cs arbitrary: p w rule: chunked.induct)
  case (1 m data)
  then show ?case by simp
next
  case (2 m data o' d pm k cs)
  have d: "o' = length p" "k = None" "d \<noteq> []" "take (length d) data = d" using "2.prems"(2) by simp_all
  obtain q where data: "data = d @ q" using d(4) by (metis append_take_drop_id)
  have len: "length p + length d \<le> u64_max" using "2.prems"(3) data by simp
  show ?case
  proof (cases "sw_stopped w")
    case (Some e)
    then show ?thesis using "2.prems"(1) by (simp add: sw_inv_def prefix_safe_more)
  next
    case None
    then have h: "holds p lim (sw_task w)" using "2.prems"(1) by (simp add: sw_inv_def)
    obtain r t where hd: "handle flt (Data (length p) d pm None) (sw_task w) = (r, t)" by fastforce
    have K: "kept (p @ d) lim (sw_task w) (r, t)" using handle_data_kept [OF h len d(3), of flt pm] unfolding hd .
    show ?thesis
    proof (cases r)
      case (Inl e)
      have "prefix_safe (p @ d @ q) t" using prefix_safe_more [of "p @ d" t] K by (simp add: kept_def)
      then show ?thesis using K None hd Inl d data by (simp add: sw_inv_def kept_def)
    next
      case (Inr a)
      let ?w1 = "w\<lparr>sw_task := t\<rparr>"
      have "sw_inv (p @ d) lim ?w1" using K None Inr by (simp add: sw_inv_def kept_def)
      moreover have "chunked m (length (p @ d)) None q cs" using "2.prems"(2) d data by simp
      moreover have "length (p @ d) + length q \<le> u64_max" using "2.prems"(3) data by simp
      ultimately have "sw_inv ((p @ d) @ q) lim (feed flt cs ?w1) \<and>
          written_bytes (sw_task ?w1) \<le> written_bytes (sw_task (feed flt cs ?w1))"
        using "2.hyps" [of "p @ d" ?w1] d data by simp
      moreover have "feed flt (Data o' d pm k # cs) w = feed flt cs ?w1" using None hd Inr d by simp
      ultimately show ?thesis using K data by (simp add: kept_def)
    qed
  qed
qed simp_all

section \<open>Operations of the runtime\<close>

definition same_runtime :: "'b single_writer \<Rightarrow> 'b single_writer \<Rightarrow> bool" where
  "same_runtime w w' \<longleftrightarrow>
     sw_open w' = sw_open w \<and> sw_joined w' = sw_joined w \<and> sw_file_total_size w' = sw_file_total_size w \<and>
     sw_budget w' = sw_budget w \<and> sw_fs_ops w' = sw_fs_ops w"

lemma feed_runtime: "same_runtime w (feed flt cs w)"
  by (induction flt cs w rule: feed.induct) (auto simp: same_runtime_def split: prod.split sum.split)

lemma flush_and_wait_inv:
  assumes inv: "sw_inv p lim w" and len: "length p \<le> u64_max" and f: "flush_and_wait flt w = (r, w')"
  shows "sw_inv p lim w' \<and> written_bytes (sw_task w) \<le> written_bytes (sw_task w') \<and> same_runtime w w' \<and>
    (\<forall>n. r = Inr n \<longrightarrow> n = length p \<and> sw_stopped w' = None \<and> written_bytes (sw_task w') = length p)"
proof (cases "sw_stopped w")
  case (Some e)
  then show ?thesis using inv f by (auto simp: flush_and_wait_def same_runtime_def)
next
  case None
  then have h: "holds p lim (sw_task w)" using inv by (simp add: sw_inv_def)
  obtain r1 t where fl: "wr_then (flush_all flt (sw_task w)) (sync_file flt) = (r1, t)" by fastforce
  note F = flush_sync_kept [OF h len, of flt, unfolded fl]
  have "(r, w') = (case r1 of Inl e \<Rightarrow> (Inl ChannelClosed, w\<lparr>sw_task := t, sw_stopped := Some e\<rparr>)
      | Inr _ \<Rightarrow> (Inr (written_bytes t), w\<lparr>sw_task := t\<rparr>))"
    using f None fl by (cases r1) (auto simp: flush_and_wait_def handle_flush_all Let_def simp del: handle.simps)
  then show ?thesis using F None by (cases r1) (auto simp: kept_def sw_inv_def same_runtime_def)
qed

lemma close_inv:
  assumes inv: "sw_inv p lim w" and len: "length p \<le> u64_max" and c: "close flt w = (r, w')"
  shows "prefix_safe p (sw_task w') \<and> written_bytes (sw_task w) \<le> written_bytes (sw_task w') \<and> \<not> sw_open w' \<and>
    sw_fs_ops w' = sw_fs_ops w \<and> sw_file_total_size w' = sw_file_total_size w \<and>
    (r = Inr () \<longrightarrow> \<not> sw_joined w \<longrightarrow> holds p lim (sw_task w') \<and> written_bytes (sw_task w') = length p)"
proof (cases "sw_joined w \<or> sw_stopped w \<noteq> None")
  case True
  then show ?thesis using inv c by (auto simp: close_def Let_def sw_inv_def split: if_splits option.splits)
next
  case False
  then have h: "holds p lim (sw_task w)" using inv by (simp add: sw_inv_def)
  obtain r1 t where fl: "wr_then (flush_all flt (sw_task w)) (sync_file flt) = (r1, t)" by fastforce
  note F = flush_sync_kept [OF h len, of flt, unfolded fl]
  have "(r, w') = (r1, w\<lparr>sw_open := False, sw_joined := True, sw_task := t\<rparr>)"
    using c False fl by (simp add: close_def Let_def run_writer_Nil del: run_writer.simps)
  then show ?thesis using F by (auto simp: kept_def)
qed

text \<open>A writer that is running.\<close>

definition running :: "'b single_writer \<Rightarrow> bool" where
  "running w \<longleftrightarrow> sw_open w \<and> \<not> sw_joined w"

lemma flush_inv:
  assumes inv: "sw_inv p lim w" and len: "length p \<le> u64_max" and f: "flush flt w = (r, w')"
  shows "prefix_safe p (sw_task w') \<and> written_bytes (sw_task w) \<le> written_bytes (sw_task w') \<and> sw_fs_ops w' = sw_fs_ops w \<and>
    sw_file_total_size w' = sw_file_total_size w \<and>
    (\<forall>n. r = Inr n \<longrightarrow> n = length p \<and> sw_inv p lim w' \<and> sw_stopped w' = None \<and> written_bytes (sw_task w') = length p \<and>
       same_runtime w w')"
proof (cases "sw_open w")
  case False
  then show ?thesis using inv f by (auto simp: flush_def sw_inv_def)
next
  case True
  obtain r1 w1 where fw: "flush_and_wait flt w = (r1, w1)" by fastforce
  note F = flush_and_wait_inv [OF inv len fw]
  show ?thesis
  proof (cases r1)
    case (Inr n)
    then have "r = Inr n" "w' = w1" using f True fw by (auto simp: flush_def)
    then show ?thesis using F Inr by (simp add: sw_inv_def same_runtime_def)
  next
    case (Inl e)
    obtain r2 w2 where c: "close flt w1 = (r2, w2)" by fastforce
    have "w' = w2 \<and> (\<exists>e. r = Inl e)" using f True fw Inl c by (cases r2) (auto simp: flush_def)
    then show ?thesis using close_inv [OF conjunct1 [OF F] len c] F by (auto simp: same_runtime_def)
  qed
qed

definition prealloc_limit :: "download_spec \<Rightarrow> nat option \<Rightarrow> nat" where
  "prealloc_limit spec total_size =
     (case (file_allocation (storage spec), total_size) of (Prealloc, Some n) \<Rightarrow> n | _ \<Rightarrow> 0)"

definition no_data :: "'b \<Rightarrow> 'b contents \<Rightarrow> bool" where
  "no_data z f \<longleftrightarrow> (\<exists>n. f = zeros z n)"

lemma zeros_0: "zeros z 0 = (\<lambda>_. None)"
  by (simp add: zeros_def)

lemma create_effect:
  assumes "create_output_file env total_size (file_allocation (storage spec)) w = (r, w')"
  shows "case r of
      Inl _ \<Rightarrow> dk_bytes (sw_disk w') = dk_bytes (sw_disk w) \<and> written_bytes (sw_task w') = written_bytes (sw_task w) \<or>
        no_data (sv_zero env) (dk_bytes (sw_disk w'))
    | Inr _ \<Rightarrow> dk_bytes (sw_disk w') = zeros (sv_zero env) (prealloc_limit spec total_size)"
  using assms
  by (auto simp: create_output_file_def Let_def set_contents_def sw_disk_def no_data_def prealloc_limit_def zeros_0
      split: option.splits nat.splits file_allocation.splits prod.splits if_splits)

lemma start_writer_zero:
  assumes "start_writer env spec 0 total_size w = (r, w')"
  shows "case r of
      Inl _ \<Rightarrow> dk_bytes (sw_disk w') = dk_bytes (sw_disk w) \<and> written_bytes (sw_task w') = written_bytes (sw_task w) \<or>
        no_data (sv_zero env) (dk_bytes (sw_disk w'))
    | Inr _ \<Rightarrow> sw_inv [] (prealloc_limit spec total_size) w' \<and> running w' \<and> sw_file_total_size w' = total_size \<and>
        no_data (sv_zero env) (dk_bytes (sw_disk w')) \<and> sw_stopped w' = None \<and>
        sw_budget w' = memory_budget_new (memory_budget (storage spec)) \<and> written_bytes (sw_task w') = 0"
proof -
  obtain r1 w1 where c: "create_output_file env total_size (file_allocation (storage spec)) w = (r1, w1)" by fastforce
  note C = create_effect [OF c]
  show ?thesis
  proof (cases r1)
    case (Inl e)
    then show ?thesis using C assms c by (auto simp: start_writer_def)
  next
    case (Inr u)
    then have "r = Inr ()" "wt_disk (sw_task w') = sw_disk w1" "sw_file_total_size w' = total_size" "running w'" "sw_stopped w' = None"
      "sw_budget w' = memory_budget_new (memory_budget (storage spec))" "written_bytes (sw_task w') = 0"
      "wt_single (sw_task w') = None" "wt_cache (sw_task w') = cache_new" "file_offset (sw_task w') = None"
      using assms c by (auto simp: start_writer_def Let_def writer_new_def running_def)
    then show ?thesis using C Inr
      by (auto simp: sw_inv_def holds_def prefix_safe_def cursor_ok_def cache_new_def sw_disk_def no_data_def zeros_def
          split: if_splits)
  qed
qed

lemma start_writer_existing:
  assumes s: "start_writer env spec (length p) total_size w = (Inr u, w')" and ne: "p \<noteq> []"
    and d: "\<forall>i < length p. dk_bytes (sw_disk w) i = Some (p ! i)" "\<forall>i. dk_bytes (sw_disk w) i \<noteq> None \<longrightarrow> i < max (length p) lim"
  shows "sw_inv p lim w' \<and> running w' \<and> sw_file_total_size w' = total_size \<and> sw_stopped w' = None \<and>
    sw_budget w' = memory_budget_new (memory_budget (storage spec)) \<and> written_bytes (sw_task w') = length p"
proof -
  have w': "dk_bytes (wt_disk (sw_task w')) = dk_bytes (sw_disk w)" "sw_file_total_size w' = total_size" "running w'" "sw_stopped w' = None"
      "sw_budget w' = memory_budget_new (memory_budget (storage spec))" "written_bytes (sw_task w') = length p"
      "wt_single (sw_task w') = None" "wt_cache (sw_task w') = cache_new" "file_offset (sw_task w') = None"
    using s ne by (auto simp: start_writer_def open_existing_file_def set_contents_def sw_disk_def Let_def writer_new_def running_def
        split: option.splits)
  then show ?thesis using d by (auto simp: sw_inv_def holds_def prefix_safe_def cursor_ok_def cache_new_def)
qed

end
