(* ===== verification/Single_Transfer.thy ===== *)
theory Single_Transfer
  imports Single_Writer Session
begin

text \<open>
  A transfer over one connection, \<open>src/session/single.rs\<close>: streaming a response body to the
  writer, checkpoints while it runs, and the loop that retries the body, the range request
  for the rest, the validation of its answer and restarts from zero under one retry budget.

  What the environment does in one pass of the loop is a \<open>single_round\<close>: the stop signals
  seen while waiting, the answers the server would give, the clock and the random number of
  the retry decision.  The body of an answer is the sequence of events its stream sees: data,
  ticks of the checkpoint timer, a stop, the end.  Progress reports and logs are left out.
\<close>

section \<open>State\<close>

datatype 'b stream_event =
    EvStop stop_signal
  | EvTick
  | EvChunk "'b list" "nat \<Rightarrow> chunk_wait"
  | EvEnd "download_error option"

type_synonym 'b answer = "'b stream_event list http_response \<times> response_meta"

record 'b single_round =
  ro_signals :: "stop_signal list"
  ro_range :: "nat \<Rightarrow> nat \<Rightarrow> 'b answer dl_result"
  ro_get :: "'b answer dl_result"
  ro_elapsed1 :: nat
  ro_elapsed2 :: nat
  ro_rand :: "nat \<Rightarrow> nat"
  ro_sleep_signals :: "stop_signal list"

datatype single_attempt_outcome =
    AttemptComplete (final_offset: nat)
  | AttemptError (attempt_error: download_error) (received_in_attempt: nat)

record 'b single_state =
  sn_offset :: nat
  sn_total_size :: "nat option"
  sn_baseline :: response_meta
  sn_use_control :: bool
  sn_tracker :: control_save_tracker
  sn_template :: control_snapshot
  sn_retry :: retry_state
  sn_writer :: "'b single_writer"
  sn_saved :: "control_snapshot option"

definition single_snapshot_template :: "string \<Rightarrow> nat option \<Rightarrow> nat \<Rightarrow> response_meta \<Rightarrow> control_snapshot" where
  "single_snapshot_template request_url tsize downloaded_bytes meta =
     (let total' = (case tsize of Some t \<Rightarrow> t | None \<Rightarrow> 0)
      in \<lparr>cs_url = request_url, cs_total_size = total', cs_piece_size = total', cs_piece_count = 1,
          cs_completed_bitset = [0], cs_downloaded_bytes = downloaded_bytes, cs_etag = etag meta,
          cs_last_modified = last_modified meta\<rparr>)"

definition metadata_matches_baseline :: "response_meta \<Rightarrow> response_meta \<Rightarrow> nat option \<Rightarrow> bool" where
  "metadata_matches_baseline meta baseline tsize \<longleftrightarrow>
     (case etag baseline of None \<Rightarrow> True | Some v \<Rightarrow> etag meta = Some v) \<and>
     (case last_modified baseline of None \<Rightarrow> True | Some v \<Rightarrow> last_modified meta = Some v) \<and>
     (case content_range_total meta of None \<Rightarrow> True | Some t \<Rightarrow> tsize = Some t)"

section \<open>Checkpoints\<close>

definition fs_outcome :: "'b single_env \<Rightarrow> 'b single_state \<Rightarrow> download_error option \<times> 'b single_state" where
  "fs_outcome env s =
     (map_option fst (sv_fs env (sw_fs_ops (sn_writer s))),
      s\<lparr>sn_writer := (sn_writer s)\<lparr>sw_fs_ops := Suc (sw_fs_ops (sn_writer s))\<rparr>\<rparr>)"

definition write_checkpoint :: "'b single_env \<Rightarrow> nat \<Rightarrow> 'b single_state \<Rightarrow> unit dl_result \<times> 'b single_state" where
  "write_checkpoint env persisted_prefix_bytes s =
     (case fs_outcome env s of
        (Some e, s1) \<Rightarrow> (Inl e, s1)
      | (None, s1) \<Rightarrow>
          (Inr (), s1\<lparr>sn_saved := Some ((sn_template s)\<lparr>cs_downloaded_bytes := persisted_prefix_bytes\<rparr>),
                      sn_tracker := mark_saved (sn_tracker s) persisted_prefix_bytes\<rparr>))"

definition remove_checkpoint :: "'b single_env \<Rightarrow> 'b single_state \<Rightarrow> unit dl_result \<times> 'b single_state" where
  "remove_checkpoint env s =
     (case fs_outcome env s of
        (Some e, s1) \<Rightarrow> (Inl e, s1)
      | (None, s1) \<Rightarrow> (Inr (), s1\<lparr>sn_saved := None\<rparr>))"

definition persist_single_control_snapshot ::
  "'b single_env \<Rightarrow> download_spec \<Rightarrow> control_save_reason \<Rightarrow> nat \<Rightarrow> bool \<Rightarrow> 'b single_state \<Rightarrow>
    unit dl_result \<times> 'b single_state" where
  "persist_single_control_snapshot env spec reason current_downloaded with_flush s =
     (case should_save (sn_tracker s) reason current_downloaded (autosave_sync_every (storage spec)) of
        (False, t) \<Rightarrow> (Inr (), s\<lparr>sn_tracker := t\<rparr>)
      | (True, t) \<Rightarrow>
          let (r, w) = (if with_flush then flush_and_wait (sv_io env) (sn_writer s)
                        else (Inr current_downloaded, sn_writer s));
              s1 = s\<lparr>sn_tracker := t, sn_writer := w\<rparr>
          in case r of
               Inl e \<Rightarrow> (Inl e, s1)
             | Inr persisted \<Rightarrow>
                 if persisted \<le> last_saved_downloaded_bytes t then (Inr (), s1)
                 else write_checkpoint env persisted s1)"

definition save_single_control_snapshot_at :: "'b single_env \<Rightarrow> nat \<Rightarrow> 'b single_state \<Rightarrow> 'b single_state" where
  "save_single_control_snapshot_at env persisted s =
     (if persisted \<le> last_saved_downloaded_bytes (sn_tracker s) then s else snd (write_checkpoint env persisted s))"

section \<open>Streaming one body\<close>

definition body_error :: "string \<Rightarrow> download_error" where
  "body_error message = Transport \<lparr>te_kind = Body, te_source = message\<rparr>"

fun stream_events ::
  "'b single_env \<Rightarrow> download_spec \<Rightarrow> bool \<Rightarrow> nat option \<Rightarrow> nat \<Rightarrow> nat \<Rightarrow> 'b stream_event list \<Rightarrow> 'b single_state \<Rightarrow>
    (single_attempt_outcome \<times> 'b single_state) option" where
  "stream_events env spec control expected downloaded received [] s = None"
| "stream_events env spec control expected downloaded received (EvStop signal # evs) s =
     (case stop_signal_error signal of
        None \<Rightarrow> stream_events env spec control expected downloaded received evs s
      | Some e \<Rightarrow>
          Some (AttemptError e received,
                if control then snd (persist_single_control_snapshot env spec Terminal downloaded True s) else s))"
| "stream_events env spec control expected downloaded received (EvTick # evs) s =
     stream_events env spec control expected downloaded received evs
       (if control then snd (persist_single_control_snapshot env spec Autosave downloaded True s) else s)"
| "stream_events env spec control expected downloaded received (EvChunk data waits # evs) s =
     (if (case expected of Some n \<Rightarrow> n < sat_add_u64 received (length data) | None \<Rightarrow> False)
      then Some (AttemptError (body_error ''server sent more bytes than expected for single connection'') received, s)
      else case forward (sw_budget (sn_writer s)) waits data downloaded None of
             None \<Rightarrow> None
           | Some (r, cmds, sent) \<Rightarrow>
               let s1 = s\<lparr>sn_writer := feed (sv_io env) cmds (sn_writer s)\<rparr>
               in case r of
                    Inl e \<Rightarrow> Some (AttemptError e (received + sent), s1)
                  | Inr _ \<Rightarrow> stream_events env spec control expected (downloaded + sent) (received + sent) evs s1)"
| "stream_events env spec control expected downloaded received (EvEnd (Some e) # evs) s = Some (AttemptError e received, s)"
| "stream_events env spec control expected downloaded received (EvEnd None # evs) s =
     Some (case expected of
             Some n \<Rightarrow>
               if received \<noteq> n
               then AttemptError (body_error (''single connection body ended after '' @ show_nat received @
                      '' bytes, expected '' @ show_nat n)) received
               else AttemptComplete downloaded
           | None \<Rightarrow> AttemptComplete downloaded, s)"

definition stream_single_attempt ::
  "'b single_env \<Rightarrow> download_spec \<Rightarrow> 'b stream_event list \<Rightarrow> 'b single_state \<Rightarrow>
    (single_attempt_outcome \<times> 'b single_state) option" where
  "stream_single_attempt env spec evs s =
     stream_events env spec (sn_use_control s) (map_option (\<lambda>t. t - sn_offset s) (sn_total_size s))
       (sn_offset s) 0 evs s"

section \<open>Ending a transfer\<close>

definition on_writer :: "('b single_writer \<Rightarrow> 'a \<times> 'b single_writer) \<Rightarrow> 'b single_state \<Rightarrow> 'a \<times> 'b single_state" where
  "on_writer f s = (case f (sn_writer s) of (r, w) \<Rightarrow> (r, s\<lparr>sn_writer := w\<rparr>))"

definition finish_single_error ::
  "'b single_env \<Rightarrow> download_spec \<Rightarrow> download_error \<Rightarrow> 'b single_state \<Rightarrow> unit dl_result \<times> 'b single_state" where
  "finish_single_error env spec err s =
     wr_then (on_writer (close (sv_io env)) s)
       (\<lambda>s. wr_then (if sn_use_control s
                     then persist_single_control_snapshot env spec Terminal (written_bytes (sw_task (sn_writer s))) False s
                     else (Inr (), s))
         (\<lambda>s. (Inl err, s)))"

definition complete_single_transfer ::
  "'b single_env \<Rightarrow> nat \<Rightarrow> 'b single_state \<Rightarrow> unit dl_result \<times> 'b single_state" where
  "complete_single_transfer env final s =
     (case on_writer (flush (sv_io env)) s of
        (Inl e, s1) \<Rightarrow> (Inl e, s1)
      | (Inr written, s1) \<Rightarrow>
          wr_then (on_writer (close (sv_io env)) s1)
            (\<lambda>s2. if written \<noteq> final \<or> (case sn_total_size s of Some t \<Rightarrow> final \<noteq> t | None \<Rightarrow> False)
                  then (Inl (Internal (''single writer persisted '' @ show_nat written @
                          '' bytes but attempt completed at '' @ show_nat final)), s2)
                  else if sn_use_control s then remove_checkpoint env s2
                  else (Inr (), s2)))"

section \<open>One pass of the loop\<close>

datatype 'b pass =
    Finished "unit dl_result" "'b single_state"
  | Again "'b answer option" "'b single_state"
  | Waiting

definition finish_with ::
  "'b single_env \<Rightarrow> download_spec \<Rightarrow> download_error \<Rightarrow> 'b single_state \<Rightarrow> 'b pass" where
  "finish_with env spec err s = (case finish_single_error env spec err s of (r, s1) \<Rightarrow> Finished r s1)"

text \<open>A retry decision: stop, or sleep and go on with \<open>k\<close>.\<close>

definition after_decision ::
  "'b single_env \<Rightarrow> download_spec \<Rightarrow> 'b single_round \<Rightarrow> retry_decision \<times> retry_state \<Rightarrow> ('b single_state \<Rightarrow> 'b pass) \<Rightarrow>
    'b single_state \<Rightarrow> 'b pass" where
  "after_decision env spec ro d k s =
     (case d of
        (Stop e, _) \<Rightarrow> finish_with env spec e s
      | (Retry _ _ backoff _, st) \<Rightarrow>
          let s1 = s\<lparr>sn_retry := st\<rparr>
          in case sleep_with_backoff backoff (ro_sleep_signals ro) of
               Inl e \<Rightarrow> finish_with env spec e s1
             | Inr _ \<Rightarrow> k s1)"

definition restart ::
  "'b single_env \<Rightarrow> download_spec \<Rightarrow> ('b single_state \<Rightarrow> 'b pass) \<Rightarrow> 'b single_state \<Rightarrow> 'b pass" where
  "restart env spec k s =
     (case wr_then (on_writer (reset env spec None) s) (remove_checkpoint env) of
        (Inl e, s1) \<Rightarrow> Finished (Inl e) s1
      | (Inr _, s1) \<Rightarrow>
          k (s1\<lparr>sn_offset := 0, sn_total_size := None, sn_use_control := False, sn_tracker := tracker_new 0\<rparr>))"

definition request_rest :: "'b single_round \<Rightarrow> 'b single_state \<Rightarrow> 'b answer dl_result" where
  "request_rest ro s =
     (case (0 < sn_offset s, sn_total_size s) of
        (True, Some t) \<Rightarrow> ro_range ro (sn_offset s) (t - 1)
      | _ \<Rightarrow> ro_get ro)"

definition stream_phase ::
  "'b single_env \<Rightarrow> download_spec \<Rightarrow> 'b single_round \<Rightarrow> 'b stream_event list \<Rightarrow> 'b single_state \<Rightarrow> 'b pass" where
  "stream_phase env spec ro body s =
     (if \<not> sw_open (sn_writer s) then Finished (Inl ChannelClosed) s
      else case stream_single_attempt env spec body s of
             None \<Rightarrow> Waiting
           | Some (AttemptComplete final, s1) \<Rightarrow>
               (case complete_single_transfer env final s1 of (r, s2) \<Rightarrow> Finished r s2)
           | Some (AttemptError e _, s1) \<Rightarrow>
               if e = Cancelled \<or> e = Paused \<or> \<not> is_retryable e then finish_with env spec e s1
               else case on_writer (flush (sv_io env)) s1 of
                      (Inl e', s2) \<Rightarrow> Finished (Inl e') s2
                    | (Inr written, s2) \<Rightarrow>
                        let s3 = s2\<lparr>sn_offset := written\<rparr>;
                            s4 = (if sn_use_control s3 then save_single_control_snapshot_at env written s3 else s3)
                        in after_decision env spec ro
                             (decide (ro_rand ro) (ro_elapsed1 ro) (ro_elapsed2 ro) (sn_retry s4) e)
                             (\<lambda>s5. if (case sn_total_size s5 of None \<Rightarrow> True | Some t \<Rightarrow> t \<le> sn_offset s5)
                                   then restart env spec (Again None) s5
                                   else Again None s5)
                             s4)"

text \<open>The answer to a request for the rest.\<close>

definition continuation_error :: "'b answer \<Rightarrow> nat \<Rightarrow> 'b single_state \<Rightarrow> download_error option" where
  "continuation_error a t s =
     (case validate_range_response (rs_status (fst a)) (rs_headers (fst a) ''retry-after'') (snd a) ResumeProbe
             \<lparr>er_start = sn_offset s, er_end_inclusive = t - 1, er_total_size = sn_total_size s\<rparr> of
        Inr Accept \<Rightarrow>
          if metadata_matches_baseline (snd a) (sn_baseline s) (sn_total_size s) then None
          else Some (ResumeMismatch ''resume response metadata does not match the original object'')
      | Inr (FallbackToSingle _) \<Rightarrow>
          Some (ResumeMismatch ''resume response unexpectedly requested a single-connection fallback'')
      | Inl e \<Rightarrow> Some e)"

definition continue_phase ::
  "'b single_env \<Rightarrow> download_spec \<Rightarrow> string \<Rightarrow> 'b single_round \<Rightarrow> 'b answer \<Rightarrow> 'b single_state \<Rightarrow> 'b pass" where
  "continue_phase env spec request_url ro a s =
     (case sn_total_size s of
        None \<Rightarrow> Finished (Inl (ResumeMismatch ''missing total size for Range resume'')) s
      | Some t \<Rightarrow>
          (case continuation_error a t s of
             None \<Rightarrow> stream_phase env spec ro (rs_body (fst a)) s
           | Some e \<Rightarrow>
               after_decision env spec ro
                 (decide_restart (ro_rand ro) (ro_elapsed1 ro) (ro_elapsed2 ro) (sn_retry s) e)
                 (restart env spec
                    (\<lambda>s1. Again (if rs_status (fst a) = 200 then Some a else None)
                       (s1\<lparr>sn_baseline := snd a, sn_template := single_snapshot_template request_url None 0 (snd a)\<rparr>)))
                 s))"

text \<open>An answer from the first byte on becomes the new baseline.\<close>

definition adopt :: "download_spec \<Rightarrow> string \<Rightarrow> 'b answer \<Rightarrow> 'b single_state \<Rightarrow> 'b single_state" where
  "adopt spec request_url a s =
     (let s1 = (case single_response_total_size (rs_status (fst a)) (snd a) of
                  Some t \<Rightarrow> s\<lparr>sn_total_size := Some t, sn_use_control := resume (storage spec)\<rparr>
                | None \<Rightarrow> s)
      in s1\<lparr>sn_baseline := snd a, sn_template := single_snapshot_template request_url (sn_total_size s1) 0 (snd a)\<rparr>)"

definition fresh_phase ::
  "'b single_env \<Rightarrow> download_spec \<Rightarrow> string \<Rightarrow> 'b single_round \<Rightarrow> 'b answer \<Rightarrow> 'b single_state \<Rightarrow> 'b pass" where
  "fresh_phase env spec request_url ro a s =
     (let s1 = adopt spec request_url a s
      in if file_allocation (storage spec) = Prealloc \<and> sw_file_total_size (sn_writer s1) \<noteq> sn_total_size s1
         then (case on_writer (reset env spec (sn_total_size s1)) s1 of
                 (Inl e, s2) \<Rightarrow> Finished (Inl e) s2
               | (Inr _, s2) \<Rightarrow> stream_phase env spec ro (rs_body (fst a)) s2)
         else stream_phase env spec ro (rs_body (fst a)) s1)"

definition answer_phase where
  "answer_phase env spec request_url ro a s =
     (if 0 < sn_offset s then continue_phase env spec request_url ro a s else fresh_phase env spec request_url ro a s)"

definition single_pass ::
  "'b single_env \<Rightarrow> download_spec \<Rightarrow> string \<Rightarrow> 'b single_round \<Rightarrow> 'b answer option \<Rightarrow> 'b single_state \<Rightarrow> 'b pass" where
  "single_pass env spec request_url ro pending s =
     (case pending of
        Some a \<Rightarrow> answer_phase env spec request_url ro a s
      | None \<Rightarrow>
          (case wait_for_stop (ro_signals ro) of
             Some e \<Rightarrow> finish_with env spec e s
           | None \<Rightarrow>
               (case request_rest ro s of
                  Inr a \<Rightarrow> answer_phase env spec request_url ro a s
                | Inl e \<Rightarrow>
                    after_decision env spec ro
                      (decide (ro_rand ro) (ro_elapsed1 ro) (ro_elapsed2 ro) (sn_retry s) e) (Again None) s)))"

fun single_loop ::
  "'b single_env \<Rightarrow> download_spec \<Rightarrow> string \<Rightarrow> 'b single_round list \<Rightarrow> 'b answer option \<Rightarrow> 'b single_state \<Rightarrow>
    (unit dl_result \<times> 'b single_state) option" where
  "single_loop env spec request_url [] pending s = None"
| "single_loop env spec request_url (ro # rest) pending s =
     (case single_pass env spec request_url ro pending s of
        Finished r s1 \<Rightarrow> Some (r, s1)
      | Again pending' s1 \<Rightarrow> single_loop env spec request_url rest pending' s1
      | Waiting \<Rightarrow> None)"

definition single_start ::
  "download_spec \<Rightarrow> string \<Rightarrow> response_meta \<Rightarrow> nat \<Rightarrow> nat option \<Rightarrow> control_snapshot option \<Rightarrow> 'b single_writer \<Rightarrow>
    'b single_state" where
  "single_start spec request_url meta start_offset tsize saved w =
     \<lparr>sn_offset = start_offset, sn_total_size = tsize, sn_baseline = meta,
      sn_use_control = (resume (storage spec) \<and> tsize \<noteq> None), sn_tracker = tracker_new start_offset,
      sn_template = single_snapshot_template request_url tsize start_offset meta,
      sn_retry = retry_state_new (max_retries (retry spec)) (retry_base_delay (retry spec)) (retry_max_delay (retry spec))
        (max_retry_elapsed (retry spec)),
      sn_writer = w, sn_saved = saved\<rparr>"

definition run_single_with_retry ::
  "'b single_env \<Rightarrow> download_spec \<Rightarrow> string \<Rightarrow> 'b answer \<Rightarrow> nat \<Rightarrow> nat option \<Rightarrow> 'b disk \<Rightarrow> control_snapshot option \<Rightarrow>
    'b single_round list \<Rightarrow> (unit dl_result \<times> 'b single_state) option" where
  "run_single_with_retry env spec request_url a start_offset tsize d saved rounds =
     (case runtime_start env spec d start_offset tsize of
        (r, w) \<Rightarrow>
          let s = single_start spec request_url (snd a) start_offset tsize saved w
          in case r of
               Inl e \<Rightarrow> Some (Inl e, s)
             | Inr _ \<Rightarrow> single_loop env spec request_url rounds (Some a) s)"

section \<open>Errors of the writer are not stop requests\<close>

definition stop_error :: "download_error \<Rightarrow> bool" where
  "stop_error e \<longleftrightarrow> e = Cancelled \<or> e = Paused"

definition quiet :: "io_fault \<Rightarrow> bool" where
  "quiet flt \<longleftrightarrow> (\<forall>n e k. flt n = Some (e, k) \<longrightarrow> \<not> stop_error e)"

definition no_stop :: "'a dl_result \<Rightarrow> bool" where
  "no_stop r \<longleftrightarrow> (\<forall>e. r = Inl e \<longrightarrow> \<not> stop_error e)"

lemma no_stop_Inr [simp]: "no_stop (Inr x)"
  by (simp add: no_stop_def)

lemma wr_then_no_stop: "no_stop (fst res) \<Longrightarrow> (\<And>s. no_stop (fst (f s))) \<Longrightarrow> no_stop (fst (wr_then res f))"
  by (cases res; cases "fst res") (auto simp: no_stop_def)

lemma write_block_no_stop: "quiet flt \<Longrightarrow> no_stop (fst (write_block flt off data t))"
  unfolding write_block_def
  by (intro wr_then_no_stop) (auto simp: Let_def on_disk_def disk_seek_def disk_write_def no_stop_def quiet_def split: option.splits prod.splits)

lemma write_blocks_no_stop: "quiet flt \<Longrightarrow> no_stop (fst (write_blocks flt bs t))"
  by (induction flt bs t rule: write_blocks.induct) (auto intro!: wr_then_no_stop write_block_no_stop)

lemma flush_single_no_stop: "quiet flt \<Longrightarrow> no_stop (fst (flush_single flt t))"
  by (auto simp: flush_single_def intro!: write_block_no_stop split: option.split)

lemma flush_all_no_stop: "quiet flt \<Longrightarrow> no_stop (fst (flush_all flt t))"
  unfolding flush_all_def
  by (auto intro!: wr_then_no_stop flush_single_no_stop write_blocks_no_stop split: prod.split)

lemma sync_file_no_stop: "quiet flt \<Longrightarrow> no_stop (fst (sync_file flt t))"
  unfolding sync_file_def
  by (intro wr_then_no_stop) (auto simp: on_disk_def disk_sync_def no_stop_def quiet_def split: option.splits)

lemma store_single_no_stop: "quiet flt \<Longrightarrow> no_stop (fst (store_data flt off data None t))"
  by (auto simp: store_data_def buffer_single_def Let_def split_def
      intro!: wr_then_no_stop flush_single_no_stop write_block_no_stop)

lemma settle_no_stop: "quiet flt \<Longrightarrow> no_stop (fst (settle_before flt off data k t))"
  unfolding settle_before_def
  by (intro wr_then_no_stop) (auto intro!: wr_then_no_stop flush_single_no_stop flush_all_no_stop)

fun unkeyed :: "'b writer_command \<Rightarrow> bool" where
  "unkeyed (Data _ _ _ k) \<longleftrightarrow> k = None"
| "unkeyed (FlushAll _) \<longleftrightarrow> True"
| "unkeyed _ \<longleftrightarrow> False"

lemma handle_no_stop:
  assumes "quiet flt" "unkeyed c"
  shows "no_stop (fst (handle flt c t))"
proof (cases c)
  case (Data off d pm k)
  then show ?thesis using assms
    by (auto intro!: wr_then_no_stop store_single_no_stop settle_no_stop simp: flush_at_watermark_def flush_all_no_stop)
next
  case (FlushAll b)
  then show ?thesis using assms by (auto intro!: wr_then_no_stop flush_all_no_stop sync_file_no_stop)
qed (use assms in simp_all)

definition calm :: "'b single_writer \<Rightarrow> bool" where
  "calm w \<longleftrightarrow> (\<forall>e. sw_stopped w = Some e \<longrightarrow> \<not> stop_error e)"

lemma feed_calm: "quiet flt \<Longrightarrow> calm w \<Longrightarrow> list_all unkeyed cs \<Longrightarrow> calm (feed flt cs w)"
proof (induction flt cs w rule: feed.induct)
  case (2 flt c cs w)
  have "no_stop (fst (handle flt c (sw_task w)))"
    using "2.prems" by (intro handle_no_stop) simp_all
  then show ?case using 2 by (auto simp: calm_def no_stop_def split: prod.splits sum.splits)
qed simp

lemma chunked_unkeyed: "chunked m off None data cs \<Longrightarrow> list_all unkeyed cs"
  by (induction m off "None :: lease_key option" data cs rule: chunked.induct) auto

lemma flush_and_wait_calm: "quiet flt \<Longrightarrow> calm w \<Longrightarrow> flush_and_wait flt w = (r, w') \<Longrightarrow> calm w' \<and> no_stop r"
  using feed_calm [of flt w "[FlushAll True]"]
  by (auto simp: flush_and_wait_def Let_def no_stop_def stop_error_def split: if_splits)

lemma close_no_stop:
  assumes "quiet flt" "calm w" "close flt w = (r, w')"
  shows "no_stop r"
proof -
  have "no_stop (fst (run_writer flt [] (sw_task w)))"
    unfolding run_writer_Nil using assms(1) by (intro wr_then_no_stop flush_all_no_stop sync_file_no_stop)
  then show ?thesis using assms(2,3)
    by (auto simp: close_def Let_def calm_def no_stop_def simp del: run_writer.simps split: if_splits option.splits prod.splits)
qed

lemma flush_no_stop:
  assumes "quiet flt" "calm w" "flush flt w = (r, w')"
  shows "no_stop r \<and> ((\<exists>n. r = Inr n) \<longrightarrow> calm w')"
proof -
  obtain r1 w1 where f: "flush_and_wait flt w = (r1, w1)" by fastforce
  obtain r2 w2 where c: "close flt w1 = (r2, w2)" by fastforce
  note F = flush_and_wait_calm [OF assms(1,2) f]
  then show ?thesis using assms(3) f c close_no_stop [OF assms(1) conjunct1 [OF F] c]
    by (auto simp: flush_def no_stop_def stop_error_def split: if_splits sum.splits)
qed

section \<open>Invariants\<close>

text \<open>\<open>ob\<close> is the object, \<open>q\<close> what was handed to the writer, and \<open>V\<close> holds of the snapshots that
  carry the validators of the object.\<close>

definition ckpt :: "(control_snapshot \<Rightarrow> bool) \<Rightarrow> 'b single_state \<Rightarrow> bool" where
  "ckpt V s \<longleftrightarrow>
     (case sn_saved s of
        None \<Rightarrow> last_saved_downloaded_bytes (sn_tracker s) = 0
      | Some c \<Rightarrow>
          cs_downloaded_bytes c = last_saved_downloaded_bytes (sn_tracker s) \<and> 0 < cs_downloaded_bytes c \<and>
          cs_downloaded_bytes c \<le> written_bytes (sw_task (sn_writer s)) \<and> V c)"

definition base :: "(control_snapshot \<Rightarrow> bool) \<Rightarrow> 'b list \<Rightarrow> 'b list \<Rightarrow> 'b single_state \<Rightarrow> bool" where
  "base V ob q s \<longleftrightarrow> prefix_safe q (sw_task (sn_writer s)) \<and> take (length q) ob = q \<and> ckpt V s"

definition live :: "(control_snapshot \<Rightarrow> bool) \<Rightarrow> 'b list \<Rightarrow> nat \<Rightarrow> 'b list \<Rightarrow> 'b single_state \<Rightarrow> bool" where
  "live V ob lim q s \<longleftrightarrow>
     base V ob q s \<and> sw_inv q lim (sn_writer s) \<and> running (sn_writer s) \<and> calm (sn_writer s) \<and> length ob \<le> u64_max \<and>
     (sn_use_control s \<longrightarrow> V (sn_template s)) \<and> (\<forall>c n. V c \<longrightarrow> V (c\<lparr>cs_downloaded_bytes := n\<rparr>))"

text \<open>What streaming leaves alone.\<close>

definition same_task :: "'b single_state \<Rightarrow> 'b single_state \<Rightarrow> bool" where
  "same_task s s' \<longleftrightarrow>
     sn_offset s' = sn_offset s \<and> sn_total_size s' = sn_total_size s \<and> sn_baseline s' = sn_baseline s \<and>
     sn_use_control s' = sn_use_control s \<and> sn_template s' = sn_template s \<and> sn_retry s' = sn_retry s \<and>
     sw_file_total_size (sn_writer s') = sw_file_total_size (sn_writer s) \<and>
     sw_budget (sn_writer s') = sw_budget (sn_writer s)"

lemma same_task_refl [simp]: "same_task s s"
  by (simp add: same_task_def)

lemma same_task_trans: "same_task a b \<Longrightarrow> same_task b c \<Longrightarrow> same_task a c"
  by (simp add: same_task_def)

lemma liveD:
  assumes "live V ob lim q s"
  shows "base V ob q s" "sw_inv q lim (sn_writer s)" "running (sn_writer s)" "length ob \<le> u64_max"
    "sn_use_control s \<Longrightarrow> V (sn_template s)" "\<And>c n. V c \<Longrightarrow> V (c\<lparr>cs_downloaded_bytes := n\<rparr>)"
    "length q \<le> length ob" "length q \<le> u64_max" "take (length q) ob = q" "calm (sn_writer s)"
proof -
  show q: "take (length q) ob = q" using assms by (simp add: live_def base_def)
  show "length q \<le> length ob" using arg_cong [OF q, of length] by simp
  then show "length q \<le> u64_max" using assms by (simp add: live_def)
qed (use assms in \<open>auto simp: live_def\<close>)

lemma write_checkpoint_base:
  assumes b: "base V ob q s" and V: "V (sn_template s)" "\<And>c n. V c \<Longrightarrow> V (c\<lparr>cs_downloaded_bytes := n\<rparr>)"
    and n: "0 < n" "n \<le> written_bytes (sw_task (sn_writer s))" and sv: "write_checkpoint env n s = (r, s')"
  shows "base V ob q s'" "same_task s s'"
    "\<exists>k. sn_writer s' = (sn_writer s)\<lparr>sw_fs_ops := k\<rparr>"
    "r = Inr () \<Longrightarrow> \<exists>c. sn_saved s' = Some c \<and> cs_downloaded_bytes c = n"
  using assms
  by (auto simp: write_checkpoint_def fs_outcome_def base_def ckpt_def mark_saved_def same_task_def split: option.splits)

lemma fs_ops_writer:
  "sw_inv q lim (w\<lparr>sw_fs_ops := k\<rparr>) = sw_inv q lim w" "running (w\<lparr>sw_fs_ops := k\<rparr>) = running w"
  "calm (w\<lparr>sw_fs_ops := k\<rparr>) = calm w"
  by (simp_all add: sw_inv_def running_def calm_def)

lemma should_save_tracker: "should_save t reason n every = (b, t') \<Longrightarrow> last_saved_downloaded_bytes t' = last_saved_downloaded_bytes t"
  by (auto simp: should_save_def Let_def split: if_splits control_save_reason.splits)

lemma live_tracker:
  assumes "live V ob lim q s" "last_saved_downloaded_bytes t = last_saved_downloaded_bytes (sn_tracker s)"
  shows "live V ob lim q (s\<lparr>sn_tracker := t\<rparr>)"
  using assms by (simp add: live_def base_def ckpt_def split: option.splits)

lemma live_writer:
  assumes l: "live V ob lim q s" and w: "sw_inv q' lim w" "same_runtime (sn_writer s) w"
    "written_bytes (sw_task (sn_writer s)) \<le> written_bytes (sw_task w)" "calm w" and q': "take (length q') ob = q'"
  shows "live V ob lim q' (s\<lparr>sn_writer := w\<rparr>)" "same_task s (s\<lparr>sn_writer := w\<rparr>)"
  using assms
  by (auto simp: live_def base_def ckpt_def sw_inv_def running_def same_runtime_def same_task_def split: option.splits)

lemma persist_live:
  assumes qu: "quiet (sv_io env)" and l: "live V ob lim q s" and uc: "sn_use_control s"
    and pe: "persist_single_control_snapshot env spec reason n True s = (r, s')"
  shows "live V ob lim q s' \<and> same_task s s'"
proof -
  note L = liveD [OF l]
  obtain b t where ss: "should_save (sn_tracker s) reason n (autosave_sync_every (storage spec)) = (b, t)" by fastforce
  note T = should_save_tracker [OF ss]
  show ?thesis
  proof (cases b)
    case False
    then have "s' = s\<lparr>sn_tracker := t\<rparr>" using pe ss by (simp add: persist_single_control_snapshot_def)
    then show ?thesis using live_tracker [OF l T] by (simp add: same_task_def)
  next
    case True
    obtain r1 w where f: "flush_and_wait (sv_io env) (sn_writer s) = (r1, w)" by fastforce
    note F = flush_and_wait_inv [OF L(2,8) f]
    let ?s1 = "s\<lparr>sn_tracker := t, sn_writer := w\<rparr>"
    have l1: "live V ob lim q ?s1" "same_task s ?s1"
      using live_writer [OF live_tracker [OF l T]] F L(9) conjunct1 [OF flush_and_wait_calm [OF qu L(10) f]] by (auto simp: same_task_def same_runtime_def)
    have R: "(r, s') = (case r1 of Inl e \<Rightarrow> (Inl e, ?s1)
        | Inr k \<Rightarrow> if k \<le> last_saved_downloaded_bytes t then (Inr (), ?s1) else write_checkpoint env k ?s1)"
      using pe ss True f by (cases r1) (auto simp: persist_single_control_snapshot_def Let_def)
    show ?thesis
    proof (cases "\<exists>k. r1 = Inr k \<and> \<not> k \<le> last_saved_downloaded_bytes t")
      case False
      then show ?thesis using R l1 by (auto split: sum.splits)
    next
      case True
      then obtain k where k: "r1 = Inr k" "write_checkpoint env k ?s1 = (r, s')" using R by auto
      have "0 < k" "k \<le> written_bytes (sw_task (sn_writer ?s1))" using F k(1) True by auto
      note S = write_checkpoint_base [OF liveD(1) [OF l1(1)] liveD(5) [OF l1(1)] liveD(6) [OF l1(1)] this k(2)]
      have "live V ob lim q s'" using S(1-3) l1 uc by (auto simp: live_def fs_ops_writer same_task_def)
      then show ?thesis using S(2) uc l1(2) same_task_trans by auto
    qed
  qed
qed

fun body_bytes :: "'b stream_event list \<Rightarrow> 'b list" where
  "body_bytes (EvChunk d _ # evs) = d @ body_bytes evs"
| "body_bytes (EvEnd _ # evs) = []"
| "body_bytes (_ # evs) = body_bytes evs"
| "body_bytes [] = []"

fun ends_clean :: "'b stream_event list \<Rightarrow> bool" where
  "ends_clean (EvEnd e # evs) \<longleftrightarrow> e = None"
| "ends_clean (_ # evs) \<longleftrightarrow> ends_clean evs"
| "ends_clean [] \<longleftrightarrow> False"

fun stream_ends :: "'b stream_event list \<Rightarrow> bool" where
  "stream_ends (EvEnd _ # evs) \<longleftrightarrow> True"
| "stream_ends (EvStop signal # evs) \<longleftrightarrow> stop_signal_error signal \<noteq> None \<or> stream_ends evs"
| "stream_ends (_ # evs) \<longleftrightarrow> stream_ends evs"
| "stream_ends [] \<longleftrightarrow> False"

lemma take_prefix: "q @ r = ob \<Longrightarrow> take (length q) ob = q"
  by auto

definition streamed ::
  "nat option \<Rightarrow> nat \<Rightarrow> 'b list \<Rightarrow> 'b stream_event list \<Rightarrow> single_attempt_outcome \<Rightarrow> 'b list \<Rightarrow> bool" where
  "streamed expected received q evs out q' \<longleftrightarrow>
     length q \<le> length q' \<and>
     (\<forall>n. out = AttemptComplete n \<longrightarrow>
        n = length q' \<and> q' = q @ body_bytes evs \<and> ends_clean evs \<and>
        (\<forall>m. expected = Some m \<longrightarrow> length q' + received = length q + m))"

lemma streamed_simps:
  "length q \<le> length q' \<Longrightarrow> streamed expected received q evs (AttemptError e n) q'"
  "streamed expected received q (EvStop signal # evs) out q' = streamed expected received q evs out q'"
  "streamed expected received q (EvTick # evs) out q' = streamed expected received q evs out q'"
  "streamed expected (received + length d) (q @ d) evs out q' \<Longrightarrow> streamed expected received q (EvChunk d w # evs) out q'"
  by (auto simp: streamed_def)

text \<open>Forwarding one piece of the body.\<close>

lemma chunk_live:
  assumes qu: "quiet (sv_io env)" and l: "live V ob lim q s" and ob: "q @ data @ tl' = ob"
    and m: "0 < max_chunk (sw_budget (sn_writer s))"
  shows "\<exists>r cmds n. forward (sw_budget (sn_writer s)) waits data (length q) None = Some (r, cmds, n) \<and>
    (r = Inr () \<longleftrightarrow> n = length data) \<and>
    live V ob lim (q @ take n data) (s\<lparr>sn_writer := feed (sv_io env) cmds (sn_writer s)\<rparr>) \<and>
    same_task s (s\<lparr>sn_writer := feed (sv_io env) cmds (sn_writer s)\<rparr>)"
proof -
  note L = liveD [OF l]
  have fits: "length q + length data \<le> u64_max" using L(4) unfolding ob [symmetric] by simp
  obtain r cmds n where F: "forward (sw_budget (sn_writer s)) waits data (length q) None = Some (r, cmds, n)"
    "chunked (max_chunk (sw_budget (sn_writer s))) (length q) None (take n data) cmds" "r = Inr () \<longleftrightarrow> n = length data"
    using forward_observed_ok [OF m fits, of waits 0 None] unfolding forward_def by blast
  have "length q + length (take n data) \<le> u64_max" using fits by simp
  note W = feed_data_inv [OF L(2) F(2) this, of "sv_io env"]
  have "(q @ take n data) @ drop n data @ tl' = ob" using ob by (metis append_assoc append_take_drop_id)
  from live_writer [OF l conjunct1 [OF W] feed_runtime conjunct2 [OF W] feed_calm [OF qu L(10) chunked_unkeyed [OF F(2)]]
      take_prefix [OF this]]
  show ?thesis using F(1,3) by blast
qed

lemma stream_events_inv:
  assumes qu: "quiet (sv_io env)" and "stream_events env spec control expected (length q) received evs s = Some (out, s')"
    "live V ob lim q s" "control = sn_use_control s" "q @ body_bytes evs @ rest = ob"
    "0 < max_chunk (sw_budget (sn_writer s))"
  shows "\<exists>q'. live V ob lim q' s' \<and> same_task s s' \<and> streamed expected received q evs out q'"
  using assms
proof (induction env spec control expected "length q" received evs s arbitrary: q rule: stream_events.induct)
  case (2 env spec control expected received signal evs s)
  show ?case
  proof (cases "stop_signal_error signal")
    case None
    then show ?thesis using "2.hyps" [of q] "2.prems" by (simp add: streamed_simps)
  next
    case (Some e)
    obtain r s1 where pe: "persist_single_control_snapshot env spec Terminal (length q) True s = (r, s1)" by fastforce
    then show ?thesis using "2.prems" Some persist_live [OF "2.prems"(1,3) _ pe]
      by (cases control) (auto simp: streamed_simps(1))
  qed
next
  case (3 env spec control expected received evs s)
  obtain r s1 where pe: "persist_single_control_snapshot env spec Autosave (length q) True s = (r, s1)" by fastforce
  let ?s1 = "if control then s1 else s"
  have P: "live V ob lim q ?s1" "same_task s ?s1" using persist_live [OF "3.prems"(1,3) _ pe] "3.prems"(3,4) by auto
  have eq: "(if control then snd (persist_single_control_snapshot env spec Autosave (length q) True s) else s) = ?s1"
    using pe by simp
  have "\<exists>q'. live V ob lim q' s' \<and> same_task ?s1 s' \<and> streamed expected received q evs out q'"
    using "3.hyps" [of q, unfolded eq] "3.prems" P eq by (auto simp: same_task_def)
  then show ?case using same_task_trans [OF P(2)] by (auto simp: streamed_simps)
next
  case (4 env spec control expected received data waits evs s)
  have ob: "q @ data @ body_bytes evs @ rest = ob" using "4.prems"(5) by simp
  show ?case
  proof (cases "case expected of Some n \<Rightarrow> n < sat_add_u64 received (length data) | None \<Rightarrow> False")
    case True
    then show ?thesis using "4.prems"(2,3) streamed_simps(1) [of q q] same_task_refl
      by (simp only: stream_events.simps if_True) blast
  next
    case within: False
    obtain r cmds n where F: "forward (sw_budget (sn_writer s)) waits data (length q) None = Some (r, cmds, n)"
      "r = Inr () \<longleftrightarrow> n = length data"
      and l1: "live V ob lim (q @ take n data) (s\<lparr>sn_writer := feed (sv_io env) cmds (sn_writer s)\<rparr>)"
      "same_task s (s\<lparr>sn_writer := feed (sv_io env) cmds (sn_writer s)\<rparr>)"
      using chunk_live [OF "4.prems"(1,3) ob "4.prems"(6)] by blast
    let ?s1 = "s\<lparr>sn_writer := feed (sv_io env) cmds (sn_writer s)\<rparr>" and ?q = "q @ take n data"
    show ?thesis
    proof (cases r)
      case (Inl e)
      then have "out = AttemptError e (received + n)" "s' = ?s1" using "4.prems"(2) within F(1) by (simp_all add: Let_def)
      then show ?thesis using l1 streamed_simps(1) [of q ?q] by auto
    next
      case (Inr u)
      then have n: "n = length data" using F(2) by simp
      have st: "stream_events env spec control expected (length ?q) (received + n) evs ?s1 = Some (out, s')"
        and len: "length q + n = length ?q" and q: "?q @ body_bytes evs @ rest = ob"
        using "4.prems"(2) within F(1) Inr n ob by (simp_all add: Let_def)
      have "control = sn_use_control ?s1" "0 < max_chunk (sw_budget (sn_writer ?s1))"
        using "4.prems"(4,6) l1(2) by (simp_all add: same_task_def)
      from "4.hyps" [OF within F(1) refl refl refl Inr len "4.prems"(1) st l1(1) this(1) q this(2)]
      have "\<exists>q'. live V ob lim q' s' \<and> same_task ?s1 s' \<and> streamed expected (received + length data) (q @ data) evs out q'"
        using n by simp
      then show ?thesis using same_task_trans [OF l1(2)] n streamed_simps(4) by fastforce
    qed
  qed
next
  case (6 env spec control expected received evs s)
  then show ?case by (auto simp: streamed_def split: option.splits if_splits)
qed (auto simp: streamed_def)

lemma stream_events_returns:
  assumes "quiet (sv_io env)" "live V ob lim q s" "control = sn_use_control s" "q @ body_bytes evs @ rest = ob"
    "0 < max_chunk (sw_budget (sn_writer s))" "stream_ends evs"
  shows "stream_events env spec control expected (length q) received evs s \<noteq> None"
  using assms
proof (induction evs arbitrary: q s received)
  case (Cons ev evs)
  show ?case
  proof (cases ev)
    case (EvStop signal)
    then show ?thesis using Cons by (auto split: option.split)
  next
    case EvTick
    obtain r s1 where pe: "persist_single_control_snapshot env spec Autosave (length q) True s = (r, s1)" by fastforce
    have "live V ob lim q (if control then s1 else s)" "same_task s (if control then s1 else s)"
      using persist_live [OF Cons.prems(1,2) _ pe] Cons.prems(2,3) by auto
    then show ?thesis using Cons.IH [of q "if control then s1 else s"] Cons.prems EvTick pe
      by (cases "sn_use_control s") (simp_all add: same_task_def)
  next
    case (EvChunk data waits)
    then have ob: "q @ data @ body_bytes evs @ rest = ob" using Cons.prems(4) by simp
    obtain r cmds n where F: "forward (sw_budget (sn_writer s)) waits data (length q) None = Some (r, cmds, n)"
      "r = Inr () \<longleftrightarrow> n = length data"
      and l1: "live V ob lim (q @ take n data) (s\<lparr>sn_writer := feed (sv_io env) cmds (sn_writer s)\<rparr>)"
      "same_task s (s\<lparr>sn_writer := feed (sv_io env) cmds (sn_writer s)\<rparr>)"
      using chunk_live [OF Cons.prems(1,2) ob Cons.prems(5)] by blast
    show ?thesis
    proof (cases r)
      case (Inr u)
      then show ?thesis using F l1 ob EvChunk Cons.prems Cons.IH [of "q @ data" "s\<lparr>sn_writer := feed (sv_io env) cmds (sn_writer s)\<rparr>" "received + n"]
        by (auto simp: same_task_def Let_def)
    qed (use F EvChunk in \<open>auto simp: Let_def\<close>)
  next
    case (EvEnd e)
    then show ?thesis by (cases e) auto
  qed
qed simp

section \<open>Results\<close>

text \<open>The snapshots that identify the object of a response in \<open>M\<close>.\<close>

definition vals :: "response_meta set \<Rightarrow> (response_meta \<Rightarrow> 'b list) \<Rightarrow> 'b list \<Rightarrow> control_snapshot \<Rightarrow> bool" where
  "vals M obj ob c \<longleftrightarrow> (\<exists>m \<in> M. obj m = ob \<and> cs_etag c = etag m \<and> cs_last_modified c = last_modified m)"

definition contents_of :: "'b list \<Rightarrow> 'b contents" where
  "contents_of ob = (\<lambda>i. if i < length ob then Some (ob ! i) else None)"

definition file_of :: "'b single_state \<Rightarrow> 'b contents" where
  "file_of s = dk_bytes (sw_disk (sn_writer s))"

definition checkpoint_true :: "response_meta set \<Rightarrow> (response_meta \<Rightarrow> 'b list) \<Rightarrow> 'b single_state \<Rightarrow> bool" where
  "checkpoint_true M obj s \<longleftrightarrow>
     (\<forall>c. sn_saved s = Some c \<longrightarrow>
        (\<exists>m \<in> M. cs_etag c = etag m \<and> cs_last_modified c = last_modified m \<and>
           cs_downloaded_bytes c \<le> length (obj m) \<and> (\<forall>i < cs_downloaded_bytes c. file_of s i = Some (obj m ! i))))"

definition stop_saved :: "'b single_state \<Rightarrow> bool" where
  "stop_saved s \<longleftrightarrow>
     written_bytes (sw_task (sn_writer s)) = 0 \<or>
     (\<exists>c. sn_saved s = Some c \<and> cs_downloaded_bytes c = written_bytes (sw_task (sn_writer s)))"

definition final ::
  "response_meta set \<Rightarrow> (response_meta \<Rightarrow> 'b list) \<Rightarrow> 'b single_env \<Rightarrow> unit dl_result \<Rightarrow> 'b single_state \<Rightarrow> bool" where
  "final M obj env r s \<longleftrightarrow>
     (checkpoint_true M obj s \<or> no_data (sv_zero env) (file_of s)) \<and>
     (r = Inr () \<longrightarrow> file_of s = contents_of (obj (sn_baseline s)) \<and> (sn_use_control s \<longrightarrow> sn_saved s = None)) \<and>
     (\<forall>e. r = Inl e \<longrightarrow> stop_error e \<longrightarrow> sn_use_control s \<longrightarrow> stop_saved s)"

lemma vals_bytes: "vals M obj ob c \<Longrightarrow> vals M obj ob (c\<lparr>cs_downloaded_bytes := n\<rparr>)"
  by (simp add: vals_def)

lemma base_checkpoint:
  assumes "base (vals M obj ob) ob q s"
  shows "checkpoint_true M obj s"
proof -
  have q: "take (length q) ob = q" "prefix_safe q (sw_task (sn_writer s))" using assms by (simp_all add: base_def)
  have le: "length q \<le> length ob" using arg_cong [OF q(1), of length] by simp
  have nth: "q ! i = ob ! i" if "i < length q" for i using arg_cong [OF q(1), of "\<lambda>xs. xs ! i"] that by simp
  show ?thesis unfolding checkpoint_true_def
  proof (intro allI impI)
    fix c assume c: "sn_saved s = Some c"
    then obtain m where m: "m \<in> M" "obj m = ob" "cs_etag c = etag m" "cs_last_modified c = last_modified m"
      and w: "cs_downloaded_bytes c \<le> written_bytes (sw_task (sn_writer s))"
      using assms by (auto simp: base_def ckpt_def vals_def)
    then show "\<exists>m \<in> M. cs_etag c = etag m \<and> cs_last_modified c = last_modified m \<and>
        cs_downloaded_bytes c \<le> length (obj m) \<and> (\<forall>i < cs_downloaded_bytes c. file_of s i = Some (obj m ! i))"
      using q(2) le nth by (intro bexI [of _ m]) (auto simp: prefix_safe_def file_of_def sw_disk_def)
  qed
qed

lemma fs_no_stop: "quiet (sv_fs env) \<Longrightarrow> fs_outcome env s = (Some e, s') \<Longrightarrow> \<not> stop_error e"
  by (force simp: fs_outcome_def quiet_def)

lemma checkpoint_no_stop:
  "quiet (sv_fs env) \<Longrightarrow> write_checkpoint env n s = (r, s') \<Longrightarrow> no_stop r"
  "quiet (sv_fs env) \<Longrightarrow> remove_checkpoint env s = (r, s') \<Longrightarrow> no_stop r"
  using fs_no_stop [of env s]
  by (auto simp: write_checkpoint_def remove_checkpoint_def no_stop_def split: prod.splits option.splits)

lemma base_writer:
  assumes "base V ob q s" "prefix_safe q (sw_task w)" "written_bytes (sw_task (sn_writer s)) \<le> written_bytes (sw_task w)"
  shows "base V ob q (s\<lparr>sn_writer := w\<rparr>)"
  using assms by (auto simp: base_def ckpt_def split: option.splits)

lemma finish_final:
  assumes qu: "quiet (sv_io env)" "quiet (sv_fs env)" and l: "live (vals M obj ob) ob lim q s"
    and f: "finish_single_error env spec err s = (r, s')"
  shows "final M obj env r s'"
proof -
  note L = liveD [OF l]
  obtain r1 w where c: "close (sv_io env) (sn_writer s) = (r1, w)" by fastforce
  note C = close_inv [OF L(2,8) c] and N = close_no_stop [OF qu(1) L(10) c]
  let ?s1 = "s\<lparr>sn_writer := w\<rparr>"
  have b1: "base (vals M obj ob) ob q ?s1" using base_writer [OF L(1)] C by blast
  show ?thesis
  proof (cases "r1 = Inr () \<and> sn_use_control s")
    case False
    then have "s' = ?s1 \<and> (\<exists>e. r = Inl e) \<and> (sn_use_control s \<longrightarrow> (\<exists>e. r = Inl e \<and> \<not> stop_error e))"
      using f c N by (cases r1) (auto simp: finish_single_error_def on_writer_def no_stop_def)
    then show ?thesis using base_checkpoint [OF b1] by (auto simp: final_def)
  next
    case True
    let ?n = "written_bytes (sw_task w)"
    obtain r2 s2 where pe: "persist_single_control_snapshot env spec Terminal ?n False ?s1 = (r2, s2)" by fastforce
    have "finish_single_error env spec err s = wr_then (r2, s2) (\<lambda>s. (Inl err, s))"
      using c True pe by (simp add: finish_single_error_def on_writer_def)
    then have R: "s' = s2" "r = (case r2 of Inl e \<Rightarrow> Inl e | Inr _ \<Rightarrow> Inl err)" using f by (cases r2; simp)+
    show ?thesis
    proof (cases "?n \<le> last_saved_downloaded_bytes (sn_tracker s)")
      case le: True
      then have "r2 = Inr ()" "s2 = ?s1" using pe by (auto simp: persist_single_control_snapshot_def should_save_def)
      moreover have "stop_saved ?s1" using b1 le by (auto simp: base_def ckpt_def stop_saved_def split: option.splits)
      ultimately show ?thesis using base_checkpoint [OF b1] R by (auto simp: final_def)
    next
      case False
      then have sv: "write_checkpoint env ?n (?s1\<lparr>sn_tracker := sn_tracker s\<rparr>) = (r2, s2)"
        using pe by (auto simp: persist_single_control_snapshot_def should_save_def Let_def)
      have b2: "base (vals M obj ob) ob q (?s1\<lparr>sn_tracker := sn_tracker s\<rparr>)" using b1 by (simp add: base_def ckpt_def)
      have t: "vals M obj ob (sn_template (?s1\<lparr>sn_tracker := sn_tracker s\<rparr>))" using L(5) True by simp
      note S = write_checkpoint_base [OF b2 t vals_bytes _ _ sv]
      have "no_stop r2" using checkpoint_no_stop(1) [OF qu(2) sv] .
      then show ?thesis using S False R base_checkpoint [of M obj ob q s2]
        by (cases r2) (auto simp: final_def no_stop_def stop_saved_def)
    qed
  qed
qed

lemma nth_prefix: "take (length q) ob = q \<Longrightarrow> i < length q \<Longrightarrow> q ! i = ob ! i"
  by (metis nth_take)

lemma complete_final:
  assumes qu: "quiet (sv_io env)" "quiet (sv_fs env)" and l: "live (vals M obj ob) ob lim ob s" and bl: "obj (sn_baseline s) = ob"
    and lim: "lim = 0 \<or> sn_total_size s = Some lim" and c: "complete_single_transfer env (length ob) s = (r, s')"
  shows "final M obj env r s'"
proof -
  note L = liveD [OF l]
  obtain r1 w1 where f: "flush (sv_io env) (sn_writer s) = (r1, w1)" by fastforce
  note F = flush_inv [OF L(2,8) f] and N = flush_no_stop [OF qu(1) L(10) f]
  let ?s1 = "s\<lparr>sn_writer := w1\<rparr>"
  have b1: "base (vals M obj ob) ob ob ?s1" using base_writer [OF L(1)] F by blast
  show ?thesis
  proof (cases r1)
    case (Inl e)
    then have "r = Inl e" "s' = ?s1" using c f by (simp_all add: complete_single_transfer_def on_writer_def)
    then show ?thesis using base_checkpoint [OF b1] N Inl by (auto simp: final_def no_stop_def)
  next
    case (Inr n)
    then have w1: "sw_inv ob lim w1" "n = length ob" "\<not> sw_joined w1" "calm w1"
      using F N L(3) by (auto simp: same_runtime_def running_def)
    obtain r2 w2 where cl: "close (sv_io env) w1 = (r2, w2)" by fastforce
    note C = close_inv [OF w1(1) L(4) cl] and N2 = close_no_stop [OF qu(1) w1(4) cl]
    let ?s2 = "s\<lparr>sn_writer := w2\<rparr>"
    have b2: "base (vals M obj ob) ob ob ?s2" using base_writer [OF b1] C by simp
    have K: "complete_single_transfer env (length ob) s = wr_then (r2, ?s2) (\<lambda>s2.
        if n \<noteq> length ob \<or> (case sn_total_size s of Some t \<Rightarrow> length ob \<noteq> t | None \<Rightarrow> False)
        then (Inl (Internal (''single writer persisted '' @ show_nat n @ '' bytes but attempt completed at '' @ show_nat (length ob))), s2)
        else if sn_use_control s then remove_checkpoint env s2 else (Inr (), s2))"
      using f Inr cl by (simp add: complete_single_transfer_def on_writer_def)
    show ?thesis
    proof (cases "r2 = Inr () \<and> \<not> (case sn_total_size s of Some t \<Rightarrow> length ob \<noteq> t | None \<Rightarrow> False)")
      case False
      then have "s' = ?s2 \<and> (\<exists>e. r = Inl e \<and> \<not> stop_error e)"
        using K c N2 by (cases r2) (auto simp: no_stop_def stop_error_def)
      then show ?thesis using base_checkpoint [OF b2] by (auto simp: final_def)
    next
      case True
      then have h: "holds ob lim (sw_task w2)" "written_bytes (sw_task w2) = length ob" using C w1(3) by simp_all
      have "lim \<le> length ob" using lim True by auto
      then have fl: "file_of ?s2 = contents_of ob"
        using holdsD(1,5) [OF h(1)] h(2)
        by (auto simp: file_of_def sw_disk_def contents_of_def prefix_safe_def fun_eq_iff max_def)
      have R: "(r, s') = (if sn_use_control s then remove_checkpoint env ?s2 else (Inr (), ?s2))" using K c True w1(2) by auto
      show ?thesis
      proof (cases "sn_use_control s")
        case False
        then show ?thesis using R base_checkpoint [OF b2] fl bl by (simp add: final_def)
      next
        case uc: True
        then have rm: "remove_checkpoint env ?s2 = (r, s')" using R by simp
        have "sn_baseline s' = sn_baseline s" "file_of s' = file_of ?s2" "sn_saved s' = None \<or> sn_saved s' = sn_saved ?s2"
          "r = Inr () \<longrightarrow> sn_saved s' = None"
          using rm by (auto simp: remove_checkpoint_def fs_outcome_def file_of_def sw_disk_def split: option.splits)
        moreover from this have "checkpoint_true M obj s'" using base_checkpoint [OF b2] by (auto simp: checkpoint_true_def)
        ultimately show ?thesis using fl bl checkpoint_no_stop(2) [OF qu(2) rm] by (auto simp: final_def no_stop_def)
      qed
    qed
  qed
qed

section \<open>Between two passes\<close>

definition server :: "response_meta set \<Rightarrow> (response_meta \<Rightarrow> 'b list) \<Rightarrow> bool" where
  "server M obj \<longleftrightarrow>
     (\<forall>m \<in> M. length (obj m) \<le> u64_max \<and> (\<forall>b \<in> M. \<forall>t. metadata_matches_baseline m b t \<longrightarrow> obj m = obj b))"

definition starts_at :: "'b answer \<Rightarrow> nat" where
  "starts_at a =
     (if rs_status (fst a) = 206 then (case content_range_start (snd a) of Some n \<Rightarrow> n | None \<Rightarrow> 0) else 0)"

definition honest :: "response_meta set \<Rightarrow> (response_meta \<Rightarrow> 'b list) \<Rightarrow> 'b answer \<Rightarrow> bool" where
  "honest M obj a \<longleftrightarrow>
     snd a \<in> M \<and> stream_ends (rs_body (fst a)) \<and>
     (\<exists>rest. body_bytes (rs_body (fst a)) @ rest = drop (starts_at a) (obj (snd a))) \<and>
     (case single_response_total_size (rs_status (fst a)) (snd a) of
        Some t \<Rightarrow> t = length (obj (snd a))
      | None \<Rightarrow> ends_clean (rs_body (fst a)) \<longrightarrow> body_bytes (rs_body (fst a)) = drop (starts_at a) (obj (snd a)))"

definition honest_round :: "response_meta set \<Rightarrow> (response_meta \<Rightarrow> 'b list) \<Rightarrow> 'b single_round \<Rightarrow> bool" where
  "honest_round M obj ro \<longleftrightarrow>
     (\<forall>x y a. ro_range ro x y = Inr a \<longrightarrow> honest M obj a) \<and>
     (\<forall>a. ro_get ro = Inr a \<longrightarrow> honest M obj a \<and> starts_at a = 0)"

definition good ::
  "response_meta set \<Rightarrow> (response_meta \<Rightarrow> 'b list) \<Rightarrow> download_spec \<Rightarrow> nat \<Rightarrow> 'b single_state \<Rightarrow> bool" where
  "good M obj spec lim s \<longleftrightarrow>
     (let ob = obj (sn_baseline s)
      in live (vals M obj ob) ob lim (take (sn_offset s) ob) s \<and> sn_offset s \<le> length ob \<and> sn_baseline s \<in> M \<and>
         sw_budget (sn_writer s) = memory_budget_new (memory_budget (storage spec)) \<and>
         (lim = 0 \<or> sn_total_size s = Some lim \<and> sw_file_total_size (sn_writer s) = Some lim \<and>
            (0 < sn_offset s \<or> file_allocation (storage spec) = Prealloc)))"

definition pending_ok where
  "pending_ok M obj pending s \<longleftrightarrow>
     (case pending of None \<Rightarrow> True | Some a \<Rightarrow> honest M obj a \<and> (sn_offset s = 0 \<longrightarrow> starts_at a = 0))"

definition pass_ok where
  "pass_ok M obj env spec pass \<longleftrightarrow>
     (case pass of
        Finished r s \<Rightarrow> final M obj env r s
      | Again pending s \<Rightarrow> (\<exists>lim. good M obj spec lim s) \<and> pending_ok M obj pending s
      | Waiting \<Rightarrow> False)"

lemma live_retry: "live V ob lim q (s\<lparr>sn_retry := st\<rparr>) = live V ob lim q s"
  by (simp add: live_def base_def ckpt_def split: option.split)

lemma live_offset: "live V ob lim q (s\<lparr>sn_offset := n\<rparr>) = live V ob lim q s"
  by (simp add: live_def base_def ckpt_def split: option.split)

lemma after_decision_ok:
  assumes qu: "quiet (sv_io env)" "quiet (sv_fs env)" and l: "live (vals M obj ob) ob lim q s"
    and k: "\<And>st. pass_ok M obj env spec (k (s\<lparr>sn_retry := st\<rparr>))"
  shows "pass_ok M obj env spec (after_decision env spec ro d k s)"
proof -
  have fin: "pass_ok M obj env spec (finish_with env spec e s1)" if "live (vals M obj ob) ob lim q s1" for e s1
    using finish_final [OF qu that] by (auto simp: pass_ok_def finish_with_def split: prod.split)
  then show ?thesis using l k
    by (auto simp: after_decision_def live_retry Let_def split: prod.split retry_decision.split sum.split)
qed

text \<open>A restart leaves an empty file and no checkpoint.\<close>

definition fresh :: "download_spec \<Rightarrow> 'b single_state \<Rightarrow> bool" where
  "fresh spec s \<longleftrightarrow>
     sn_offset s = 0 \<and> sn_total_size s = None \<and> \<not> sn_use_control s \<and> sn_saved s = None \<and>
     last_saved_downloaded_bytes (sn_tracker s) = 0 \<and> sw_inv [] 0 (sn_writer s) \<and> running (sn_writer s) \<and> calm (sn_writer s) \<and>
     sw_budget (sn_writer s) = memory_budget_new (memory_budget (storage spec))"

lemma fresh_good:
  assumes "fresh spec s" "sn_baseline s \<in> M" "server M obj"
  shows "good M obj spec 0 s"
  using assms by (simp add: fresh_def good_def live_def base_def ckpt_def server_def sw_inv_def vals_bytes)

text \<open>Resetting the writer: on failure the old bytes are untouched or the file holds no data.\<close>

lemma reset_effect:
  assumes qu: "quiet (sv_io env)" "quiet (sv_fs env)" and l: "live V ob lim q s"
    and re: "reset env spec tsize (sn_writer s) = (r, w')"
  shows "no_stop r \<and>
    (case r of
       Inl _ \<Rightarrow>
         prefix_safe q (sw_task w') \<and> written_bytes (sw_task (sn_writer s)) \<le> written_bytes (sw_task w') \<or>
         no_data (sv_zero env) (dk_bytes (sw_disk w'))
     | Inr _ \<Rightarrow>
         sw_inv [] (prealloc_limit spec tsize) w' \<and> running w' \<and> calm w' \<and> sw_file_total_size w' = tsize \<and>
         no_data (sv_zero env) (dk_bytes (sw_disk w')) \<and>
         sw_budget w' = memory_budget_new (memory_budget (storage spec)))"
proof -
  note L = liveD [OF l]
  obtain r1 w1 where c: "close (sv_io env) (sn_writer s) = (r1, w1)" by fastforce
  note C = close_inv [OF L(2,8) c] and N = close_no_stop [OF qu(1) L(10) c]
  show ?thesis
  proof (cases r1)
    case (Inl e)
    then show ?thesis using re c C N by (auto simp: reset_def)
  next
    case (Inr u)
    then have st: "start_writer env spec 0 tsize w1 = (r, w')" using re c by (simp add: reset_def)
    have "no_stop r" using st qu(2)
      by (force simp: start_writer_def create_output_file_def no_stop_def quiet_def Let_def split: option.splits prod.splits nat.splits)
    then show ?thesis using start_writer_zero [OF st] C
      by (cases r) (auto simp: calm_def prefix_safe_def sw_disk_def)
  qed
qed

lemma restart_ok:
  assumes qu: "quiet (sv_io env)" "quiet (sv_fs env)" and l: "live (vals M obj ob) ob lim q s"
    and k: "\<And>s1. fresh spec s1 \<Longrightarrow> sn_baseline s1 = sn_baseline s \<Longrightarrow> pass_ok M obj env spec (k s1)"
  shows "pass_ok M obj env spec (restart env spec k s)"
proof -
  obtain r w where re: "reset env spec None (sn_writer s) = (r, w)" by fastforce
  note E = reset_effect [OF qu l re]
  let ?s1 = "s\<lparr>sn_writer := w\<rparr>"
  show ?thesis
  proof (cases r)
    case (Inl e)
    then have "checkpoint_true M obj ?s1 \<or> no_data (sv_zero env) (file_of ?s1)"
      using E base_checkpoint [OF base_writer [OF liveD(1) [OF l]]] by (auto simp: file_of_def)
    then show ?thesis using re Inl E by (auto simp: restart_def on_writer_def pass_ok_def final_def no_stop_def)
  next
    case (Inr u)
    then have W: "sw_inv [] 0 w" "running w" "calm w" "no_data (sv_zero env) (dk_bytes (sw_disk w))"
      "sw_budget w = memory_budget_new (memory_budget (storage spec))" using E by (auto simp: prealloc_limit_def split: file_allocation.splits)
    obtain r2 s2 where rm: "remove_checkpoint env ?s1 = (r2, s2)" by fastforce
    have S: "\<exists>j. sn_writer s2 = w\<lparr>sw_fs_ops := j\<rparr>" "sn_baseline s2 = sn_baseline s" "r2 = Inr () \<Longrightarrow> sn_saved s2 = None"
      using rm by (auto simp: remove_checkpoint_def fs_outcome_def split: option.splits)
    show ?thesis
    proof (cases r2)
      case Inl': (Inl e)
      have "no_data (sv_zero env) (file_of s2)" using W(4) S(1) by (auto simp: file_of_def sw_disk_def)
      then show ?thesis using re Inr rm Inl' checkpoint_no_stop(2) [OF qu(2) rm]
        by (simp add: restart_def on_writer_def pass_ok_def final_def no_stop_def)
    next
      case Inr': (Inr u)
      let ?s3 = "s2\<lparr>sn_offset := 0, sn_total_size := None, sn_use_control := False, sn_tracker := tracker_new 0\<rparr>"
      have "fresh spec ?s3" using S W Inr' by (auto simp: fresh_def tracker_new_def fs_ops_writer)
      then show ?thesis using re Inr rm Inr' k [of ?s3] S(2) by (simp add: restart_def on_writer_def)
    qed
  qed
qed

section \<open>The phases of a pass\<close>

text \<open>What the body of an accepted answer is, relative to the state.\<close>

definition body_ok :: "(response_meta \<Rightarrow> 'b list) \<Rightarrow> 'b stream_event list \<Rightarrow> 'b single_state \<Rightarrow> bool" where
  "body_ok obj evs s \<longleftrightarrow>
     (let ob = obj (sn_baseline s)
      in stream_ends evs \<and> (\<exists>rest. take (sn_offset s) ob @ body_bytes evs @ rest = ob) \<and>
         (sn_total_size s = Some (length ob) \<or> (ends_clean evs \<longrightarrow> take (sn_offset s) ob @ body_bytes evs = ob)))"

lemma good_limit: "good M obj spec lim s \<Longrightarrow> lim = 0 \<or> sn_total_size s = Some lim"
  by (auto simp: good_def Let_def)

lemma save_at_live:
  assumes l: "live V ob lim q s" and n: "n \<le> written_bytes (sw_task (sn_writer s))"
  shows "live V ob lim q (if sn_use_control s then save_single_control_snapshot_at env n s else s) \<and>
    same_task s (if sn_use_control s then save_single_control_snapshot_at env n s else s)"
proof (cases "sn_use_control s \<and> \<not> n \<le> last_saved_downloaded_bytes (sn_tracker s)")
  case True
  obtain r s' where sv: "write_checkpoint env n s = (r, s')" by fastforce
  note L = liveD [OF l]
  have V: "V (sn_template s)" "0 < n" using True L(5) by auto
  note S = write_checkpoint_base [OF L(1) V(1) L(6) V(2) n sv]
  have "live V ob lim q s'" using S(1-3) l by (auto simp: live_def fs_ops_writer same_task_def)
  then show ?thesis using True sv S(2) by (simp add: save_single_control_snapshot_at_def)
next
  case False
  then show ?thesis using l by (auto simp: save_single_control_snapshot_at_def)
qed

lemma retry_body_ok:
  assumes qu: "quiet (sv_io env)" "quiet (sv_fs env)" and srv: "server M obj" and g: "good M obj spec lim s"
  shows "pass_ok M obj env spec
    (after_decision env spec ro d
       (\<lambda>s5. if (case sn_total_size s5 of None \<Rightarrow> True | Some t \<Rightarrow> t \<le> sn_offset s5)
             then restart env spec (Again None) s5 else Again None s5) s)"
proof (rule after_decision_ok [OF qu])
  show "live (vals M obj (obj (sn_baseline s))) (obj (sn_baseline s)) lim (take (sn_offset s) (obj (sn_baseline s))) s"
    using g by (simp add: good_def Let_def)
  fix st
  let ?s = "s\<lparr>sn_retry := st\<rparr>"
  have g': "good M obj spec lim ?s" using g by (simp add: good_def Let_def live_retry)
  then have l: "live (vals M obj (obj (sn_baseline ?s))) (obj (sn_baseline ?s)) lim (take (sn_offset ?s) (obj (sn_baseline ?s))) ?s"
    and M: "sn_baseline ?s \<in> M" by (simp_all add: good_def Let_def)
  have "pass_ok M obj env spec (restart env spec (Again None) ?s)"
    using M by (intro restart_ok [OF qu l]) (auto simp: pass_ok_def pending_ok_def intro!: exI [of _ 0] fresh_good [OF _ _ srv])
  moreover have "pass_ok M obj env spec (Again None ?s)" using g' by (auto simp: pass_ok_def pending_ok_def)
  ultimately show "pass_ok M obj env spec
      (if (case sn_total_size ?s of None \<Rightarrow> True | Some t \<Rightarrow> t \<le> sn_offset ?s)
       then restart env spec (Again None) ?s else Again None ?s)" by simp
qed

lemma stream_phase_ok:
  assumes qu: "quiet (sv_io env)" "quiet (sv_fs env)" and mem: "0 < memory_budget (storage spec)" and srv: "server M obj"
    and g: "good M obj spec lim s" and b: "body_ok obj body s"
  shows "pass_ok M obj env spec (stream_phase env spec ro body s)"
proof -
  define ob where "ob = obj (sn_baseline s)"
  define q where "q = take (sn_offset s) ob"
  have G: "live (vals M obj ob) ob lim q s" "length q = sn_offset s" "sn_baseline s \<in> M"
    "sw_budget (sn_writer s) = memory_budget_new (memory_budget (storage spec))"
    using g by (auto simp: good_def Let_def ob_def q_def)
  have op: "sw_open (sn_writer s)" using liveD(3) [OF G(1)] by (simp add: running_def)
  obtain rest where rest: "q @ body_bytes body @ rest = ob" using b by (auto simp: body_ok_def Let_def ob_def q_def)
  have mc: "0 < max_chunk (sw_budget (sn_writer s))" using G(4) max_chunk_bounds(1) [OF mem] by simp
  show ?thesis
  proof (cases "stream_single_attempt env spec body s")
    case None
    have "stream_ends body" using b by (simp add: body_ok_def Let_def)
    from stream_events_returns [OF qu(1) G(1) refl rest mc this]
    have "stream_events env spec (sn_use_control s) (map_option (\<lambda>t. t - sn_offset s) (sn_total_size s)) (length q) 0 body s \<noteq> None" .
    then show ?thesis using None G(2) by (simp add: stream_single_attempt_def)
  next
    case (Some os)
    obtain out s1 where os: "os = (out, s1)" by (cases os)
    have "stream_events env spec (sn_use_control s) (map_option (\<lambda>t. t - sn_offset s) (sn_total_size s)) (length q) 0 body s = Some (out, s1)"
      using Some os G(2) by (simp add: stream_single_attempt_def)
    from stream_events_inv [OF qu(1) this G(1) refl rest mc] obtain q' where
      q': "live (vals M obj ob) ob lim q' s1" "same_task s s1"
        "streamed (map_option (\<lambda>t. t - sn_offset s) (sn_total_size s)) 0 q body out q'" by auto
    show ?thesis
    proof (cases out)
      case (AttemptComplete n)
      then have n: "n = length q'" "q' = q @ body_bytes body" "ends_clean body"
        "\<And>t. sn_total_size s = Some t \<Longrightarrow> length q' = length q + (t - sn_offset s)"
        using q'(3) by (auto simp: streamed_def)
      have "length q' = length ob" if "sn_total_size s = Some (length ob)"
        using n(4) [OF that] G(2) arg_cong [OF rest, of length] by simp
      moreover have "q' = ob" if "sn_total_size s \<noteq> Some (length ob)"
        using b n(2,3) that by (auto simp: body_ok_def Let_def ob_def [symmetric] q_def)
      ultimately have qo: "q' = ob" using liveD(9) [OF q'(1)] by (metis take_all_iff order_refl)
      obtain r s2 where c: "complete_single_transfer env n s1 = (r, s2)" by fastforce
      have "obj (sn_baseline s1) = ob" "lim = 0 \<or> sn_total_size s1 = Some lim"
        using q'(2) good_limit [OF g] by (auto simp: same_task_def ob_def)
      then have "final M obj env r s2" using complete_final [OF qu] q'(1) c n(1) qo by simp
      then show ?thesis using Some os AttemptComplete op c by (simp add: stream_phase_def pass_ok_def)
    next
      case (AttemptError e m)
      show ?thesis
      proof (cases "e = Cancelled \<or> e = Paused \<or> \<not> is_retryable e")
        case True
        then show ?thesis using Some os AttemptError op finish_final [OF qu q'(1)]
          by (auto simp: stream_phase_def pass_ok_def finish_with_def split: prod.split)
      next
        case retry: False
        obtain r2 w2 where f: "flush (sv_io env) (sn_writer s1) = (r2, w2)" by fastforce
        note L1 = liveD [OF q'(1)]
        note F = flush_inv [OF L1(2,8) f] and N = flush_no_stop [OF qu(1) L1(10) f]
        let ?s2 = "s1\<lparr>sn_writer := w2\<rparr>"
        show ?thesis
        proof (cases r2)
          case (Inl e')
          have "base (vals M obj ob) ob q' ?s2" using base_writer [OF L1(1)] F by blast
          then show ?thesis using Some os AttemptError op retry f Inl N base_checkpoint
            by (auto simp: stream_phase_def on_writer_def pass_ok_def final_def no_stop_def)
        next
          case (Inr n)
          then have w2: "n = length q'" "sw_inv q' lim w2" "written_bytes (sw_task w2) = n" "same_runtime (sn_writer s1) w2" "calm w2"
            using F N by auto
          have l2: "live (vals M obj ob) ob lim q' ?s2" "same_task s1 ?s2"
            using live_writer [OF q'(1) w2(2,4) _ w2(5) L1(9)] F by auto
          let ?s3 = "?s2\<lparr>sn_offset := n\<rparr>"
          have l3: "live (vals M obj ob) ob lim q' ?s3" using l2(1) by (simp add: live_offset)
          define s4 where "s4 = (if sn_use_control ?s3 then save_single_control_snapshot_at env n ?s3 else ?s3)"
          have l4: "live (vals M obj ob) ob lim q' s4" "same_task ?s3 s4"
            using save_at_live [OF l3, of n] w2(3) by (simp_all add: s4_def)
          have same: "sn_baseline s4 = sn_baseline s" "sn_total_size s4 = sn_total_size s" "sn_offset s4 = n"
            "sw_file_total_size (sn_writer s4) = sw_file_total_size (sn_writer s)" "sw_budget (sn_writer s4) = sw_budget (sn_writer s)"
            using l4(2) l2(2) q'(2) by (simp_all add: same_task_def)
          have "sn_offset s \<le> n" using q'(3) G(2) w2(1) by (simp add: streamed_def)
          then have "good M obj spec lim s4"
            using g l4(1) L1(7,9) w2(1) unfolding good_def Let_def same ob_def [symmetric] by auto
          then show ?thesis using Some os AttemptError op retry f Inr retry_body_ok [OF qu srv]
            by (simp add: stream_phase_def on_writer_def Let_def s4_def)
        qed
      qed
    qed
  qed
qed

lemma continuation_accepted:
  assumes "continuation_error a t s = None"
  shows "rs_status (fst a) = 206" "content_range_start (snd a) = Some (sn_offset s)" "content_range_total (snd a) = sn_total_size s"
    "sn_total_size s \<noteq> None" "metadata_matches_baseline (snd a) (sn_baseline s) (sn_total_size s)"
proof -
  have v: "validate_range_response (rs_status (fst a)) (rs_headers (fst a) ''retry-after'') (snd a) ResumeProbe
      \<lparr>er_start = sn_offset s, er_end_inclusive = t - 1, er_total_size = sn_total_size s\<rparr> = Inr Accept"
    and m: "metadata_matches_baseline (snd a) (sn_baseline s) (sn_total_size s)"
    using assms by (auto simp: continuation_error_def split: sum.splits range_validation_decision.splits if_splits)
  show "metadata_matches_baseline (snd a) (sn_baseline s) (sn_total_size s)" by (rule m)
  show "rs_status (fst a) = 206" "content_range_start (snd a) = Some (sn_offset s)"
    "content_range_total (snd a) = sn_total_size s" "sn_total_size s \<noteq> None"
    using v unfolding validate_accept_iff range_answer_ok_def by auto
qed

lemma continue_phase_ok:
  assumes qu: "quiet (sv_io env)" "quiet (sv_fs env)" and mem: "0 < memory_budget (storage spec)" and srv: "server M obj"
    and g: "good M obj spec lim s" and h: "honest M obj a"
  shows "pass_ok M obj env spec (continue_phase env spec request_url ro a s)"
proof (cases "sn_total_size s")
  case None
  have "checkpoint_true M obj s" using g base_checkpoint liveD(1) by (fastforce simp: good_def Let_def)
  then show ?thesis using None by (simp add: continue_phase_def pass_ok_def final_def stop_error_def)
next
  case (Some t)
  have G: "live (vals M obj (obj (sn_baseline s))) (obj (sn_baseline s)) lim (take (sn_offset s) (obj (sn_baseline s))) s"
    "sn_baseline s \<in> M" "snd a \<in> M" using g h by (simp_all add: good_def Let_def honest_def)
  show ?thesis
  proof (cases "continuation_error a t s")
    case None
    note C = continuation_accepted [OF None]
    have ob: "obj (snd a) = obj (sn_baseline s)" using srv G C(5) unfolding server_def by blast
    have "starts_at a = sn_offset s" using C(1,2) by (simp add: starts_at_def)
    then obtain rest where rest: "body_bytes (rs_body (fst a)) @ rest = drop (sn_offset s) (obj (sn_baseline s))"
      using h ob by (auto simp: honest_def)
    have "sn_total_size s = Some (length (obj (sn_baseline s)))"
      using h C(1,3,4) ob by (auto simp: honest_def single_response_total_size_def split: option.splits)
    moreover have "take (sn_offset s) (obj (sn_baseline s)) @ body_bytes (rs_body (fst a)) @ rest = obj (sn_baseline s)"
      using rest by simp
    moreover have "stream_ends (rs_body (fst a))" using h by (simp add: honest_def)
    ultimately have "body_ok obj (rs_body (fst a)) s" unfolding body_ok_def Let_def by blast
    then show ?thesis using stream_phase_ok [OF qu mem srv g] Some None by (simp add: continue_phase_def)
  next
    case (Some e)
    let ?k = "\<lambda>s1. Again (if rs_status (fst a) = 200 then Some a else None)
       (s1\<lparr>sn_baseline := snd a, sn_template := single_snapshot_template request_url None 0 (snd a)\<rparr>)"
    have k: "pass_ok M obj env spec (?k s1)" if "fresh spec s1" for s1
    proof -
      have "fresh spec (s1\<lparr>sn_baseline := snd a, sn_template := single_snapshot_template request_url None 0 (snd a)\<rparr>)"
        using that by (simp add: fresh_def)
      from fresh_good [OF this _ srv] G(3)
      show ?thesis using h by (auto simp: pass_ok_def pending_ok_def starts_at_def)
    qed
    have "pass_ok M obj env spec (after_decision env spec ro
        (decide_restart (ro_rand ro) (ro_elapsed1 ro) (ro_elapsed2 ro) (sn_retry s) e) (restart env spec ?k) s)"
      using k G(1) by (intro after_decision_ok [OF qu G(1)] restart_ok [OF qu]) (auto simp: live_retry)
    then show ?thesis using Some \<open>sn_total_size s = Some t\<close> by (simp add: continue_phase_def)
  qed
qed

lemma adopt_live:
  assumes g: "good M obj spec lim s" and z: "sn_offset s = 0" and h: "honest M obj a" and srv: "server M obj"
  shows "live (vals M obj (obj (snd a))) (obj (snd a)) lim [] (adopt spec request_url a s)" "sn_saved (adopt spec request_url a s) = None"
    "sn_baseline (adopt spec request_url a s) = snd a" "sn_writer (adopt spec request_url a s) = sn_writer s"
    "sn_offset (adopt spec request_url a s) = 0"
    "sn_total_size (adopt spec request_url a s) =
       (case single_response_total_size (rs_status (fst a)) (snd a) of Some t \<Rightarrow> Some t | None \<Rightarrow> sn_total_size s)"
proof -
  let ?s = "adopt spec request_url a s"
  show S: "sn_baseline ?s = snd a" "sn_writer ?s = sn_writer s" "sn_offset ?s = 0"
    "sn_total_size ?s = (case single_response_total_size (rs_status (fst a)) (snd a) of Some t \<Rightarrow> Some t | None \<Rightarrow> sn_total_size s)"
    using z by (auto simp: adopt_def Let_def split: option.split)
  have S': "sn_tracker ?s = sn_tracker s" "sn_saved ?s = sn_saved s"
    "sn_template ?s = single_snapshot_template request_url (sn_total_size ?s) 0 (snd a)"
    by (auto simp: adopt_def Let_def split: option.split)
  have l: "live (vals M obj (obj (sn_baseline s))) (obj (sn_baseline s)) lim [] s" using g z by (simp add: good_def Let_def)
  then have "written_bytes (sw_task (sn_writer s)) = 0" using liveD(1) [OF l] by (simp add: base_def prefix_safe_def)
  then show sv: "sn_saved ?s = None" using liveD(1) [OF l] S' by (auto simp: base_def ckpt_def split: option.splits)
  have "vals M obj (obj (snd a)) (sn_template ?s)" unfolding S'(3)
    using h by (auto simp: vals_def single_snapshot_template_def Let_def honest_def)
  moreover have "length (obj (snd a)) \<le> u64_max" using h srv by (simp add: honest_def server_def)
  ultimately show "live (vals M obj (obj (snd a))) (obj (snd a)) lim [] ?s"
    using l sv S(2) S'(1,2) by (simp add: live_def base_def ckpt_def vals_bytes)
qed

lemma fresh_phase_ok:
  assumes qu: "quiet (sv_io env)" "quiet (sv_fs env)" and mem: "0 < memory_budget (storage spec)" and srv: "server M obj"
    and g: "good M obj spec lim s" and z: "sn_offset s = 0" and h: "honest M obj a" "starts_at a = 0"
  shows "pass_ok M obj env spec (fresh_phase env spec request_url ro a s)"
proof -
  define s1 where "s1 = adopt spec request_url a s"
  note A = adopt_live [OF g z h(1) srv, of request_url, folded s1_def]
  have body: "body_ok obj (rs_body (fst a)) s2" if "sn_offset s2 = 0" "sn_baseline s2 = snd a" "sn_total_size s2 = sn_total_size s1" for s2
    using h A(6) that by (auto simp: body_ok_def honest_def split: option.splits)
  have M: "snd a \<in> M" using h by (simp add: honest_def)
  show ?thesis
  proof (cases "file_allocation (storage spec) = Prealloc \<and> sw_file_total_size (sn_writer s1) \<noteq> sn_total_size s1")
    case False
    have "lim = 0 \<or> sn_total_size s1 = Some lim \<and> sw_file_total_size (sn_writer s1) = Some lim \<and> file_allocation (storage spec) = Prealloc"
      using g z A(4) False by (auto simp: good_def Let_def)
    then have "good M obj spec lim s1" using A g M by (auto simp: good_def Let_def)
    then show ?thesis using stream_phase_ok [OF qu mem srv _ body [OF A(5,3) refl]] False
      by (simp only: fresh_phase_def Let_def s1_def [symmetric] if_False)
  next
    case True
    obtain r w where re: "reset env spec (sn_total_size s1) (sn_writer s1) = (r, w)" by fastforce
    note E = reset_effect [OF qu A(1) re]
    let ?s2 = "s1\<lparr>sn_writer := w\<rparr>"
    have P: "fresh_phase env spec request_url ro a s = (case r of Inl e \<Rightarrow> Finished (Inl e) ?s2
        | Inr _ \<Rightarrow> stream_phase env spec ro (rs_body (fst a)) ?s2)"
      using True re by (simp add: fresh_phase_def Let_def s1_def [symmetric] on_writer_def)
    show ?thesis
    proof (cases r)
      case (Inl e)
      then show ?thesis using P E A(2) by (auto simp: pass_ok_def final_def checkpoint_true_def no_stop_def)
    next
      case (Inr u)
      let ?lim = "prealloc_limit spec (sn_total_size s1)"
      have "live (vals M obj (obj (snd a))) (obj (snd a)) ?lim [] ?s2" "sw_file_total_size w = sn_total_size s1"
        "sw_budget w = memory_budget_new (memory_budget (storage spec))"
        using E Inr A(1,2) by (auto simp: live_def base_def ckpt_def sw_inv_def)
      moreover have "?lim = 0 \<or> sn_total_size s1 = Some ?lim" by (auto simp: prealloc_limit_def split: option.split file_allocation.split)
      ultimately have "good M obj spec ?lim ?s2" using A(3,5) M True by (auto simp: good_def Let_def)
      from stream_phase_ok [OF qu mem srv this body] show ?thesis using P Inr A(3,5) by simp
    qed
  qed
qed

lemma single_pass_ok:
  assumes qu: "quiet (sv_io env)" "quiet (sv_fs env)" and mem: "0 < memory_budget (storage spec)" and srv: "server M obj"
    and g: "good M obj spec lim s" and p: "pending_ok M obj pending s" and ro: "honest_round M obj ro"
  shows "pass_ok M obj env spec (single_pass env spec request_url ro pending s)"
proof -
  have l: "live (vals M obj (obj (sn_baseline s))) (obj (sn_baseline s)) lim (take (sn_offset s) (obj (sn_baseline s))) s"
    using g by (simp add: good_def Let_def)
  have answer: "pass_ok M obj env spec (answer_phase env spec request_url ro a s)"
    if "honest M obj a" "sn_offset s = 0 \<longrightarrow> starts_at a = 0" for a
    using that continue_phase_ok [OF qu mem srv g] fresh_phase_ok [OF qu mem srv g] by (simp add: answer_phase_def)
  show ?thesis
  proof (cases pending)
    case (Some a)
    then show ?thesis using p answer by (simp add: single_pass_def pending_ok_def)
  next
    case None
    have fin: "pass_ok M obj env spec (finish_with env spec e s)" for e
      using finish_final [OF qu l] by (auto simp: pass_ok_def finish_with_def split: prod.split)
    have again: "pass_ok M obj env spec (after_decision env spec ro d (Again None) s)" for d
      using g by (intro after_decision_ok [OF qu l]) (auto simp: pass_ok_def pending_ok_def good_def Let_def live_retry)
    have "honest M obj a \<and> (sn_offset s = 0 \<longrightarrow> starts_at a = 0)" if "request_rest ro s = Inr a" for a
      using that ro by (cases a) (auto simp: request_rest_def honest_round_def split: bool.splits option.splits)
    then show ?thesis using None fin again answer by (auto simp: single_pass_def split: option.split sum.split)
  qed
qed

lemma single_loop_final:
  assumes qu: "quiet (sv_io env)" "quiet (sv_fs env)" and mem: "0 < memory_budget (storage spec)" and srv: "server M obj"
    and ro: "list_all (honest_round M obj) rounds"
    and g: "good M obj spec lim s" "pending_ok M obj pending s"
    and run: "single_loop env spec request_url rounds pending s = Some (r, s')"
  shows "final M obj env r s'"
  using ro g run
proof (induction rounds arbitrary: pending s lim)
  case (Cons ro rounds)
  have "pass_ok M obj env spec (single_pass env spec request_url ro pending s)"
    using single_pass_ok [OF qu mem srv Cons.prems(2,3)] Cons.prems(1) by simp
  then show ?case using Cons.prems(1,4) Cons.IH
    by (cases "single_pass env spec request_url ro pending s") (auto simp: pass_ok_def)
qed simp

section \<open>The start\<close>

text \<open>What the session passes in: nothing on disk, or a checkpoint whose bytes are in the file.\<close>

definition resumable ::
  "response_meta set \<Rightarrow> (response_meta \<Rightarrow> 'b list) \<Rightarrow> 'b answer \<Rightarrow> nat \<Rightarrow> nat option \<Rightarrow> 'b disk \<Rightarrow> control_snapshot option \<Rightarrow> bool" where
  "resumable M obj a start_offset tsize d saved \<longleftrightarrow>
     (if start_offset = 0 then saved = None \<and> starts_at a = 0
      else start_offset \<le> length (obj (snd a)) \<and> (\<forall>i < start_offset. dk_bytes d i = Some (obj (snd a) ! i)) \<and>
        (\<exists>t c. tsize = Some t \<and> (\<forall>i. dk_bytes d i \<noteq> None \<longrightarrow> i < t) \<and> saved = Some c \<and>
           cs_downloaded_bytes c = start_offset \<and> vals M obj (obj (snd a)) c))"

lemma start_no_stop: "quiet (sv_fs env) \<Longrightarrow> start_writer env spec n tsize w = (r, w') \<Longrightarrow> no_stop r"
  by (force simp: start_writer_def open_existing_file_def create_output_file_def no_stop_def quiet_def Let_def
      split: option.splits prod.splits nat.splits if_splits)

lemma start_failed:
  assumes rs: "resumable M obj a n tsize d saved" and M: "snd a \<in> M" and qu: "quiet (sv_fs env)"
    and st: "runtime_start env spec d n tsize = (Inl e, w)"
  shows "final M obj env (Inl e) (single_start spec request_url (snd a) n tsize saved w)"
proof -
  have "checkpoint_true M obj (single_start spec request_url (snd a) n tsize saved w)"
  proof (cases "n = 0")
    case True
    then show ?thesis using rs by (simp add: checkpoint_true_def single_start_def resumable_def)
  next
    case False
    then have "dk_bytes (sw_disk w) = dk_bytes d"
      using st by (auto simp: runtime_start_def start_writer_def open_existing_file_def runtime_new_def sw_disk_def
          writer_new_def Let_def split: option.splits)
    then show ?thesis using rs False by (auto simp: checkpoint_true_def single_start_def resumable_def file_of_def vals_def)
  qed
  then show ?thesis using start_no_stop [OF qu st [unfolded runtime_start_def]] by (simp add: final_def no_stop_def)
qed

lemma start_good:
  assumes rs: "resumable M obj a n tsize d saved" and M: "snd a \<in> M" and srv: "server M obj"
    and st: "runtime_start env spec d n tsize = (Inr u, w)"
  shows "\<exists>lim. good M obj spec lim (single_start spec request_url (snd a) n tsize saved w)"
proof -
  let ?s = "single_start spec request_url (snd a) n tsize saved w" and ?ob = "obj (snd a)"
  have V: "vals M obj ?ob (sn_template ?s)"
    using M by (auto simp: vals_def single_start_def single_snapshot_template_def Let_def)
  have len: "length ?ob \<le> u64_max" using srv M by (simp add: server_def)
  have s: "sn_writer ?s = w" "sn_offset ?s = n" "sn_baseline ?s = snd a" "sn_saved ?s = saved" "sn_total_size ?s = tsize"
    "last_saved_downloaded_bytes (sn_tracker ?s) = n" by (simp_all add: single_start_def tracker_new_def)
  show ?thesis
  proof (cases "n = 0")
    case True
    note W = start_writer_zero [OF st [unfolded runtime_start_def True], simplified]
    have "live (vals M obj ?ob) ?ob (prealloc_limit spec tsize) [] ?s"
      using W V len True rs s by (simp add: live_def base_def ckpt_def calm_def vals_bytes resumable_def sw_inv_def)
    moreover have "prealloc_limit spec tsize = 0 \<or> tsize = Some (prealloc_limit spec tsize) \<and> file_allocation (storage spec) = Prealloc"
      by (auto simp: prealloc_limit_def split: option.split file_allocation.split)
    ultimately have "good M obj spec (prealloc_limit spec tsize) ?s" using W s M True by (auto simp: good_def Let_def)
    then show ?thesis by blast
  next
    case False
    then obtain t c where R: "n \<le> length ?ob" "\<forall>i < n. dk_bytes d i = Some (?ob ! i)" "tsize = Some t"
      "\<forall>i. dk_bytes d i \<noteq> None \<longrightarrow> i < t" "saved = Some c" "cs_downloaded_bytes c = n" "vals M obj ?ob c"
      using rs by (auto simp: resumable_def)
    let ?q = "take n ?ob"
    have q: "length ?q = n" "?q \<noteq> []" using R(1) False by auto
    have d: "dk_bytes (sw_disk (runtime_new spec d n tsize)) = dk_bytes d" by (simp add: runtime_new_def sw_disk_def writer_new_def Let_def)
    have "sw_inv ?q t w \<and> running w \<and> sw_file_total_size w = tsize \<and> sw_stopped w = None \<and>
        sw_budget w = memory_budget_new (memory_budget (storage spec)) \<and> written_bytes (sw_task w) = length ?q"
      using st R(2,4) q d unfolding runtime_start_def
      by (intro start_writer_existing [of env spec ?q tsize "runtime_new spec d n tsize" u]) (auto simp: less_max_iff_disj)
    then have "good M obj spec t ?s"
      using R q False s V len M by (auto simp: good_def Let_def live_def base_def ckpt_def calm_def vals_bytes sw_inv_def)
    then show ?thesis by blast
  qed
qed

lemma run_single_final:
  assumes "quiet (sv_io env)" "quiet (sv_fs env)" "0 < memory_budget (storage spec)" "server M obj"
    "list_all (honest_round M obj) rounds" "honest M obj a" "resumable M obj a n tsize d saved"
    "run_single_with_retry env spec request_url a n tsize d saved rounds = Some (r, s)"
  shows "final M obj env r s"
proof -
  obtain r1 w where st: "runtime_start env spec d n tsize = (r1, w)" by fastforce
  have M: "snd a \<in> M" using assms(6) by (simp add: honest_def)
  let ?s = "single_start spec request_url (snd a) n tsize saved w"
  show ?thesis
  proof (cases r1)
    case (Inl e)
    then show ?thesis using start_failed [OF assms(7) M assms(2)] st assms(8) by (auto simp: run_single_with_retry_def Let_def)
  next
    case (Inr u)
    then obtain lim where g: "good M obj spec lim ?s" using start_good [OF assms(7) M assms(4)] st by blast
    have p: "pending_ok M obj (Some a) ?s" using assms(6,7) by (auto simp: pending_ok_def resumable_def single_start_def)
    have "single_loop env spec request_url rounds (Some a) ?s = Some (r, s)"
      using st Inr assms(8) by (simp add: run_single_with_retry_def Let_def)
    then show ?thesis using single_loop_final [OF assms(1-5) g p] by blast
  qed
qed

section \<open>Termination\<close>

lemma checkpoint_retry:
  "sn_retry (snd (write_checkpoint env n s)) = sn_retry s" "sn_retry (snd (remove_checkpoint env s)) = sn_retry s"
  "sn_retry (snd (on_writer f s)) = sn_retry s"
  by (auto simp: write_checkpoint_def remove_checkpoint_def fs_outcome_def on_writer_def split: option.split prod.split)

lemma persist_retry: "sn_retry (snd (persist_single_control_snapshot env spec reason n b s)) = sn_retry s"
  by (auto simp: persist_single_control_snapshot_def Let_def checkpoint_retry split: prod.split bool.split sum.split)

lemma stream_retry:
  "stream_events env spec control expected downloaded received evs s = Some (out, s') \<Longrightarrow> sn_retry s' = sn_retry s"
  by (induction env spec control expected downloaded received evs s rule: stream_events.induct)
    (auto simp: Let_def persist_retry split: option.splits if_splits sum.splits)

definition advanced :: "'b single_state \<Rightarrow> 'b single_state \<Rightarrow> bool" where
  "advanced s s' \<longleftrightarrow>
     rt_max_retries (sn_retry s') = rt_max_retries (sn_retry s) \<and>
     retries_started (sn_retry s') = Suc (retries_started (sn_retry s)) \<and>
     retries_started (sn_retry s') \<le> rt_max_retries (sn_retry s)"

lemma finish_not_again: "finish_with env spec e s \<noteq> Again p s'" "finish_with env spec e s \<noteq> Waiting"
  by (simp_all add: finish_with_def split: prod.split)

lemma after_decision_again:
  assumes "after_decision env spec ro (decide_inner rand t1 t2 (sn_retry s) e f i) k s = Again p s'"
    "rt_max_retries (sn_retry s) \<le> u32_max"
  shows "\<exists>s1. advanced s s1 \<and> k s1 = Again p s'"
proof -
  obtain d st where d: "decide_inner rand t1 t2 (sn_retry s) e f i = (d, st)" by fastforce
  obtain err n b t where R: "d = Retry err n b t" using assms(1) d by (cases d) (auto simp: after_decision_def finish_not_again)
  note C = decide_count [OF d [unfolded R] assms(2)]
  have "k (s\<lparr>sn_retry := st\<rparr>) = Again p s'"
    using assms(1) d R by (auto simp: after_decision_def Let_def finish_not_again split: sum.splits)
  moreover have "advanced s (s\<lparr>sn_retry := st\<rparr>)" using C by (simp add: advanced_def)
  ultimately show ?thesis by blast
qed

lemma restart_again:
  assumes "restart env spec k s = Again p s'"
  shows "\<exists>s1. sn_retry s1 = sn_retry s \<and> k s1 = Again p s'"
proof -
  obtain r w where re: "reset env spec None (sn_writer s) = (r, w)" by fastforce
  obtain r2 s2 where rm: "remove_checkpoint env (s\<lparr>sn_writer := w\<rparr>) = (r2, s2)" by fastforce
  have "sn_retry s2 = sn_retry s" using checkpoint_retry(2) [of env "s\<lparr>sn_writer := w\<rparr>"] rm by simp
  then show ?thesis using assms re rm
    by (cases r; cases r2) (auto simp: restart_def on_writer_def
        intro!: exI [of _ "s2\<lparr>sn_offset := 0, sn_total_size := None, sn_use_control := False, sn_tracker := tracker_new 0\<rparr>"])
qed

lemma advanced_cong:
  "sn_retry s = sn_retry t \<Longrightarrow> sn_retry s' = sn_retry t' \<Longrightarrow> advanced s s' = advanced t t'"
  by (simp add: advanced_def)

lemma save_at_retry: "sn_retry (if b then save_single_control_snapshot_at env n s else s) = sn_retry s"
  by (simp add: save_single_control_snapshot_at_def checkpoint_retry)

lemma stream_phase_again:
  assumes "stream_phase env spec ro body s = Again p s'" "rt_max_retries (sn_retry s) \<le> u32_max"
  shows "advanced s s'"
proof -
  obtain e m s1 where st: "stream_single_attempt env spec body s = Some (AttemptError e m, s1)"
    using assms(1) by (auto simp: stream_phase_def split: if_splits option.splits prod.splits single_attempt_outcome.splits)
  then have r1: "sn_retry s1 = sn_retry s" using stream_retry by (auto simp: stream_single_attempt_def)
  obtain n s2 where f: "on_writer (flush (sv_io env)) s1 = (Inr n, s2)"
    using assms(1) st by (auto simp: stream_phase_def finish_not_again split: if_splits prod.splits sum.splits)
  define s4 where "s4 = (if sn_use_control (s2\<lparr>sn_offset := n\<rparr>) then save_single_control_snapshot_at env n (s2\<lparr>sn_offset := n\<rparr>) else s2\<lparr>sn_offset := n\<rparr>)"
  have r4: "sn_retry s4 = sn_retry s"
    unfolding s4_def save_at_retry using checkpoint_retry(3) [of "flush (sv_io env)" s1] f r1 by simp
  let ?k = "\<lambda>s5. if (case sn_total_size s5 of None \<Rightarrow> True | Some t \<Rightarrow> t \<le> sn_offset s5)
    then restart env spec (Again None) s5 else Again None s5"
  have "after_decision env spec ro (decide (ro_rand ro) (ro_elapsed1 ro) (ro_elapsed2 ro) (sn_retry s4) e) ?k s4 = Again p s'"
    using assms(1) st f by (auto simp: stream_phase_def finish_not_again Let_def s4_def split: if_splits)
  then obtain s5 where a: "advanced s4 s5" "?k s5 = Again p s'"
    using after_decision_again assms(2) unfolding decide_def r4 [symmetric] by blast
  have "sn_retry s' = sn_retry s5" using a(2) restart_again [of env spec "Again None" s5 p s'] by (auto split: if_splits)
  then show ?thesis using a(1) advanced_cong [OF r4] by blast
qed

lemma answer_phase_again:
  assumes "answer_phase env spec request_url ro a s = Again p s'" "rt_max_retries (sn_retry s) \<le> u32_max"
  shows "advanced s s'"
proof (cases "0 < sn_offset s")
  case True
  then obtain t where t: "sn_total_size s = Some t" and c: "continue_phase env spec request_url ro a s = Again p s'"
    using assms(1) by (cases "sn_total_size s") (auto simp: answer_phase_def continue_phase_def)
  show ?thesis
  proof (cases "continuation_error a t s")
    case None
    then show ?thesis using c t stream_phase_again assms(2) by (fastforce simp: continue_phase_def)
  next
    case (Some e)
    let ?k = "\<lambda>s1. Again (if rs_status (fst a) = 200 then Some a else None)
       (s1\<lparr>sn_baseline := snd a, sn_template := single_snapshot_template request_url None 0 (snd a)\<rparr>)"
    have "after_decision env spec ro (decide_inner (ro_rand ro) (ro_elapsed1 ro) (ro_elapsed2 ro) (sn_retry s) e True False)
        (restart env spec ?k) s = Again p s'" using c t Some by (simp add: continue_phase_def decide_restart_def)
    from after_decision_again [OF this assms(2)]
    obtain s1 where a: "advanced s s1" "restart env spec ?k s1 = Again p s'" by blast
    then have "sn_retry s' = sn_retry s1" using restart_again [OF a(2)] by auto
    then show ?thesis using a(1) advanced_cong by blast
  qed
next
  case False
  have ad: "sn_retry (adopt spec request_url a s) = sn_retry s" by (simp add: adopt_def Let_def split: option.split)
  obtain s2 where s2: "sn_retry s2 = sn_retry s" "stream_phase env spec ro (rs_body (fst a)) s2 = Again p s'"
    using assms(1) False ad checkpoint_retry(3) [of "reset env spec (sn_total_size (adopt spec request_url a s))" "adopt spec request_url a s"]
    by (auto simp: answer_phase_def fresh_phase_def Let_def split: if_splits prod.splits sum.splits)
  then show ?thesis using stream_phase_again [OF s2(2)] assms(2) advanced_cong [of s2 s s' s'] by simp
qed

lemma single_pass_again:
  assumes "single_pass env spec request_url ro pending s = Again p s'" "rt_max_retries (sn_retry s) \<le> u32_max"
  shows "advanced s s'"
proof -
  have "advanced s s'" if "after_decision env spec ro (decide (ro_rand ro) (ro_elapsed1 ro) (ro_elapsed2 ro) (sn_retry s) e) (Again None) s = Again p s'" for e
    using after_decision_again [OF that [unfolded decide_def] assms(2)] by auto
  then show ?thesis using assms answer_phase_again
    by (auto simp: single_pass_def finish_not_again split: option.splits sum.splits)
qed

lemma single_loop_returns:
  assumes qu: "quiet (sv_io env)" "quiet (sv_fs env)" and mem: "0 < memory_budget (storage spec)" and srv: "server M obj"
    and "list_all (honest_round M obj) rounds" "good M obj spec lim s" "pending_ok M obj pending s"
    "rt_max_retries (sn_retry s) \<le> u32_max" "rt_max_retries (sn_retry s) < retries_started (sn_retry s) + length rounds"
    "retries_started (sn_retry s) \<le> rt_max_retries (sn_retry s)"
  shows "single_loop env spec request_url rounds pending s \<noteq> None"
  using assms(5-)
proof (induction rounds arbitrary: pending s lim)
  case (Cons ro rounds)
  have P: "pass_ok M obj env spec (single_pass env spec request_url ro pending s)"
    using single_pass_ok [OF qu mem srv Cons.prems(2,3)] Cons.prems(1) by simp
  show ?case
  proof (cases "single_pass env spec request_url ro pending s")
    case (Again p s1)
    have "advanced s s1" using single_pass_again [OF Again Cons.prems(4)] .
    then show ?thesis using Again P Cons.prems Cons.IH by (auto simp: pass_ok_def advanced_def)
  qed (use P in \<open>auto simp: pass_ok_def\<close>)
qed simp

lemma run_single_returns:
  assumes "quiet (sv_io env)" "quiet (sv_fs env)" "0 < memory_budget (storage spec)" "server M obj"
    "list_all (honest_round M obj) rounds" "honest M obj a" "resumable M obj a n tsize d saved"
    "max_retries (retry spec) \<le> u32_max" "max_retries (retry spec) < length rounds"
  shows "\<exists>r s. run_single_with_retry env spec request_url a n tsize d saved rounds = Some (r, s) \<and> final M obj env r s"
proof -
  obtain r1 w where st: "runtime_start env spec d n tsize = (r1, w)" by fastforce
  have M: "snd a \<in> M" using assms(6) by (simp add: honest_def)
  let ?s = "single_start spec request_url (snd a) n tsize saved w"
  have "run_single_with_retry env spec request_url a n tsize d saved rounds \<noteq> None"
  proof (cases r1)
    case (Inl e)
    then show ?thesis using st by (simp add: run_single_with_retry_def Let_def)
  next
    case (Inr u)
    then obtain lim where g: "good M obj spec lim ?s" using start_good [OF assms(7) M assms(4)] st by blast
    have p: "pending_ok M obj (Some a) ?s" using assms(6,7) by (auto simp: pending_ok_def resumable_def single_start_def)
    have "single_loop env spec request_url rounds (Some a) ?s \<noteq> None"
      using assms(8,9) by (intro single_loop_returns [OF assms(1-5) g p]) (simp_all add: single_start_def retry_state_new_def)
    then show ?thesis using st Inr by (simp add: run_single_with_retry_def Let_def)
  qed
  then obtain r s where "run_single_with_retry env spec request_url a n tsize d saved rounds = Some (r, s)" by auto
  then show ?thesis using run_single_final [OF assms(1-7)] by blast
qed

section \<open>Properties\<close>

text \<open>C1. A transfer over one connection ends after at most one pass more than the configured
  retries, and when it reports success the output file is the object, byte for byte and no
  longer: whatever mixture of broken bodies, range requests for the rest, ignored ranges,
  replaced objects, restarts from zero, checkpoints and preallocation led there.  The server
  may replace the object as long as its validators tell, and may declare no length.\<close>

theorem single_transfer_exact:
  assumes "quiet (sv_io env)" "quiet (sv_fs env)" "0 < memory_budget (storage spec)" "server M obj"
    "list_all (honest_round M obj) rounds" "honest M obj a" "resumable M obj a n tsize d saved"
    "max_retries (retry spec) \<le> u32_max" "max_retries (retry spec) < length rounds"
  shows "\<exists>r s. run_single_with_retry env spec request_url a n tsize d saved rounds = Some (r, s) \<and>
    (r = Inr () \<longrightarrow> file_of s = contents_of (obj (sn_baseline s)) \<and> (sn_use_control s \<longrightarrow> sn_saved s = None))"
  using run_single_returns [OF assms] by (fastforce simp: final_def)


text \<open>An example: an object of three bytes whose first connection breaks, or is paused, after
  two of them.\<close>

definition calm_env :: "nat single_env" where
  "calm_env = \<lparr>sv_io = (\<lambda>_. None), sv_fs = (\<lambda>_. None), sv_zero = 0\<rparr>"

definition free_wait :: chunk_wait where
  "free_wait = \<lparr>cw_signals = [], cw_writer_closed = False, cw_semaphore_closed = False, cw_slot_refused = False\<rparr>"

definition sample_meta :: response_meta where
  "sample_meta =
     \<lparr>content_length = Some 3, content_range_start = None, content_range_end = None, content_range_total = None,
      accept_ranges = True, etag = Some ''v1'', last_modified = None, content_disposition = None, content_encoding = None\<rparr>"

definition sample_first :: "nat stream_event \<Rightarrow> nat answer" where
  "sample_first ev =
     (\<lparr>rs_status = 200, rs_headers = (\<lambda>_. None), rs_body = [EvChunk [7, 8] (\<lambda>_. free_wait), ev]\<rparr>, sample_meta)"

definition sample_rest :: "nat answer" where
  "sample_rest =
     (\<lparr>rs_status = 206, rs_headers = (\<lambda>_. None), rs_body = [EvChunk [9] (\<lambda>_. free_wait), EvEnd None]\<rparr>,
      sample_meta\<lparr>content_length := Some 1, content_range_start := Some 2, content_range_end := Some 2, content_range_total := Some 3\<rparr>)"

definition sample_round :: "nat single_round" where
  "sample_round =
     \<lparr>ro_signals = [], ro_range = (\<lambda>_ _. Inr sample_rest), ro_get = Inl ChannelClosed, ro_elapsed1 = 0, ro_elapsed2 = 0,
      ro_rand = (\<lambda>_. 0), ro_sleep_signals = []\<rparr>"

definition sample_spec :: download_spec where
  "sample_spec = (download_spec_new ''u'')\<lparr>retry := (retry (download_spec_new ''u''))\<lparr>max_retries := 1\<rparr>,
     storage := (storage (download_spec_new ''u''))\<lparr>memory_budget := 8\<rparr>\<rparr>"

definition sample_break :: "nat stream_event" where
  "sample_break = EvEnd (Some (Transport \<lparr>te_kind = Timeout, te_source = ''idle''\<rparr>))"

definition sample_transfer :: "nat stream_event \<Rightarrow> (unit dl_result \<times> nat single_state) option" where
  "sample_transfer ev =
     run_single_with_retry calm_env sample_spec ''u'' (sample_first ev) 0 (Some 3) blank_disk None [sample_round, sample_round]"

definition sample_metas :: "response_meta set" where
  "sample_metas = {sample_meta, snd sample_rest}"

lemma sample_ok:
  "quiet (sv_io calm_env)" "quiet (sv_fs calm_env)" "0 < memory_budget (storage sample_spec)"
  "server sample_metas (\<lambda>_. [7, 8, 9 :: nat])" "list_all (honest_round sample_metas (\<lambda>_. [7, 8, 9])) [sample_round, sample_round]"
  "honest sample_metas (\<lambda>_. [7, 8, 9]) (sample_first sample_break)"
  "honest sample_metas (\<lambda>_. [7, 8, 9]) (sample_first (EvStop Pause))"
  "resumable sample_metas (\<lambda>_. [7, 8, 9]) (sample_first ev) 0 (Some 3) blank_disk None"
  "max_retries (retry sample_spec) \<le> u32_max" "max_retries (retry sample_spec) < length [sample_round, sample_round]"
  by (simp_all add: quiet_def calm_env_def sample_spec_def download_spec_new_def server_def u64_max_def u32_max_def honest_round_def
      sample_round_def honest_def sample_rest_def sample_metas_def starts_at_def sample_meta_def single_response_total_size_def
      sample_first_def sample_break_def resumable_def stop_signal_error_def)

lemmas sample_eval = run_single_with_retry_def runtime_start_def start_writer_def runtime_new_def
  create_output_file_def set_contents_def sw_disk_def single_start_def single_pass_def answer_phase_def fresh_phase_def
  adopt_def stream_phase_def stream_single_attempt_def calm_env_def sample_spec_def download_spec_new_def sample_first_def
  sample_meta_def sample_break_def sample_round_def blank_disk_def writer_new_def memory_budget_new_def div_ceil_2
  forward_def chunk_error_def free_wait_def settle_before_def push_permit_def store_data_def buffer_single_def
  flush_at_watermark_def single_bytes_def SINGLE_LIMIT_def cache_new_def single_response_total_size_def on_writer_def
  flush_def flush_and_wait_def flush_all_def flush_single_def write_block_def on_disk_def disk_seek_def disk_write_def
  drain_all_def sync_file_def disk_sync_def forward_observed.simps Let_def persist_single_control_snapshot_def should_save_def
  finish_with_def finish_single_error_def close_def write_checkpoint_def fs_outcome_def tracker_new_def add_u64_def
  u64_max_def u32_max_def sat_add_u64_def sat_add_u32_def mark_saved_def

lemma sample_paused: "\<exists>s. sample_transfer (EvStop Pause) = Some (Inl Paused, s) \<and> sn_use_control s"
  unfolding sample_transfer_def
  by (simp add: sample_eval stop_signal_error_def)

lemma sample_completed: "\<exists>s. sample_transfer sample_break = Some (Inr (), s)"
  unfolding sample_transfer_def
  by (simp add: sample_eval after_decision_def decide_def decide_inner_def over_limit_def retry_state_new_def
      sleep_with_backoff_def is_retryable_def request_rest_def continue_phase_def continuation_error_def sample_rest_def
      validate_range_response_def validate_range_status_def range_response_allowed_def resolve_response_total_def
      resolve_expected_end_def checked_sub_u64_def checked_add_u64_def metadata_matches_baseline_def
      complete_single_transfer_def remove_checkpoint_def save_single_control_snapshot_at_def single_snapshot_template_def)

theorem single_transfer_exact_witness:
  "case sample_transfer sample_break of None \<Rightarrow> False | Some (r, s) \<Rightarrow> r = Inr () \<and> file_of s = contents_of [7, 8, 9]"
proof -
  obtain s where "sample_transfer sample_break = Some (Inr (), s)" using sample_completed by blast
  then show ?thesis
    using single_transfer_exact [OF sample_ok(1-6,8-10), of "''u''"] by (auto simp: sample_transfer_def)
qed


end
