(* ===== verification/Spec2Isabelle.thy ===== *)
theory Spec2Isabelle
  imports Request_Body Body_Sink Single_Transfer
begin

text \<open>
  A verification library for \<open>bytehaul\<close>, an HTTP download library in Rust.  Paths below are
  relative to \<open>src/src/\<close> of the repository.

  \<^bold>\<open>The program.\<close>  A download starts from a specification (\<open>config.rs\<close>), which is validated
  before anything else happens.  The session (\<open>session/mod.rs\<close>) decides between resuming from
  a control file, probing the server for range support and falling back to one plain
  connection.  A ranged download keeps a map of finished pieces and a scheduler that leases
  byte ranges to workers (\<open>scheduler.rs\<close>).  A worker (\<open>session/multi/worker.rs\<close>) sends range
  requests through the HTTP worker (\<open>http/worker.rs\<close>), checks the answers
  (\<open>session/range_validate.rs\<close>) and forwards the body, chunk by chunk and under a memory
  budget (\<open>session/flow.rs\<close>), to one writer task (\<open>storage/writer.rs\<close>) with a write-back cache
  (\<open>storage/cache.rs\<close>).  A monitor saves checkpoints (\<open>storage/control.rs\<close>).  Below the HTTP
  worker, one driver thread per client runs libcurl transfers (\<open>network/curl\<close>), chooses the
  address of each (\<open>ip_policy.rs\<close>) and hands bodies over a bounded channel.  At the end the
  file is checked against a checksum (\<open>checksum.rs\<close>).

  \<^bold>\<open>Conventions.\<close>  \<open>u64\<close> and \<open>usize\<close> (64 bits) are \<^typ>\<open>nat\<close> with \<open>add_u64\<close>, \<open>sub_u64\<close> and
  \<open>mul_u64\<close> wrapping modulo \<open>2 ^ 64\<close> and \<open>sat_add_u64\<close>, \<open>checked_add_u64\<close> for the saturating
  and checked operations; results that need it carry the bound as a hypothesis.  Instants and
  durations are nanoseconds.  Text is ASCII.  A \<open>BTreeMap\<close> is an association list in key order.
  Errors are values of \<open>download_error\<close> and fallible operations return
  \<open>download_error + 'a\<close>.  Code outside the repository (libcurl, URL parsing, digests, the
  \<open>bincode\<close> codec, the file system, random numbers, clocks, \<open>f64\<close> arithmetic on rates) is an
  argument of the definitions; where a law of it is used, a locale or a hypothesis names it.
  Concurrent parts are runs of atomic steps in any order, one step for each section of
  code under a lock or between two messages.

  \<^bold>\<open>Theories.\<close>
  \<^item> \<open>Prelude\<close>, \<open>Text_Util\<close>: fixed-width arithmetic, ordered maps (locale \<open>ordered_map\<close>), string
    functions, and their laws.
  \<^item> \<open>Error_Model\<close>: \<open>error.rs\<close> and the HTTP error constructors.
  \<^item> \<open>Piece_Map\<close>: \<open>storage/piece_map.rs\<close>; pieces tile the file, and the bitset written to disk
    reads back (locale \<open>bit_storage\<close>).
  \<^item> \<open>Range_Set\<close>, \<open>Piece_Lease\<close>: byte ranges, the range set (locale \<open>byte_range_set\<close>) and the
    leases of one piece in \<open>scheduler.rs\<close>.
  \<^item> \<open>Ledger\<close>: the abstract specification of the scheduler - every byte is free, leased once or
    acknowledged once - with the locale \<open>ledger_refinement\<close>.
  \<^item> \<open>Scheduler\<close>, \<open>Scheduler_Ops\<close>, \<open>Scheduler_Batch\<close>, \<open>Scheduler_Dynamic\<close>, \<open>Dynamic_Requests\<close>,
    \<open>Scheduler_Run\<close>: \<open>scheduler.rs\<close>, static and dynamic mode.  Every sequence of operations
    refines the ledger; serving terminates; stale keys change nothing; the cached counters
    are exact; recovery batches are all or nothing; dynamic candidates are the maximal free
    runs and the split bounds are those of the specification.
  \<^item> \<open>Control_File\<close>, \<open>Bincode\<close>: \<open>storage/control.rs\<close> over an abstract codec (locale
    \<open>payload_codec\<close>) and the format of the codec as its instance; a save that is cut off
    anywhere leaves the old or the new snapshot, and damaged files are refused.
  \<^item> \<open>Config\<close>: \<open>config.rs\<close> and the proxy settings of \<open>network.rs\<close>; validation accepts exactly the
    specifications with the listed properties.
  \<^item> \<open>Http_Range\<close>, \<open>Http_Worker\<close>: \<open>http/request.rs\<close>, \<open>http/response.rs\<close>,
    \<open>session/range_validate.rs\<close>, \<open>http/worker.rs\<close>; which answers to a range request are accepted,
    and that redirects are bounded and stay on HTTP.
  \<^item> \<open>Retry\<close>: \<open>session/retry.rs\<close>; the retry loop returns, its decisions and delays.
  \<^item> \<open>Writer\<close>, \<open>Writer_View\<close>, \<open>Flow\<close>: \<open>storage/cache.rs\<close>, \<open>storage/writer.rs\<close>, \<open>session/flow.rs\<close>; what
    each command does to the file as seen through the cache, and that the memory budget
    never blocks a producer forever.
  \<^item> \<open>Filename\<close>, \<open>Checksum\<close>: \<open>filename.rs\<close> and \<open>checksum.rs\<close>; names stay inside the output
    directory, and verification succeeds exactly on the expected digest.
  \<^item> \<open>Session\<close>: \<open>session/mod.rs\<close>, \<open>session/resume.rs\<close>; the plan of a download, resume
    decisions, the cadence of checkpoints and the checksum gate.
  \<^item> \<open>Multi_Transfer\<close>: workers, writer, scheduler and monitor of \<open>session/multi.rs\<close> and
    \<open>session/multi/worker.rs\<close> together; acknowledged bytes are on disk and checkpoints never
    claim more than is durable.
  \<^item> \<open>Request_Body\<close>: \<open>session/multi/worker/request.rs\<close> and the staging of speculative copies.
  \<^item> \<open>Ip_Policy\<close>, \<open>Body_Sink\<close>: \<open>network/curl/ip_policy.rs\<close> and the body channel of
    \<open>network/curl/driver/mod.rs\<close>; reservations are exact, selections sound, and the channel is
    an exact bounded pipe that never deadlocks.
  \<^item> \<open>Single_Writer\<close>, \<open>Single_Transfer\<close>: \<open>session/single.rs\<close> and the file creation of
    \<open>storage/file.rs\<close>; one connection with retries, range requests for the rest, restarts and
    checkpoints.  It returns, success means the file is the object, and every checkpoint it
    leaves is true.

  \<^bold>\<open>Loops and fuel.\<close>  Loops are recursive functions with termination proofs.  Redirect loops
  count down from the limit of the source.  The retry loop consumes a list of rounds, each
  what the environment does in one attempt, and \<open>retry_loop_terminates\<close> shows how many it
  needs.  The forwarding loops, which wait for the writer, are partial functions and are
  shown to return (\<open>forward_exact\<close>, \<open>staged_copy_exact\<close>).

  \<^bold>\<open>Not modelled.\<close>  The glue to libcurl (\<open>network/curl/runtime.rs\<close>, \<open>transport.rs\<close>, option
  setting, connection pool, header parsing and poll loop of the driver), to Tokio (the task
  plumbing of \<open>manager.rs\<close>, \<open>lib.rs\<close> and the select loop of \<open>session/multi.rs\<close>) and to the
  resolver (\<open>network/dns.rs\<close>): mostly calls of foreign code, whose results are parameters
  here.  The decision when a slow request is challenged
  (\<open>session/multi/worker/recovery.rs\<close> and its callers) rests on \<open>f64\<close> estimates; what a
  challenger may do to the file and the ledger is modelled.  \<open>rate_limiter.rs\<close> only adds waits.
  \<open>progress.rs\<close>, \<open>eta.rs\<close>, \<open>logging.rs\<close> and \<open>bench_stats.rs\<close> do not influence what is
  downloaded.  \<open>network/curl/pool_semantics.rs\<close> holds experiments that run against a live
  libcurl.  The Python bindings, benches, examples and tests are clients of the library.
\<close>

end
